(* ===== verification/Prelude.thy ===== *)
theory Prelude
  imports Main "HOL-Library.Word"
begin

text \<open>
  Shared vocabulary of the gateway development: Go's machine integers, times and strings, the
  errors the packages of \<^verbatim>\<open>src/services/gateway/internal\<close> pass to one another, and the generic
  lemmas on lists that several components use.

  \<^item> \<^verbatim>\<open>byte\<close>, \<^verbatim>\<open>uint32\<close>, \<^verbatim>\<open>uint64\<close> are words of their width. Go's \<^verbatim>\<open>int\<close> has 64 bits: it is an
    \<open>int\<close> here, and \<open>wrap64\<close> is applied where a sum can leave the range.
  \<^item> A \<^verbatim>\<open>time.Time\<close> is an \<open>int\<close> number of nanoseconds; \<open>time_Sub\<close> saturates as
    \<^verbatim>\<open>Time.Sub\<close> does.
  \<^item> A \<^verbatim>\<open>(T, error)\<close> pair is a value of \<open>gerror + 't\<close>, with \<open>Inl\<close> for the error.
  \<^item> A Go string is a sequence of bytes, so \<open>string\<close> (whose characters are bytes) is exact.
\<close>

unbundle bit_operations_syntax

named_theorems gw_defs "definitions of the model that proofs unfold together"
named_theorems gw_inv "preservation of component invariants"

type_synonym byte = "8 word"
type_synonym bytes = "8 word list"
type_synonym u32 = "32 word"
type_synonym u64 = "64 word"
type_synonym time = int
type_synonym duration = int

text \<open>
  The errors that cross a package boundary: the sentinel values and the error types that callers
  tell apart with \<^verbatim>\<open>errors.Is\<close> and \<^verbatim>\<open>errors.As\<close>. \<open>OtherErr\<close> is any error no caller inspects.
\<close>

datatype gerror =
    ErrNoUpstream
  | ErrNotFound
  | ErrParentMismatch
  | ErrNull
  | ErrTruncated
  | ErrBadAddress
  | ErrRelayInvalid
  | ErrInvalidURL
  | ErrDeadlineExceeded
  | ErrCanceled
  | RpcError int string
  | InvalidError string
  | GrpcStatus int string
  | APIError int string
  | OtherErr string
  | RuntimeError string

text \<open>
  \<open>RuntimeError\<close> is not an error value of the program but a panic of its run-time system. It ends the functions that
  propagate errors just as an error does; that it does not occur is a theorem.
\<close>

text \<open>The two ways a call can end that matter here: it returns, or it panics.\<close>

datatype 'a outcome = Returns 'a | Panics

text \<open>\<^verbatim>\<open>if err != nil { return err }\<close> between two calls.\<close>

fun ebind :: "'e + 'a \<Rightarrow> ('a \<Rightarrow> 'e + 'b) \<Rightarrow> 'e + 'b" where
  "ebind (Inl err) f = Inl err"
| "ebind (Inr x) f = f x"

lemma ebind_eq_Inr: "ebind m f = Inr y \<longleftrightarrow> (\<exists>x. m = Inr x \<and> f x = Inr y)"
  by (cases m) simp_all

lemma ebind_eq_Inl: "ebind m f = Inl err \<longleftrightarrow> m = Inl err \<or> (\<exists>x. m = Inr x \<and> f x = Inl err)"
  by (cases m) simp_all

lemma case_sum_ebind: "(case m of Inl err \<Rightarrow> Inl err | Inr x \<Rightarrow> f x) = ebind m f"
  by (cases m) simp_all

text \<open>
  The same for calls that act on the world: \<open>rbind m f\<close> runs \<open>m\<close>, returns early on an error and goes
  on with \<open>f\<close> otherwise; \<open>rlift\<close> is a call that has no effect.
\<close>

type_synonym ('e, 'a) call = "'e \<Rightarrow> (gerror + 'a) \<times> 'e"

definition rbind :: "('e, 'a) call \<Rightarrow> ('a \<Rightarrow> ('e, 'b) call) \<Rightarrow> ('e, 'b) call" where
  "rbind m f = (\<lambda>e. case m e of (Inl err, e') \<Rightarrow> (Inl err, e') | (Inr x, e') \<Rightarrow> f x e')"

definition rlift :: "gerror + 'a \<Rightarrow> ('e, 'a) call" where
  "rlift r = (\<lambda>e. (r, e))"

lemma rbind_eq_Inr: "rbind m f e = (Inr y, e'') \<longleftrightarrow> (\<exists>x e'. m e = (Inr x, e') \<and> f x e' = (Inr y, e''))"
  by (cases "m e"; cases "fst (m e)") (auto simp: rbind_def)

lemma rbind_eq_Inl:
  "rbind m f e = (Inl err, e'') \<longleftrightarrow> m e = (Inl err, e'') \<or> (\<exists>x e'. m e = (Inr x, e') \<and> f x e' = (Inl err, e''))"
  by (cases "m e"; cases "fst (m e)") (auto simp: rbind_def)

lemma rlift_eq [simp]: "rlift r e = (r', e') \<longleftrightarrow> r' = r \<and> e' = e"
  by (auto simp: rlift_def)

lemma rbind_rlift [simp]: "rbind (rlift (Inl err)) f = rlift (Inl err)" "rbind (rlift (Inr x)) f = f x"
  by (auto simp: rbind_def rlift_def)

text \<open>Early returns that replace the error, taken apart.\<close>

lemma case_sum_Inr: "(case m of Inl err \<Rightarrow> Inl (g err) | Inr b \<Rightarrow> f b) = Inr y \<longleftrightarrow> (\<exists>b. m = Inr b \<and> f b = Inr y)"
  by (cases m) simp_all

lemma case_option_Inr: "(case m of None \<Rightarrow> Inl err | Some b \<Rightarrow> f b) = Inr y \<longleftrightarrow> (\<exists>b. m = Some b \<and> f b = Inr y)"
  by (cases m) simp_all

lemma if_Inl_Inr: "(if c then Inl err else r) = Inr y \<longleftrightarrow> \<not> c \<and> r = Inr y"
  by simp

lemma case_sum_call:
  "(case m of Inl err \<Rightarrow> rlift (Inl (g err)) | Inr b \<Rightarrow> f b) e = (Inr y, e') \<longleftrightarrow> (\<exists>b. m = Inr b \<and> f b e = (Inr y, e'))"
  by (cases m) simp_all

lemma case_option_call:
  "(case m of None \<Rightarrow> rlift (Inl err) | Some b \<Rightarrow> f b) e = (Inr y, e') \<longleftrightarrow> (\<exists>b. m = Some b \<and> f b e = (Inr y, e'))"
  by (cases m) simp_all

lemma if_call: "(if c then rlift (Inl err) else r) e = (Inr y, e') \<longleftrightarrow> \<not> c \<and> r e = (Inr y, e')"
  by simp

lemmas early_return = ebind_eq_Inr rbind_eq_Inr case_sum_Inr case_option_Inr if_Inl_Inr case_sum_call case_option_call if_call

section \<open>Integers of the Go machine\<close>

definition maxInt64 :: int where
  "maxInt64 = 2 ^ 63 - 1"

definition minInt64 :: int where
  "minInt64 = - (2 ^ 63)"

text \<open>Two's complement wrap-around of a signed 64-bit result.\<close>

definition wrap64 :: "int \<Rightarrow> int" where
  "wrap64 x = (x + 2 ^ 63) mod 2 ^ 64 - 2 ^ 63"

lemma wrap64_id [simp]: "minInt64 \<le> x \<Longrightarrow> x \<le> maxInt64 \<Longrightarrow> wrap64 x = x"
  by (simp add: wrap64_def minInt64_def maxInt64_def)

lemma wrap64_range: "minInt64 \<le> wrap64 x \<and> wrap64 x \<le> maxInt64"
proof -
  have "0 \<le> (x + 2 ^ 63) mod 2 ^ 64" and "(x + 2 ^ 63) mod 2 ^ 64 < (2 ^ 64 :: int)"
    by simp_all
  then show ?thesis by (simp add: wrap64_def minInt64_def maxInt64_def)
qed

text \<open>\<^verbatim>\<open>a % b\<close> on signed integers: the remainder has the sign of the dividend.\<close>

definition go_rem :: "int \<Rightarrow> int \<Rightarrow> int" where
  "go_rem a b = sgn a * (\<bar>a\<bar> mod \<bar>b\<bar>)"

lemma go_rem_nonneg [simp]: "0 \<le> a \<Longrightarrow> 0 < b \<Longrightarrow> go_rem a b = a mod b"
  by (cases "a = 0") (simp_all add: go_rem_def sgn_if)

lemma go_rem_of_nat [simp]: "0 < n \<Longrightarrow> go_rem (int a) (int n) = int (a mod n)"
  by (simp add: zmod_int)

text \<open>\<^verbatim>\<open>int(u)\<close> of a \<^verbatim>\<open>uint64\<close>: the same number below \<^verbatim>\<open>1<<63\<close>, a negative one from there on.\<close>

lemma sint_small:
  assumes "unat (w :: u64) < 2 ^ 63"
  shows "sint w = int (unat w)"
proof -
  have "uint w < 2 ^ 63"
    using assms by (metis of_nat_less_iff of_nat_numeral of_nat_power uint_nat)
  then have "signed_take_bit 63 (uint w) = uint w"
    by (intro signed_take_bit_int_eq_self) (auto intro: order_trans [of _ 0])
  then show ?thesis by (simp add: sint_uint)
qed

lemma unat_inc:
  assumes "n \<noteq> (-1 :: u64)"
  shows "unat (n + 1) = unat n + 1"
proof -
  have "1 + n \<noteq> 0" using assms by (simp add: add_eq_0_iff)
  then show ?thesis using unatSuc [of n] by (simp add: add.commute)
qed

text \<open>\<^verbatim>\<open>t.Sub(u)\<close>: the difference, saturated at the ends of the \<^verbatim>\<open>Duration\<close> range.\<close>

definition time_Sub :: "time \<Rightarrow> time \<Rightarrow> duration" where
  "time_Sub t u = max minInt64 (min maxInt64 (t - u))"

lemma time_Sub_self [simp]: "time_Sub t t = 0"
  by (simp add: time_Sub_def minInt64_def maxInt64_def)

lemma time_Sub_mono: "t \<le> t' \<Longrightarrow> time_Sub t u \<le> time_Sub t' u"
  unfolding time_Sub_def by linarith

lemma time_Sub_nonneg: "u \<le> t \<Longrightarrow> 0 \<le> time_Sub t u"
  by (simp add: time_Sub_def minInt64_def maxInt64_def)

lemma time_Sub_less:
  assumes "d \<le> maxInt64"
  shows "time_Sub t u < d \<longleftrightarrow> t - u < d \<and> minInt64 < d"
  using assms unfolding time_Sub_def by linarith

section \<open>Strings and bytes\<close>

definition bytes_of :: "string \<Rightarrow> bytes" where
  "bytes_of s = map (\<lambda>c. word_of_nat (of_char c)) s"

definition string_of :: "bytes \<Rightarrow> string" where
  "string_of b = map (\<lambda>w. char_of (unat w)) b"

lemma unat_word_of_char [simp]: "unat (word_of_nat (of_char c) :: byte) = of_char c"
  by (simp add: unat_of_nat)

lemma string_of_bytes_of [simp]: "string_of (bytes_of s) = s"
  by (simp add: string_of_def bytes_of_def o_def)

lemma string_of_append: "string_of (a @ b) = string_of a @ string_of b"
  by (simp add: string_of_def)

lemma length_bytes_of [simp]: "length (bytes_of s) = length s"
  by (simp add: bytes_of_def)

lemma bytes_of_eq_Nil [simp]: "bytes_of s = [] \<longleftrightarrow> s = []"
  by (simp add: bytes_of_def)

lemma length_string_of [simp]: "length (string_of b) = length b"
  by (simp add: string_of_def)

section \<open>Lists\<close>

lemma length_butlast_less [simp]: "xs \<noteq> [] \<Longrightarrow> length (butlast xs) < length xs"
  by (cases xs) simp_all

lemma mod_add_inj:
  assumes "(s + i) mod n = (s + j) mod (n::nat)" and "i < n" and "j < n"
  shows "i = j"
proof -
  from assms(1) have "(int s + int i) mod int n = (int s + int j) mod int n"
    by (metis of_nat_add of_nat_mod)
  then have "int n dvd int i - int j"
    by (simp add: mod_eq_dvd_iff)
  moreover have "\<bar>int i - int j\<bar> < \<bar>int n\<bar>"
    using assms(2,3) by linarith
  ultimately show ?thesis
    using dvd_imp_le_int [of "int i - int j" "int n"] by linarith
qed

lemma rotate_list_update:
  assumes "i < length xs"
  shows "rotate s (xs[(s + i) mod length xs := v]) = (rotate s xs)[i := v]"
proof (rule nth_equalityI)
  fix j assume "j < length (rotate s (xs[(s + i) mod length xs := v]))"
  then have j: "j < length xs" by simp
  then have pos: "(s + j) mod length xs < length xs"
    using mod_less_divisor [of "length xs"] by (cases xs) simp_all
  show "rotate s (xs[(s + i) mod length xs := v]) ! j = (rotate s xs)[i := v] ! j"
  proof (cases "i = j")
    case True
    with j pos show ?thesis by (simp add: nth_rotate)
  next
    case False
    then have "(s + i) mod length xs \<noteq> (s + j) mod length xs"
      using mod_add_inj assms j by blast
    with False j show ?thesis by (simp add: nth_rotate)
  qed
qed simp

lemma rotate1_inject: "rotate1 xs = rotate1 ys \<Longrightarrow> xs = ys"
  by (cases xs; cases ys) auto

lemma rotate_inject: "rotate n xs = rotate n ys \<Longrightarrow> xs = ys"
  by (induction n arbitrary: xs ys) (auto simp: rotate_def dest: rotate1_inject)

lemma take_min_drop:
  "take (min (length xs) (a + n) - a) (drop a xs) = take n (drop a xs)"
  by (cases "length xs \<le> a + n") (simp_all add: min_def)

end
