(* ===== verification/Hexcode.thy ===== *)
theory Hexcode
  imports Prelude
begin

text \<open>
  The hexadecimal parts of Go's standard library that the gateway uses: \<^verbatim>\<open>encoding/hex\<close>,
  \<^verbatim>\<open>strconv.FormatUint\<close> and \<^verbatim>\<open>ParseUint\<close> in base 16, and the ASCII case mappings and prefix
  operations of \<^verbatim>\<open>strings\<close>; with the round trips between them.
\<close>

section \<open>Digits\<close>

definition hex_digit :: "nat \<Rightarrow> char" where
  "hex_digit n = (if n < 10 then char_of (48 + n) else char_of (87 + n))"

definition hex_val :: "char \<Rightarrow> nat option" where
  "hex_val c = (let n = of_char c :: nat in
     if 48 \<le> n \<and> n \<le> 57 then Some (n - 48)
     else if 97 \<le> n \<and> n \<le> 102 then Some (n - 87)
     else if 65 \<le> n \<and> n \<le> 70 then Some (n - 55)
     else None)"

lemma of_char_hex_digit: "n < 16 \<Longrightarrow> (of_char (hex_digit n) :: nat) = (if n < 10 then 48 + n else 87 + n)"
  by (simp add: hex_digit_def)

lemma hex_val_digit [simp]: "n < 16 \<Longrightarrow> hex_val (hex_digit n) = Some n"
  by (simp add: hex_val_def of_char_hex_digit Let_def)

lemma hex_val_less: "hex_val c = Some n \<Longrightarrow> n < 16"
  by (auto simp: hex_val_def Let_def split: if_splits)

section \<open>Byte strings\<close>

definition hex_EncodeToString :: "bytes \<Rightarrow> string" where
  "hex_EncodeToString b = concat (map (\<lambda>w. [hex_digit (unat w div 16), hex_digit (unat w mod 16)]) b)"

fun hex_DecodeString :: "string \<Rightarrow> gerror + bytes" where
  "hex_DecodeString [] = Inr []"
| "hex_DecodeString [c] = Inl (OtherErr ''encoding/hex: odd length hex string'')"
| "hex_DecodeString (c # d # s) = (case hex_val c of
     None \<Rightarrow> Inl (OtherErr ''encoding/hex: invalid byte'')
   | Some h \<Rightarrow> (case hex_val d of
       None \<Rightarrow> Inl (OtherErr ''encoding/hex: invalid byte'')
     | Some l \<Rightarrow> ebind (hex_DecodeString s) (\<lambda>b. Inr (word_of_nat (16 * h + l) # b))))"

lemma hex_Encode_simps [simp]:
  "hex_EncodeToString [] = []"
  "hex_EncodeToString (w # b) = hex_digit (unat w div 16) # hex_digit (unat w mod 16) # hex_EncodeToString b"
  by (simp_all add: hex_EncodeToString_def)

lemma unat_byte_less: "unat (w :: byte) < 256"
  using unsigned_less [of w, where 'a = nat] by simp

lemma hex_decode_encode [simp]: "hex_DecodeString (hex_EncodeToString b) = Inr b"
proof (induction b)
  case (Cons w b)
  have "unat w div 16 < 16" using unat_byte_less [of w] by simp
  with Cons show ?case by simp
qed simp

lemma length_hex_Encode [simp]: "length (hex_EncodeToString b) = 2 * length b"
  by (induction b) simp_all

lemma hex_decode_length: "hex_DecodeString s = Inr b \<Longrightarrow> length s = 2 * length b"
  by (induction s arbitrary: b rule: hex_DecodeString.induct) (auto simp: ebind_eq_Inr split: option.splits)

section \<open>Case\<close>

definition lower_char :: "char \<Rightarrow> char" where
  "lower_char c = (let n = of_char c :: nat in if 65 \<le> n \<and> n \<le> 90 then char_of (n + 32) else c)"

definition upper_char :: "char \<Rightarrow> char" where
  "upper_char c = (let n = of_char c :: nat in if 97 \<le> n \<and> n \<le> 122 then char_of (n - 32) else c)"

definition strings_ToLower :: "string \<Rightarrow> string" where
  "strings_ToLower = map lower_char"

definition strings_ToUpper :: "string \<Rightarrow> string" where
  "strings_ToUpper = map upper_char"

lemma of_char_less: "(of_char c :: nat) < 256"
  using of_char_mod_256 [of c, where 'a = nat] mod_less_divisor [of 256 "of_char c"] by simp

lemma of_char_char_of_small [simp]: "n < 256 \<Longrightarrow> (of_char (char_of n) :: nat) = n"
  by simp

lemma hex_val_upper: "hex_val (upper_char c) = hex_val c \<or> hex_val c = None"
  by (auto simp: hex_val_def upper_char_def Let_def)

lemma hex_val_upper_digit [simp]: "n < 16 \<Longrightarrow> hex_val (upper_char (hex_digit n)) = Some n"
  by (simp add: hex_val_def upper_char_def of_char_hex_digit Let_def)

lemma lower_upper_digit [simp]: "n < 16 \<Longrightarrow> lower_char (upper_char (hex_digit n)) = hex_digit n"
  unfolding lower_char_def upper_char_def Let_def by (auto simp: of_char_hex_digit) (simp_all add: hex_digit_def)

lemma lower_digit [simp]: "n < 16 \<Longrightarrow> lower_char (hex_digit n) = hex_digit n"
  by (simp add: lower_char_def Let_def of_char_hex_digit)

section \<open>Numbers in base 16\<close>

fun hex_digits :: "nat \<Rightarrow> string" where
  "hex_digits n = (if n < 16 then [hex_digit n] else hex_digits (n div 16) @ [hex_digit (n mod 16)])"

declare hex_digits.simps [simp del]

definition FormatUint16 :: "u64 \<Rightarrow> string" where
  "FormatUint16 v = hex_digits (unat v)"

fun hex_value :: "nat \<Rightarrow> string \<Rightarrow> nat option" where
  "hex_value a [] = Some a"
| "hex_value a (c # s) = (case hex_val c of None \<Rightarrow> None | Some d \<Rightarrow> hex_value (16 * a + d) s)"

text \<open>\<^verbatim>\<open>ParseUint(s, 16, 64)\<close>: an empty string, a character that is no digit, or a value of more than 64
  bits is an error.\<close>

definition ParseUint16 :: "string \<Rightarrow> gerror + u64" where
  "ParseUint16 s = (if s = [] then Inl (OtherErr ''strconv.ParseUint: invalid syntax'')
     else case hex_value 0 s of
       None \<Rightarrow> Inl (OtherErr ''strconv.ParseUint: invalid syntax'')
     | Some n \<Rightarrow> if n < 2 ^ 64 then Inr (word_of_nat n) else Inl (OtherErr ''strconv.ParseUint: value out of range''))"

lemma hex_value_append: "hex_value a (s @ t) = Option.bind (hex_value a s) (\<lambda>b. hex_value b t)"
  by (induction s arbitrary: a) (auto split: option.split)

lemma hex_value_digits: "hex_value 0 (hex_digits n) = Some n"
proof (induction n rule: hex_digits.induct)
  case (1 n)
  then show ?case by (cases "n < 16") (simp_all add: hex_digits.simps [of n] hex_value_append)
qed

lemma hex_digits_nonempty [simp]: "hex_digits n \<noteq> []"
  by (subst hex_digits.simps) simp

lemma ParseUint_FormatUint [simp]: "ParseUint16 (FormatUint16 v) = Inr v"
  using unsigned_less [of v, where 'a = nat] by (simp add: ParseUint16_def FormatUint16_def hex_value_digits)

section \<open>Prefixes\<close>

definition HasPrefix :: "string \<Rightarrow> string \<Rightarrow> bool" where
  "HasPrefix s p \<longleftrightarrow> take (length p) s = p"

definition TrimPrefix :: "string \<Rightarrow> string \<Rightarrow> string" where
  "TrimPrefix s p = (if HasPrefix s p then drop (length p) s else s)"

lemma HasPrefix_append [simp]: "HasPrefix (p @ s) p"
  by (simp add: HasPrefix_def)

lemma HasPrefixD: "HasPrefix s p \<Longrightarrow> s = p @ drop (length p) s"
  unfolding HasPrefix_def by (metis append_take_drop_id)

lemma TrimPrefix_append [simp]: "TrimPrefix (p @ s) p = s"
  by (simp add: TrimPrefix_def)

end
