(* ===== verification/Json.thy ===== *)
theory Json
  imports Hexcode
begin

text \<open>
  What the gateway uses of \<^verbatim>\<open>encoding/json\<close>. A JSON text is parsed to a value of the type
  \<open>json\<close> and a value is printed to a text; these two maps between bytes and values are a parameter
  (\<open>JsonText\<close>), and everything after them is modelled: how \<^verbatim>\<open>Unmarshal\<close> fills the fields of a
  struct, with its treatment of null, of absent fields and of type mismatches. A
  \<^verbatim>\<open>json.RawMessage\<close> is the value of its text, and an empty one is \<open>None\<close>. A number keeps the
  characters it was written with, because Go parses them by the type of the target.

  Also here: decimal numbers (\<^verbatim>\<open>strconv\<close>) and \<^verbatim>\<open>big.Int.SetString\<close> and \<^verbatim>\<open>String\<close>.
\<close>

section \<open>Decimal numbers\<close>

definition dec_val :: "char \<Rightarrow> nat option" where
  "dec_val c = (let n = of_char c :: nat in if 48 \<le> n \<and> n \<le> 57 then Some (n - 48) else None)"

fun dec_value :: "nat \<Rightarrow> string \<Rightarrow> nat option" where
  "dec_value a [] = Some a"
| "dec_value a (c # s) = (case dec_val c of None \<Rightarrow> None | Some d \<Rightarrow> dec_value (10 * a + d) s)"

fun dec_digits :: "nat \<Rightarrow> string" where
  "dec_digits n = (if n < 10 then [char_of (48 + n)] else dec_digits (n div 10) @ [char_of (48 + n mod 10)])"

declare dec_digits.simps [simp del]

definition ParseUint10 :: "string \<Rightarrow> gerror + u64" where
  "ParseUint10 s = (if s = [] then Inl (OtherErr ''strconv.ParseUint: invalid syntax'')
     else case dec_value 0 s of
       None \<Rightarrow> Inl (OtherErr ''strconv.ParseUint: invalid syntax'')
     | Some n \<Rightarrow> if n < 2 ^ 64 then Inr (word_of_nat n) else Inl (OtherErr ''strconv.ParseUint: value out of range''))"

definition FormatUint10 :: "u64 \<Rightarrow> string" where
  "FormatUint10 v = dec_digits (unat v)"

text \<open>\<^verbatim>\<open>big.Int.SetString\<close> in base 10 and 16: an optional sign and at least one digit.\<close>

definition big_SetString :: "(nat \<Rightarrow> string \<Rightarrow> nat option) \<Rightarrow> string \<Rightarrow> int option" where
  "big_SetString value s =
     (let neg = (s \<noteq> [] \<and> hd s = CHR ''-'');
          body = (if s \<noteq> [] \<and> (hd s = CHR ''-'' \<or> hd s = CHR ''+'') then tl s else s)
      in if body = [] then None
         else map_option (\<lambda>n. if neg then - int n else int n) (value 0 body))"

definition Atoi :: "string \<Rightarrow> gerror + int" where
  "Atoi s = (case big_SetString dec_value s of
     None \<Rightarrow> Inl (OtherErr ''strconv.Atoi: invalid syntax'')
   | Some v \<Rightarrow> if minInt64 \<le> v \<and> v \<le> maxInt64 then Inr v else Inl (OtherErr ''strconv.Atoi: value out of range''))"

definition big_String :: "int \<Rightarrow> string" where
  "big_String v = (if v < 0 then ''-'' @ dec_digits (nat (- v)) else dec_digits (nat v))"

lemma dec_val_char [simp]: "n < 10 \<Longrightarrow> dec_val (char_of (48 + n)) = Some n"
  by (simp add: dec_val_def Let_def)

lemma dec_value_append: "dec_value a (s @ t) = Option.bind (dec_value a s) (\<lambda>b. dec_value b t)"
  by (induction s arbitrary: a) (auto split: option.split)

lemma dec_value_digits: "dec_value 0 (dec_digits n) = Some n"
proof (induction n rule: dec_digits.induct)
  case (1 n)
  then show ?case by (cases "n < 10") (simp_all add: dec_digits.simps [of n] dec_value_append)
qed

lemma dec_digits_nonempty [simp]: "dec_digits n \<noteq> []"
  by (subst dec_digits.simps) simp

lemma dec_digits_chars: "c \<in> set (dec_digits n) \<Longrightarrow> 48 \<le> (of_char c :: nat) \<and> (of_char c :: nat) \<le> 57"
proof (induction n rule: dec_digits.induct)
  case (1 n)
  then show ?case by (cases "n < 10") (auto simp: dec_digits.simps [of n] split: if_splits)
qed

lemma ParseUint_FormatUint10 [simp]: "ParseUint10 (FormatUint10 v) = Inr v"
  using unsigned_less [of v, where 'a = nat] by (simp add: ParseUint10_def FormatUint10_def dec_value_digits)

lemma hd_dec_digits: "hd (dec_digits n) \<noteq> CHR ''-'' \<and> hd (dec_digits n) \<noteq> CHR ''+''"
  using dec_digits_chars [of "hd (dec_digits n)" n] by auto

lemma big_SetString_String [simp]: "big_SetString dec_value (big_String v) = Some v"
  using hd_dec_digits [of "nat v"] by (auto simp: big_SetString_def big_String_def Let_def dec_value_digits)

section \<open>Values\<close>

datatype json = JNull | JBool bool | JNum string | JStr string | JArr "json list" | JObj "(string \<times> json) list"

text \<open>
  \<open>js_spans\<close> gives the characters of one member where the code keeps them: for a request body, the
  text of the \<^verbatim>\<open>params\<close> of its \<open>i\<close>-th request, empty when there is none. \<open>js_first\<close> is what
  \<^verbatim>\<open>json.Decoder\<close> reads: the first value of a text, whatever follows it.
\<close>

record JsonText =
  js_print :: "json \<Rightarrow> bytes"
  js_parse :: "bytes \<Rightarrow> json option"
  js_spans :: "bytes \<Rightarrow> nat \<Rightarrow> bytes"
  js_first :: "bytes \<Rightarrow> json option"

text \<open>
  What is relied on of the two maps where a theorem needs them to agree. \<open>valid\<close> are the values that
  are read back as they were written (in Go, all but those with strings that are not UTF-8): whatever
  is parsed is such a value, its members are, and it is printed to some non-empty text.
\<close>

locale json_text =
  fixes T :: JsonText and valid :: "json \<Rightarrow> bool"
  assumes parse_valid: "js_parse T b = Some j \<Longrightarrow> valid j"
    and member_valid: "valid (JObj fs) \<Longrightarrow> (k, j) \<in> set fs \<Longrightarrow> valid j"
    and parse_print: "valid j \<Longrightarrow> js_parse T (js_print T j) = Some j"
    and print_nonempty: "valid j \<Longrightarrow> js_print T j \<noteq> []"

text \<open>
  The field of an object that a struct field of the given name takes: names match up to ASCII case,
  and the last occurrence wins.
\<close>

definition json_field :: "string \<Rightarrow> (string \<times> json) list \<Rightarrow> json option" where
  "json_field name fs = map_of (rev (map (\<lambda>(k, v). (strings_ToLower k, v)) fs)) (strings_ToLower name)"

definition type_err :: gerror where
  "type_err = OtherErr ''json: cannot unmarshal''"

text \<open>Targets of the types the gateway decodes into. Null leaves the zero value.\<close>

fun dec_string :: "json \<Rightarrow> gerror + string" where
  "dec_string (JStr s) = Inr s"
| "dec_string JNull = Inr []"
| "dec_string _ = Inl type_err"

fun dec_uint64 :: "json \<Rightarrow> gerror + u64" where
  "dec_uint64 (JNum s) = ParseUint10 s"
| "dec_uint64 JNull = Inr 0"
| "dec_uint64 _ = Inl type_err"

fun dec_int :: "json \<Rightarrow> gerror + int" where
  "dec_int (JNum s) = (case big_SetString dec_value s of
     Some v \<Rightarrow> if minInt64 \<le> v \<and> v \<le> maxInt64 then Inr v else Inl type_err
   | None \<Rightarrow> Inl type_err)"
| "dec_int JNull = Inr 0"
| "dec_int _ = Inl type_err"

text \<open>A list is decoded element by element.\<close>

fun emap :: "('a \<Rightarrow> gerror + 'b) \<Rightarrow> 'a list \<Rightarrow> gerror + 'b list" where
  "emap f [] = Inr []"
| "emap f (x # xs) = ebind (f x) (\<lambda>y. ebind (emap f xs) (\<lambda>ys. Inr (y # ys)))"

fun dec_list :: "(json \<Rightarrow> gerror + 'a) \<Rightarrow> json \<Rightarrow> gerror + 'a list" where
  "dec_list f (JArr js) = emap f js"
| "dec_list f JNull = Inr []"
| "dec_list f _ = Inl type_err"

text \<open>A pointer: null and absence are nil.\<close>

fun dec_ptr :: "(json \<Rightarrow> gerror + 'a) \<Rightarrow> json option \<Rightarrow> gerror + 'a option" where
  "dec_ptr f None = Inr None"
| "dec_ptr f (Some JNull) = Inr None"
| "dec_ptr f (Some j) = ebind (f j) (\<lambda>x. Inr (Some x))"

text \<open>An object's fields; null decodes to a struct of zero values.\<close>

fun dec_object :: "json \<Rightarrow> gerror + (string \<times> json) list" where
  "dec_object (JObj fs) = Inr fs"
| "dec_object JNull = Inr []"
| "dec_object _ = Inl type_err"

definition dec_field :: "string \<Rightarrow> (json \<Rightarrow> gerror + 'a) \<Rightarrow> (string \<times> json) list \<Rightarrow> gerror + 'a" where
  "dec_field name f fs = f (case json_field name fs of None \<Rightarrow> JNull | Some j \<Rightarrow> j)"

text \<open>\<^verbatim>\<open>DisallowUnknownFields\<close>.\<close>

definition only_fields :: "string list \<Rightarrow> (string \<times> json) list \<Rightarrow> gerror + (string \<times> json) list" where
  "only_fields names fs = (if (\<forall>(k, v) \<in> set fs. strings_ToLower k \<in> set (map strings_ToLower names)) then Inr fs
     else Inl (OtherErr ''json: unknown field''))"

lemma json_field_member: "json_field name fs = Some j \<Longrightarrow> \<exists>k. (k, j) \<in> set fs"
  by (auto simp: json_field_def dest!: map_of_SomeD)

lemma emap_ok: "(\<And>x. x \<in> set xs \<Longrightarrow> f x = Inr (g x)) \<Longrightarrow> emap f xs = Inr (map g xs)"
  by (induction xs) simp_all

end
