(* ===== verification/Jsonrpc.thy ===== *)
theory Jsonrpc
  imports Json
begin

text \<open>
  JSON-RPC 2.0 framing, \<^verbatim>\<open>internal/jsonrpc/jsonrpc.go\<close>, shared by the gateway's proxy and the
  simulated node: decoding a body into one request or a batch, dispatch to a handler, and the reply.
  The handler is a function on a state \<open>'e\<close>.
\<close>

section \<open>Messages\<close>

definition CodeParse :: int where "CodeParse = -32700"
definition CodeInvalidRequest :: int where "CodeInvalidRequest = -32600"
definition CodeMethodNotFound :: int where "CodeMethodNotFound = -32601"
definition CodeInvalidParams :: int where "CodeInvalidParams = -32602"
definition CodeInternal :: int where "CodeInternal = -32603"
definition CodeRateLimited :: int where "CodeRateLimited = -32005"
definition CodeUpstream :: int where "CodeUpstream = -32002"
definition MaxBatch :: nat where "MaxBatch = 100"

record Request =
  rq_JSONRPC :: string
  rq_Method :: string
  rq_Params :: "json option"
  rq_ParamsText :: bytes
  rq_ID :: "json option"

record Error =
  er_Code :: int
  er_Message :: string

record Response =
  rp_JSONRPC :: string
  rp_Result :: "json option"
  rp_Error :: "Error option"
  rp_ID :: json

type_synonym 'e Handler = "Request \<Rightarrow> 'e \<Rightarrow> Response \<times> 'e"

definition normID :: "json option \<Rightarrow> json" where
  "normID i = (case i of None \<Rightarrow> JNull | Some j \<Rightarrow> j)"

definition Fail :: "json option \<Rightarrow> int \<Rightarrow> string \<Rightarrow> Response" where
  "Fail i code m = \<lparr>rp_JSONRPC = ''2.0'', rp_Result = None, rp_Error = Some \<lparr>er_Code = code, er_Message = m\<rparr>,
     rp_ID = normID i\<rparr>"

text \<open>\<^verbatim>\<open>OK\<close> on a value that marshals, as every value the gateway and the node pass does.\<close>

definition OK :: "json option \<Rightarrow> json \<Rightarrow> Response" where
  "OK i v = \<lparr>rp_JSONRPC = ''2.0'', rp_Result = Some v, rp_Error = None, rp_ID = normID i\<rparr>"

section \<open>Decoding\<close>

text \<open>\<^verbatim>\<open>bytes.TrimSpace\<close>: the UTF-8 encodings of Unicode's white space.\<close>

definition space_encodings :: "bytes list" where
  "space_encodings = map (\<lambda>b. [b]) [9, 10, 11, 12, 13, 32] @ [[0xC2, 0x85], [0xC2, 0xA0], [0xE1, 0x9A, 0x80]] @
     map (\<lambda>b. [0xE2, 0x80, b]) [0x80, 0x81, 0x82, 0x83, 0x84, 0x85, 0x86, 0x87, 0x88, 0x89, 0x8A, 0xA8, 0xA9, 0xAF] @
     [[0xE2, 0x81, 0x9F], [0xE3, 0x80, 0x80]]"

definition starts_with :: "bytes \<Rightarrow> bytes \<Rightarrow> bool" where
  "starts_with b p \<longleftrightarrow> take (length p) b = p"

lemma space_encodings_pos: "p \<in> set space_encodings \<Longrightarrow> 0 < length p"
  by (auto simp: space_encodings_def)

lemma trim_shrinks:
  assumes "find (starts_with b) ps = Some p" and "\<forall>p \<in> set ps. 0 < length p"
  shows "length (drop (length p) b) < length b"
proof -
  from assms(1) have "p \<in> set ps" "take (length p) b = p"
    by (auto simp: find_Some_iff starts_with_def)
  moreover from this have "length p \<le> length b" by (metis length_take min.cobounded1)
  moreover from calculation(1) assms(2) have "0 < length p" by blast
  ultimately show ?thesis unfolding length_drop by linarith
qed

function trim_prefixes :: "bytes list \<Rightarrow> bytes \<Rightarrow> bytes" where
  "trim_prefixes ps b = (case find (starts_with b) (filter (\<lambda>p. 0 < length p) ps) of
     None \<Rightarrow> b
   | Some p \<Rightarrow> trim_prefixes ps (drop (length p) b))"
  by auto
termination by (relation "measure (\<lambda>(ps, b). length b)") (auto dest!: trim_shrinks)

declare trim_prefixes.simps [simp del]

definition bytes_TrimSpace :: "bytes \<Rightarrow> bytes" where
  "bytes_TrimSpace b = rev (trim_prefixes (map rev space_encodings) (rev (trim_prefixes space_encodings b)))"

text \<open>A request keeps its parameters as a raw message: their value and their text.\<close>

definition dec_request :: "bytes \<Rightarrow> json \<Rightarrow> gerror + Request" where
  "dec_request txt j = ebind (dec_object j) (\<lambda>fs.
     ebind (dec_field ''jsonrpc'' dec_string fs) (\<lambda>v.
     ebind (dec_field ''method'' dec_string fs) (\<lambda>m.
     Inr \<lparr>rq_JSONRPC = v, rq_Method = m, rq_Params = json_field ''params'' fs, rq_ParamsText = txt, rq_ID = json_field ''id'' fs\<rparr>)))"

definition Decode :: "JsonText \<Rightarrow> bytes \<Rightarrow> Error + (Request list \<times> bool)" where
  "Decode T body =
     (let t = bytes_TrimSpace body in
      if t = [] then Inl \<lparr>er_Code = CodeInvalidRequest, er_Message = ''empty body''\<rparr>
      else if hd t = 0x5B then
        (case js_parse T t of
           Some (JArr js) \<Rightarrow>
             (case emap (\<lambda>(i, j). dec_request (js_spans T t i) j) (enumerate 0 js) of
                Inl err \<Rightarrow> Inl \<lparr>er_Code = CodeParse, er_Message = ''parse error''\<rparr>
              | Inr reqs \<Rightarrow>
                  if reqs = [] then Inl \<lparr>er_Code = CodeInvalidRequest, er_Message = ''empty batch''\<rparr>
                  else if length reqs > MaxBatch
                  then Inl \<lparr>er_Code = CodeInvalidRequest, er_Message = ''batch too large''\<rparr>
                  else Inr (reqs, True))
         | _ \<Rightarrow> Inl \<lparr>er_Code = CodeParse, er_Message = ''parse error''\<rparr>)
      else
        (case js_parse T t of
           None \<Rightarrow> Inl \<lparr>er_Code = CodeParse, er_Message = ''parse error''\<rparr>
         | Some j \<Rightarrow>
             (case dec_request (js_spans T t 0) j of
                Inl err \<Rightarrow> Inl \<lparr>er_Code = CodeParse, er_Message = ''parse error''\<rparr>
              | Inr r \<Rightarrow> Inr ([r], False))))"

section \<open>Serving\<close>

definition json_response :: "Response \<Rightarrow> json" where
  "json_response p = JObj ([(''jsonrpc'', JStr (rp_JSONRPC p))] @
     (case rp_Result p of None \<Rightarrow> [] | Some v \<Rightarrow> [(''result'', v)]) @
     (case rp_Error p of None \<Rightarrow> [] | Some er \<Rightarrow>
        [(''error'', JObj [(''code'', JNum (big_String (er_Code er))), (''message'', JStr (er_Message er))])]) @
     [(''id'', rp_ID p)])"

text \<open>The dispatch loop: invalid requests are answered without the handler.\<close>

fun serve_loop :: "'e Handler \<Rightarrow> Request list \<Rightarrow> 'e \<Rightarrow> Response list \<times> 'e" where
  "serve_loop h [] e = ([], e)"
| "serve_loop h (q # qs) e =
     (case (if rq_JSONRPC q \<noteq> ''2.0'' \<or> rq_Method q = [] then (Fail (rq_ID q) CodeInvalidRequest ''invalid request'', e)
            else h q e) of
        (p, e1) \<Rightarrow> (case serve_loop h qs e1 of (ps, e2) \<Rightarrow> (p # ps, e2)))"

text \<open>\<^verbatim>\<open>http.MaxBytesReader\<close> of a mebibyte; the request body is its bytes and a read error.\<close>

definition read_body :: "nat \<Rightarrow> bytes \<times> gerror option \<Rightarrow> bytes option" where
  "read_body n body = (if length (fst body) > n \<or> snd body \<noteq> None then None else Some (fst body))"

definition Serve_reply :: "JsonText \<Rightarrow> bytes \<times> gerror option \<Rightarrow> 'e Handler \<Rightarrow> 'e \<Rightarrow> json \<times> 'e" where
  "Serve_reply T body h e = (case read_body (2 ^ 20) body of
     None \<Rightarrow> (json_response (Fail None CodeInvalidRequest ''body too large''), e)
   | Some b \<Rightarrow> (case Decode T b of
       Inl derr \<Rightarrow> (json_response (Fail None (er_Code derr) (er_Message derr)), e)
     | Inr (reqs, batch) \<Rightarrow> (case serve_loop h reqs e of (out, e') \<Rightarrow>
         (if batch then JArr (map json_response out) else json_response (out ! 0), e'))))"

text \<open>\<^verbatim>\<open>json.Encoder.Encode\<close> ends the text with a newline.\<close>

definition Serve :: "JsonText \<Rightarrow> bytes \<times> gerror option \<Rightarrow> 'e Handler \<Rightarrow> 'e \<Rightarrow> bytes \<times> 'e" where
  "Serve T body h e = (case Serve_reply T body h e of (j, e') \<Rightarrow> (js_print T j @ [10], e'))"

section \<open>Lemmas\<close>

lemma length_serve_loop: "length (fst (serve_loop h qs e)) = length qs"
  by (induction qs arbitrary: e) (simp_all add: split_beta)

lemma Decode_bounds:
  "Decode T body = Inr (reqs, batch) \<Longrightarrow> 0 < length reqs \<and> length reqs \<le> MaxBatch \<and> (\<not> batch \<longrightarrow> length reqs = 1)"
  by (auto simp: Decode_def Let_def MaxBatch_def not_less split: if_splits option.splits json.splits sum.splits)

text \<open>If the handler answers every request under the request's own id, so does the loop.\<close>

lemma serve_loop_ids:
  assumes "\<And>q e. rp_ID (fst (h q e)) = normID (rq_ID q)"
  shows "map rp_ID (fst (serve_loop h qs e)) = map (\<lambda>q. normID (rq_ID q)) qs"
  by (induction qs arbitrary: e) (simp_all add: split_beta assms Fail_def)

lemma serve_loop_preserves:
  assumes "\<And>q e. P e \<Longrightarrow> P (snd (h q e))" and "P e"
  shows "P (snd (serve_loop h qs e))"
  using assms(2) by (induction qs arbitrary: e) (simp_all add: split_beta assms(1))

end
