(* ===== verification/Http.thy ===== *)
theory Http
  imports Prelude
begin

text \<open>
  What the gateway uses of \<^verbatim>\<open>net/http\<close> and \<^verbatim>\<open>io\<close>: requests and responses, a client whose
  \<^verbatim>\<open>Do\<close> is a parameter (the network is outside the program), and a bounded body read. The world a
  request changes is the type variable \<open>'e\<close>; the clock is a function of it.
\<close>

record HttpReq =
  rq_method :: string
  rq_url :: string
  rq_header :: "(string \<times> string) list"
  rq_body :: bytes

text \<open>A response body is the bytes it delivers and the error the read ends with, if any.\<close>

record HttpResp =
  rs_status :: int
  rs_header :: "string \<Rightarrow> string"
  rs_trailer :: "string \<Rightarrow> string"
  rs_body :: "bytes \<times> gerror option"

text \<open>
  \<open>hc_newreq\<close> is the verdict of \<^verbatim>\<open>http.NewRequestWithContext\<close> on a URL, \<open>hc_do\<close> is
  \<^verbatim>\<open>Doer.Do\<close>, and \<open>hc_now\<close> reads the clock.
\<close>

record 'e HttpClient =
  hc_newreq :: "string \<Rightarrow> gerror option"
  hc_do :: "HttpReq \<Rightarrow> 'e \<Rightarrow> (gerror + HttpResp) \<times> 'e"
  hc_now :: "'e \<Rightarrow> time"

text \<open>\<^verbatim>\<open>io.ReadAll(io.LimitReader(body, n))\<close>: at most \<open>n\<close> bytes, an error only if it comes first.\<close>

definition read_limited :: "nat \<Rightarrow> bytes \<times> gerror option \<Rightarrow> gerror + bytes" where
  "read_limited n body = (case body of (bs, err) \<Rightarrow>
     if n \<le> length bs then Inr (take n bs)
     else (case err of None \<Rightarrow> Inr bs | Some x \<Rightarrow> Inl x))"

lemma read_limited_length: "read_limited n body = Inr out \<Longrightarrow> length out \<le> n"
  by (auto simp: read_limited_def split: prod.splits if_splits option.splits)

lemma read_limited_prefix: "read_limited n (bs, err) = Inr out \<Longrightarrow> out = take n bs"
  by (auto simp: read_limited_def split: if_splits option.splits)

end
