(* ===== verification/Pbwire.thy ===== *)
theory Pbwire
  imports Prelude
begin

text \<open>
  The protobuf wire codec of \<^verbatim>\<open>internal/pbwire/pbwire.go\<close>: \<^verbatim>\<open>Buf\<close> appends varint and
  length-delimited fields to a buffer, \<^verbatim>\<open>Reader\<close> takes fields off the front of one. A \<^verbatim>\<open>Buf\<close> and a
  \<^verbatim>\<open>Reader\<close> are their byte slices here. \<open>pb_fold\<close> is the loop every decoder of the gateway runs
  over \<^verbatim>\<open>Next\<close>.

  The main lemma is the round trip: a decoder loop over what was written sees exactly the fields
  that were written, in order, with proto3's omission of zero values.
\<close>

section \<open>Writing\<close>

definition Varint :: int where "Varint = 0"
definition Fixed64 :: int where "Fixed64 = 1"
definition Bytes :: int where "Bytes = 2"
definition Fixed32 :: int where "Fixed32 = 5"

lemmas wire_types = Varint_def Fixed64_def Bytes_def Fixed32_def

type_synonym Buf = bytes

lemma drop_bit_less: "0x80 \<le> (v :: u64) \<Longrightarrow> unat (drop_bit 7 v) < unat v"
  by (simp add: drop_bit_eq_div unat_div word_le_nat_alt)

function Buf_varint :: "u64 \<Rightarrow> Buf \<Rightarrow> Buf" where
  "Buf_varint v w = (if v \<ge> 0x80 then Buf_varint (drop_bit 7 v) (w @ [ucast v OR 0x80]) else w @ [ucast v])"
  by auto
termination by (relation "measure (\<lambda>(v, w). unat v)") (auto intro: drop_bit_less)

declare Buf_varint.simps [simp del]

definition Buf_Uint :: "int \<Rightarrow> u64 \<Rightarrow> Buf \<Rightarrow> Buf" where
  "Buf_Uint field v w =
     (if v = 0 then w
      else Buf_varint v (Buf_varint (push_bit 3 (word_of_int field) OR word_of_int Varint) w))"

definition Buf_RawAlways :: "int \<Rightarrow> bytes \<Rightarrow> Buf \<Rightarrow> Buf" where
  "Buf_RawAlways field v w =
     Buf_varint (word_of_nat (length v)) (Buf_varint (push_bit 3 (word_of_int field) OR word_of_int Bytes) w) @ v"

definition Buf_Raw :: "int \<Rightarrow> bytes \<Rightarrow> Buf \<Rightarrow> Buf" where
  "Buf_Raw field v w = (if length v = 0 then w else Buf_RawAlways field v w)"

section \<open>Reading\<close>

type_synonym Reader = bytes

text \<open>The loop of \<^verbatim>\<open>Reader.varint\<close>: at most ten bytes, little-endian groups of seven bits.\<close>

fun Reader_varint :: "nat \<Rightarrow> u64 \<Rightarrow> Reader \<Rightarrow> (gerror + u64) \<times> Reader" where
  "Reader_varint shift v [] = (Inl ErrTruncated, [])"
| "Reader_varint shift v (c # b) =
     (if shift < 64 then
        let v' = v OR push_bit shift (ucast (c AND 0x7f)) in
        if c < 0x80 then (Inr v', b) else Reader_varint (shift + 7) v' b
      else (Inl ErrTruncated, c # b))"

record Field =
  fd_Num :: int
  fd_Wire :: int
  fd_Uint :: u64
  fd_Raw :: bytes

lemma Reader_varint_length: "length (snd (Reader_varint s v b)) \<le> length b"
  by (induction s v b rule: Reader_varint.induct) (auto simp: Let_def)

lemma Reader_varint_shrinks:
  assumes "b \<noteq> []" and "Reader_varint 0 v b = (r, b')"
  shows "length b' < length b"
proof -
  obtain c cs where b: "b = c # cs" using assms(1) by (cases b) auto
  have "length (snd (Reader_varint 7 u cs)) < length b" for u
    using Reader_varint_length [of 7 u cs] b by simp
  with assms(2) b show ?thesis by (auto simp: Let_def split: if_splits) (metis snd_conv)
qed

text \<open>\<^verbatim>\<open>b[n:]\<close>, which panics if \<open>n\<close> is past the end.\<close>

definition go_from :: "nat \<Rightarrow> bytes \<Rightarrow> gerror + bytes" where
  "go_from n b = (if n \<le> length b then Inr (drop n b) else Inl (RuntimeError ''slice bounds out of range''))"

lemma go_from_simps [simp]:
  "n \<le> length b \<Longrightarrow> go_from n b = Inr (drop n b)"
  "go_from n b = Inr b' \<longleftrightarrow> n \<le> length b \<and> b' = drop n b"
  by (auto simp: go_from_def)

text \<open>One turn of the loop of \<^verbatim>\<open>Next\<close>: a field, or nothing after skipping a fixed-width one.\<close>

definition next_body :: "Reader \<Rightarrow> (gerror + Field option) \<times> Reader" where
  "next_body r = (case Reader_varint 0 0 r of
     (Inl err, b) \<Rightarrow> (Inl err, b)
   | (Inr tag, b) \<Rightarrow>
       let f = \<lparr>fd_Num = uint (drop_bit 3 tag), fd_Wire = uint (tag AND 7), fd_Uint = 0, fd_Raw = []\<rparr> in
       if fd_Wire f = Varint then
         (case Reader_varint 0 0 b of
            (Inl err, b1) \<Rightarrow> (Inl err, b1)
          | (Inr u, b1) \<Rightarrow> (Inr (Some (f\<lparr>fd_Uint := u\<rparr>)), b1))
       else if fd_Wire f = Bytes then
         (case Reader_varint 0 0 b of
            (Inl err, b1) \<Rightarrow> (Inl ErrTruncated, b1)
          | (Inr n, b1) \<Rightarrow>
              if unat n > length b1 \<or> unat n > 2 ^ 31 - 1 then (Inl ErrTruncated, b1)
              else (case go_from (unat n) b1 of
                      Inl panic \<Rightarrow> (Inl panic, b1)
                    | Inr rest \<Rightarrow> (Inr (Some (f\<lparr>fd_Raw := take (unat n) b1\<rparr>)), rest)))
       else if fd_Wire f = Fixed64 \<or> fd_Wire f = Fixed32 then
         (let n = (if fd_Wire f = Fixed32 then 4 else 8) in
          if length b < n then (Inl ErrTruncated, b)
          else (case go_from n b of Inl panic \<Rightarrow> (Inl panic, b) | Inr rest \<Rightarrow> (Inr None, rest)))
       else (Inl ErrTruncated, b))"

lemma next_body_shrinks:
  assumes "r \<noteq> []" and "next_body r = (x, b')"
  shows "length b' < length r"
proof -
  obtain t b where tag: "Reader_varint 0 0 r = (t, b)" by fastforce
  obtain u b1 where val: "Reader_varint 0 0 b = (u, b1)" by fastforce
  have "length b < length r" "length b1 \<le> length b"
    using Reader_varint_shrinks [OF assms(1) tag] Reader_varint_length [of 0 0 b] val by auto
  with assms(2) show ?thesis
    unfolding next_body_def tag by (auto simp: val Let_def split: sum.splits if_splits)
qed

function Reader_Next :: "Reader \<Rightarrow> (gerror + Field option) \<times> Reader" where
  "Reader_Next b = (if b = [] then (Inr None, b) else
     (case next_body b of
        (Inl err, b') \<Rightarrow> (Inl err, b')
      | (Inr (Some f), b') \<Rightarrow> (Inr (Some f), b')
      | (Inr None, b') \<Rightarrow> Reader_Next b'))"
  by auto
termination by (relation "measure length") (auto dest: next_body_shrinks [OF _ sym])

declare Reader_Next.simps [simp del]

lemma Reader_Next_shrinks:
  "Reader_Next b = (Inr (Some f), b') \<Longrightarrow> length b' < length b"
proof (induction b rule: Reader_Next.induct)
  case (1 b)
  then have ne: "b \<noteq> []" by (auto simp: Reader_Next.simps [of b])
  obtain x b0 where body: "next_body b = (x, b0)" by fastforce
  have "length b0 < length b" by (rule next_body_shrinks [OF ne body])
  moreover have "length b' < length b0" if "x = Inr None"
    using that "1.IH" [OF ne body [symmetric]] "1.prems" ne body by (simp add: Reader_Next.simps [of b])
  ultimately show ?case
    using "1.prems" ne body by (auto simp: Reader_Next.simps [of b] split: sum.splits option.splits)
qed

text \<open>
  The loop \<^verbatim>\<open>for { f, ok, err := r.Next(); ... }\<close> around a switch on the field. A decoder that fails
  returns its partial result too, which no caller looks at.
\<close>

function pb_fold :: "(Field \<Rightarrow> 's \<Rightarrow> gerror + 's) \<Rightarrow> Reader \<Rightarrow> 's \<Rightarrow> gerror + 's" where
  "pb_fold step b s = (case Reader_Next b of
     (Inl err, b') \<Rightarrow> Inl err
   | (Inr None, b') \<Rightarrow> Inr s
   | (Inr (Some f), b') \<Rightarrow> (case step f s of Inl err \<Rightarrow> Inl err | Inr s' \<Rightarrow> pb_fold step b' s'))"
  by auto
termination by (relation "measure (\<lambda>(step, b, s). length b)") (auto dest: Reader_Next_shrinks [OF sym])

declare pb_fold.simps [simp del]

section \<open>The round trip\<close>

lemma Buf_varint_append: "Buf_varint v (w @ w') = w @ Buf_varint v w'"
proof (induction v w' rule: Buf_varint.induct)
  case (1 v w')
  then show ?case by (simp add: Buf_varint.simps [of v])
qed

lemma Buf_varint_eq: "Buf_varint v w = w @ Buf_varint v []"
  using Buf_varint_append [of v w "[]"] by simp

lemma bit_0x7f: "bit (0x7f :: byte) k \<longleftrightarrow> k < 7"
  using bit_mask_iff [where 'a = byte, of 7 k] by (auto simp: mask_eq_exp_minus_1)

lemma bit_0x80: "bit (0x80 :: byte) k \<longleftrightarrow> k = 7"
  using bit_exp_iff [where 'a = byte, of 7 k] by auto

lemma small_no_bit:
  assumes "v < (0x80 :: 'a::len word)" and "7 < LENGTH('a)"
  shows "\<not> bit v (n + 7)"
proof -
  have "drop_bit 7 v = 0" using assms by (simp add: drop_bit_eq_div div_word_less)
  then have "drop_bit (n + 7) v = 0" by (metis drop_bit_drop_bit drop_bit_0 add.commute drop_bit_of_0)
  then show ?thesis by (simp add: bit_iff_odd_drop_bit)
qed

lemma varint_group:
  "(push_bit s (ucast (((ucast v :: byte) OR 0x80) AND 0x7f)) :: u64) OR push_bit (s + 7) (drop_bit 7 v) = push_bit s v"
  for v :: u64
proof (rule bit_word_eqI)
  fix n assume "n < LENGTH(64)"
  show "bit ((push_bit s (ucast (((ucast v :: byte) OR 0x80) AND 0x7f)) :: u64) OR push_bit (s + 7) (drop_bit 7 v)) n =
      bit (push_bit s v) n"
  proof (cases "s + 7 \<le> n")
    case True
    then obtain m where "n = s + 7 + m" by (auto simp: le_iff_add)
    with \<open>n < LENGTH(64)\<close> show ?thesis
      by (auto simp: bit_simps bit_0x7f bit_0x80 simp del: bit_numeral_word_iff)
  next
    case False
    with \<open>n < LENGTH(64)\<close> show ?thesis
      by (auto simp: bit_simps bit_0x7f bit_0x80 simp del: bit_numeral_word_iff)
  qed
qed

lemma varint_more: "\<not> ((c :: byte) OR 0x80) < 0x80"
  using small_no_bit [of "c OR 0x80" 0] by (auto simp: bit_simps bit_0x80)

lemma varint_last:
  assumes "v < (0x80 :: u64)"
  shows "(ucast ((ucast v :: byte) AND 0x7f) :: u64) = v" and "(ucast v :: byte) < 0x80"
proof -
  have hi: "\<not> bit v n" if "7 \<le> n" for n
    using small_no_bit [OF assms, of "n - 7"] that by simp
  show "(ucast ((ucast v :: byte) AND 0x7f) :: u64) = v"
    by (rule bit_word_eqI) (use hi in \<open>auto simp: bit_simps bit_0x7f not_le [symmetric] simp del: bit_numeral_word_iff\<close>)
  show "(ucast v :: byte) < 0x80"
    using assms by (simp add: word_less_nat_alt unsigned_ucast_eq unsigned_take_bit_eq take_bit_eq_mod)
qed

lemma Reader_varint_Buf_varint:
  assumes "s < 64" and "unat v < 2 ^ (64 - s)"
  shows "Reader_varint s a (Buf_varint v [] @ rest) = (Inr (a OR push_bit s v), rest)"
  using assms
proof (induction "unat v" arbitrary: v s a rule: less_induct)
  case less
  show ?case
  proof (cases "v \<ge> 0x80")
    case True
    have "\<not> 64 - s \<le> 7"
    proof
      assume "64 - s \<le> 7"
      then have "(2::nat) ^ (64 - s) \<le> 2 ^ 7" by (rule power_increasing) simp
      with less.prems True show False by (simp add: word_le_nat_alt)
    qed
    then have s: "s + 7 < 64" by simp
    have "(2::nat) ^ (64 - s) = 2 ^ 7 * 2 ^ (64 - (s + 7))"
      using s by (subst power_add [symmetric]) (simp del: power_add)
    then have "unat (drop_bit 7 v) < 2 ^ (64 - (s + 7))"
      using less.prems by (simp add: drop_bit_eq_div unat_div less_mult_imp_div_less mult.commute)
    from less.hyps [OF drop_bit_less [OF True] s this] True less.prems varint_group [of s v]
    show ?thesis
      using Buf_varint_append [of "drop_bit 7 v" "[ucast v OR 0x80]" "[]"] varint_more [of "ucast v"]
      by (simp add: Buf_varint.simps [of v] Let_def or.assoc)
  next
    case False
    then have "v < 0x80" by simp
    from less.prems False varint_last [OF this] show ?thesis
      by (simp add: Buf_varint.simps [of v] Let_def del: not_le)
  qed
qed

corollary varint_roundtrip: "Reader_varint 0 0 (Buf_varint v [] @ rest) = (Inr v, rest)"
  using Reader_varint_Buf_varint [of 0 v 0 rest] unsigned_less [of v] by simp

text \<open>A varint has at most ten bytes.\<close>

lemma length_Buf_varint: "unat v < 128 ^ Suc k \<Longrightarrow> length (Buf_varint v []) \<le> Suc k"
proof (induction k arbitrary: v)
  case 0
  then show ?case by (simp add: Buf_varint.simps [of v] word_le_nat_alt)
next
  case (Suc k)
  have "unat (drop_bit 7 v) < 128 ^ Suc k"
    using Suc.prems by (simp add: drop_bit_eq_div unat_div less_mult_imp_div_less mult.commute)
  from Suc.IH [OF this] show ?case
    using Buf_varint_append [of "drop_bit 7 v" "[ucast v OR 0x80]" "[]"] by (simp add: Buf_varint.simps [of v])
qed

lemma length_varint_le: "length (Buf_varint v []) \<le> 10"
proof -
  have "unat v < 2 ^ 64" using unsigned_less [of v] by simp
  then have "unat v < 128 ^ Suc 9" by (rule order_less_le_trans) simp
  from length_Buf_varint [OF this] show ?thesis by simp
qed

text \<open>A tag is eight times the field number, plus the wire type.\<close>

lemma field_tag:
  assumes "0 \<le> n" and "n < 2 ^ 61" and "w = Varint \<or> w = Bytes"
  shows "uint (drop_bit 3 (push_bit 3 (word_of_int n) OR word_of_int w :: u64)) = n"
    and "uint ((push_bit 3 (word_of_int n) OR word_of_int w :: u64) AND 7) = w"
proof -
  have "push_bit 3 n OR w = push_bit 3 n + w"
    by (rule disjunctive_add [symmetric]) (use assms(3) in \<open>auto simp: bit_simps wire_types bit_2_iff\<close>)
  then have "(push_bit 3 (word_of_int n) OR word_of_int w :: u64) = word_of_int (8 * n + w)"
    by (transfer) (simp add: push_bit_eq_mult mult.commute)
  moreover have "uint (word_of_int (8 * n + w) :: u64) = 8 * n + w"
    unfolding uint_word_of_int_eq by (rule take_bit_int_eq_self) (use assms in \<open>auto simp: wire_types\<close>)
  ultimately have tag: "uint (push_bit 3 (word_of_int n) OR word_of_int w :: u64) = 8 * n + w" by simp
  have w: "0 \<le> w" "w < 8" using assms(3) by (auto simp: wire_types)
  show "uint (drop_bit 3 (push_bit 3 (word_of_int n) OR word_of_int w :: u64)) = n"
    unfolding unsigned_drop_bit_eq tag using w assms
    by (simp add: drop_bit_eq_div take_bit_int_eq_self)
  show "uint ((push_bit 3 (word_of_int n) OR word_of_int w :: u64) AND 7) = w"
  proof -
    have "(8 * n + w) AND 7 = take_bit 3 (8 * n + w)" by (simp add: take_bit_eq_mask mask_eq_exp_minus_1)
    with w have "(8 * n + w) AND 7 = w" by (simp add: take_bit_eq_mod)
    then show ?thesis unfolding unsigned_and_eq tag by simp
  qed
qed

text \<open>What one field writes, as a value.\<close>

datatype wire_field = WUint int u64 | WRaw int bytes

fun wire_bytes :: "wire_field \<Rightarrow> bytes" where
  "wire_bytes (WUint n v) = Buf_varint v (Buf_varint (push_bit 3 (word_of_int n) OR word_of_int Varint) [])"
| "wire_bytes (WRaw n b) = Buf_RawAlways n b []"

fun wire_view :: "wire_field \<Rightarrow> Field" where
  "wire_view (WUint n v) = \<lparr>fd_Num = n, fd_Wire = Varint, fd_Uint = v, fd_Raw = []\<rparr>"
| "wire_view (WRaw n b) = \<lparr>fd_Num = n, fd_Wire = Bytes, fd_Uint = 0, fd_Raw = b\<rparr>"

fun wire_ok :: "wire_field \<Rightarrow> bool" where
  "wire_ok (WUint n v) \<longleftrightarrow> 0 \<le> n \<and> n < 2 ^ 61"
| "wire_ok (WRaw n b) \<longleftrightarrow> 0 \<le> n \<and> n < 2 ^ 61 \<and> length b < 2 ^ 31"

text \<open>The omission of zero values.\<close>

definition uint_field :: "int \<Rightarrow> u64 \<Rightarrow> wire_field list" where
  "uint_field n v = (if v = 0 then [] else [WUint n v])"

definition raw_field :: "int \<Rightarrow> bytes \<Rightarrow> wire_field list" where
  "raw_field n b = (if b = [] then [] else [WRaw n b])"

definition wire_msg :: "wire_field list \<Rightarrow> bytes" where
  "wire_msg fs = concat (map wire_bytes fs)"

lemma wire_msg_append [simp]: "wire_msg (fs @ gs) = wire_msg fs @ wire_msg gs"
  by (simp add: wire_msg_def)

lemma wire_msg_Nil [simp]: "wire_msg [] = []" by (simp add: wire_msg_def)

lemma wire_msg_Cons: "wire_msg (f # fs) = wire_bytes f @ wire_msg fs" by (simp add: wire_msg_def)

lemma Buf_Uint_msg: "Buf_Uint n v (wire_msg fs) = wire_msg (fs @ uint_field n v)"
  unfolding Buf_Uint_def uint_field_def
  by (simp add: wire_msg_Cons Buf_varint_append [symmetric])

lemma Buf_RawAlways_msg: "Buf_RawAlways n b (wire_msg fs) = wire_msg (fs @ [WRaw n b])"
  unfolding Buf_RawAlways_def
  by (simp add: wire_msg_Cons Buf_RawAlways_def Buf_varint_append [symmetric])

lemma Buf_Raw_msg: "Buf_Raw n b (wire_msg fs) = wire_msg (fs @ raw_field n b)"
  by (simp add: Buf_Raw_def raw_field_def Buf_RawAlways_msg)

lemma length_wire_bytes: "length (wire_bytes f) \<le> 20 + (case f of WUint n v \<Rightarrow> 0 | WRaw n b \<Rightarrow> length b)"
proof -
  have "length (Buf_varint v (Buf_varint u [])) \<le> 20" for u v
    using length_varint_le [of u] length_varint_le [of v] Buf_varint_eq [of v "Buf_varint u []"] by simp
  then show ?thesis by (cases f) (simp_all add: Buf_RawAlways_def)
qed

lemma length_wire_msg_le:
  "length (wire_msg fs) \<le> (\<Sum>f\<leftarrow>fs. 20 + (case f of WUint n v \<Rightarrow> 0 | WRaw n b \<Rightarrow> length b))"
  by (induction fs) (auto simp: wire_msg_Cons intro!: add_mono length_wire_bytes)

lemma Buf_varint_nonempty: "Buf_varint v w \<noteq> []"
  by (induction v w rule: Buf_varint.induct) (subst Buf_varint.simps, simp)

lemma next_body_field:
  assumes "wire_ok f"
  shows "next_body (wire_bytes f @ rest) = (Inr (Some (wire_view f)), rest)"
proof (cases f)
  case (WUint n v)
  let ?tag = "push_bit 3 (word_of_int n) OR word_of_int Varint :: u64"
  have "wire_bytes f @ rest = Buf_varint ?tag [] @ Buf_varint v [] @ rest"
    using WUint Buf_varint_eq [of v "Buf_varint ?tag []"] by simp
  moreover have "uint (drop_bit 3 ?tag) = n" "uint (?tag AND 7) = Varint"
    using field_tag [of n Varint] assms WUint by simp_all
  ultimately show ?thesis using WUint by (simp only: next_body_def varint_roundtrip) (simp add: varint_roundtrip)
next
  case (WRaw n b)
  let ?tag = "push_bit 3 (word_of_int n) OR word_of_int Bytes :: u64" and ?n = "word_of_nat (length b) :: u64"
  have "wire_bytes f @ rest = Buf_varint ?tag [] @ Buf_varint ?n [] @ b @ rest"
    using WRaw Buf_varint_eq [of ?n "Buf_varint ?tag []"] by (simp add: Buf_RawAlways_def)
  moreover have "uint (drop_bit 3 ?tag) = n" "uint (?tag AND 7) = Bytes"
    using field_tag [of n Bytes] assms WRaw by simp_all
  moreover have "unat ?n = length b" using assms WRaw by (simp add: unat_of_nat)
  moreover have "Bytes \<noteq> Varint" by (simp add: wire_types)
  ultimately show ?thesis using WRaw assms
    by (simp only: next_body_def varint_roundtrip) (simp add: varint_roundtrip)
qed

lemma Reader_Next_field:
  assumes "wire_ok f"
  shows "Reader_Next (wire_bytes f @ rest) = (Inr (Some (wire_view f)), rest)"
proof -
  have "wire_bytes f \<noteq> []" by (cases f) (simp_all add: Buf_varint_nonempty Buf_RawAlways_def)
  then show ?thesis using next_body_field [OF assms] by (simp add: Reader_Next.simps)
qed

lemma Reader_Next_Nil [simp]: "Reader_Next [] = (Inr None, [])"
  by (simp add: Reader_Next.simps)

section \<open>The contract decoders rely on\<close>

text \<open>A decoder's switch, run over a list of fields.\<close>

fun run_fields :: "('f \<Rightarrow> 's \<Rightarrow> gerror + 's) \<Rightarrow> 'f list \<Rightarrow> 's \<Rightarrow> gerror + 's" where
  "run_fields step [] s = Inr s"
| "run_fields step (f # fs) s = (case step f s of Inl err \<Rightarrow> Inl err | Inr s' \<Rightarrow> run_fields step fs s')"

lemma run_fields_append:
  "run_fields step (fs @ gs) s = (case run_fields step fs s of Inl err \<Rightarrow> Inl err | Inr s' \<Rightarrow> run_fields step gs s')"
  by (induction fs arbitrary: s) (auto split: sum.split)

lemma run_fields_seq:
  "run_fields step fs s = Inr s' \<Longrightarrow> run_fields step gs s' = r \<Longrightarrow> run_fields step (fs @ gs) s = r"
  by (simp add: run_fields_append)

text \<open>An omitted field does not matter to a step that would store the zero value again.\<close>

lemma run_uint_field:
  "step \<lparr>fd_Num = n, fd_Wire = Varint, fd_Uint = v, fd_Raw = []\<rparr> s = Inr s' \<Longrightarrow> (v = 0 \<Longrightarrow> s' = s) \<Longrightarrow>
   run_fields step (map wire_view (uint_field n v)) s = Inr s'"
  by (auto simp: uint_field_def)

lemma run_raw_field:
  "step \<lparr>fd_Num = n, fd_Wire = Bytes, fd_Uint = 0, fd_Raw = b\<rparr> s = Inr s' \<Longrightarrow> (b = [] \<Longrightarrow> s' = s) \<Longrightarrow>
   run_fields step (map wire_view (raw_field n b)) s = Inr s'"
  by (auto simp: raw_field_def)

text \<open>A repeated field.\<close>

lemma run_repeated:
  "(\<And>x s. x \<in> set xs \<Longrightarrow> step \<lparr>fd_Num = n, fd_Wire = Bytes, fd_Uint = 0, fd_Raw = enc x\<rparr> s = Inr (upd x s)) \<Longrightarrow>
   run_fields step (map wire_view (map (\<lambda>x. WRaw n (enc x)) xs)) s = Inr (fold upd xs s)"
  by (induction xs arbitrary: s) auto

text \<open>What every step of a decoder keeps, the decoder keeps, on any input.\<close>

lemma pb_fold_invariant:
  assumes "\<And>f s s'. P s \<Longrightarrow> step f s = Inr s' \<Longrightarrow> P s'" and "P s" and "pb_fold step b s = Inr s'"
  shows "P s'"
  using assms(2,3)
proof (induction "length b" arbitrary: b s rule: less_induct)
  case less
  obtain x b' where n: "Reader_Next b = (x, b')" by fastforce
  show ?case
  proof (cases x)
    case (Inr y)
    then show ?thesis
      using n less.prems less.hyps [of b'] assms(1) Reader_Next_shrinks [of b _ b']
      by (cases y) (auto simp: pb_fold.simps [of step b] split: sum.splits)
  qed (use n less.prems in \<open>simp add: pb_fold.simps [of step b]\<close>)
qed

text \<open>
  The interface between the codec and a decoder: the reader gives back each encoded field and stops
  cleanly at the end, and the decoder is a loop over the reader. Then decoding an encoded message is
  running the switch over its fields.
\<close>

locale field_reader =
  fixes read_next :: "bytes \<Rightarrow> (gerror + 'f option) \<times> bytes"
    and enc :: "'w \<Rightarrow> bytes" and view :: "'w \<Rightarrow> 'f" and ok :: "'w \<Rightarrow> bool"
    and loop :: "('f \<Rightarrow> 's \<Rightarrow> gerror + 's) \<Rightarrow> bytes \<Rightarrow> 's \<Rightarrow> gerror + 's"
  assumes next_end: "read_next [] = (Inr None, [])"
    and next_field: "ok w \<Longrightarrow> read_next (enc w @ rest) = (Inr (Some (view w)), rest)"
    and loop_end: "read_next b = (Inr None, b') \<Longrightarrow> loop step b s = Inr s"
    and loop_field: "read_next b = (Inr (Some f), b') \<Longrightarrow>
      loop step b s = (case step f s of Inl err \<Rightarrow> Inl err | Inr s' \<Rightarrow> loop step b' s')"
begin

lemma loop_message:
  "\<forall>w \<in> set ws. ok w \<Longrightarrow> loop step (concat (map enc ws)) s = run_fields step (map view ws) s"
proof (induction ws arbitrary: s)
  case Nil
  then show ?case by (simp add: loop_end [OF next_end])
next
  case (Cons w ws)
  then show ?case
    using loop_field [OF next_field [of w "concat (map enc ws)"], of step s] by (auto split: sum.split)
qed

end

interpretation pb_reader: field_reader Reader_Next wire_bytes wire_view wire_ok pb_fold
proof unfold_locales
  fix b b' and step :: "Field \<Rightarrow> 's \<Rightarrow> gerror + 's" and s f
  show "pb_fold step b s = Inr s" if "Reader_Next b = (Inr None, b')"
    using that by (simp add: pb_fold.simps [of step b])
  show "pb_fold step b s = (case step f s of Inl err \<Rightarrow> Inl err | Inr s' \<Rightarrow> pb_fold step b' s')"
    if "Reader_Next b = (Inr (Some f), b')"
    using that by (simp add: pb_fold.simps [of step b])
qed (simp_all add: Reader_Next_field)

lemma pb_fold_msg:
  "\<forall>f \<in> set fs. wire_ok f \<Longrightarrow> pb_fold step (wire_msg fs) s = run_fields step (map wire_view fs) s"
  unfolding wire_msg_def by (rule pb_reader.loop_message)

section \<open>Properties\<close>

datatype buf_op = BUint int u64 | BRaw int bytes | BRawAlways int bytes

fun buf_exec :: "buf_op \<Rightarrow> Buf \<Rightarrow> Buf" where
  "buf_exec (BUint n v) w = Buf_Uint n v w"
| "buf_exec (BRaw n b) w = Buf_Raw n b w"
| "buf_exec (BRawAlways n b) w = Buf_RawAlways n b w"

fun buf_fields :: "buf_op \<Rightarrow> wire_field list" where
  "buf_fields (BUint n v) = uint_field n v"
| "buf_fields (BRaw n b) = raw_field n b"
| "buf_fields (BRawAlways n b) = [WRaw n b]"

fun buf_ok :: "buf_op \<Rightarrow> bool" where
  "buf_ok (BUint n v) \<longleftrightarrow> 0 \<le> n \<and> n < 2 ^ 61"
| "buf_ok (BRaw n b) \<longleftrightarrow> 0 \<le> n \<and> n < 2 ^ 61 \<and> length b < 2 ^ 31"
| "buf_ok (BRawAlways n b) \<longleftrightarrow> 0 \<le> n \<and> n < 2 ^ 61 \<and> length b < 2 ^ 31"

text \<open>All the fields of a message.\<close>

definition Reader_all :: "Reader \<Rightarrow> gerror + Field list" where
  "Reader_all b = pb_fold (\<lambda>f fs. Inr (fs @ [f])) b []"

lemma buf_exec_msg: "buf_exec x (wire_msg fs) = wire_msg (fs @ buf_fields x)"
  by (cases x) (simp_all only: buf_exec.simps buf_fields.simps Buf_Uint_msg Buf_Raw_msg Buf_RawAlways_msg)

lemma buf_run_msg: "fold buf_exec xs (wire_msg fs) = wire_msg (fs @ concat (map buf_fields xs))"
  by (induction xs arbitrary: fs) (simp_all only: fold_simps buf_exec_msg list.map concat.simps append_assoc append_Nil2)

lemma run_fields_collect: "run_fields (\<lambda>f fs. Inr (fs @ [f])) fs acc = Inr (acc @ fs)"
  by (induction fs arbitrary: acc) simp_all

lemma buf_ok_fields: "buf_ok x \<Longrightarrow> f \<in> set (buf_fields x) \<Longrightarrow> wire_ok f"
  by (cases x) (auto simp: uint_field_def raw_field_def split: if_splits)

text \<open>C29: encode, decode. Whatever sequence of \<^verbatim>\<open>Uint\<close>, \<^verbatim>\<open>Raw\<close> and \<^verbatim>\<open>RawAlways\<close> calls wrote a message,
  reading it with \<^verbatim>\<open>Next\<close> gives back exactly those fields, in order, with number, wire type and
  contents, less the zero values that proto3 omits, and then a clean end.\<close>

theorem Pbwire_roundtrip:
  assumes "\<forall>x \<in> set xs. buf_ok x"
  shows "Reader_all (fold buf_exec xs []) = Inr (map wire_view (concat (map buf_fields xs)))"
proof -
  have "fold buf_exec xs [] = wire_msg (concat (map buf_fields xs))" using buf_run_msg [of xs "[]"] by simp
  moreover have "\<forall>f \<in> set (concat (map buf_fields xs)). wire_ok f" using assms buf_ok_fields by auto
  ultimately show ?thesis by (simp add: Reader_all_def pb_fold_msg run_fields_collect)
qed

theorem Pbwire_roundtrip_witness:
  "Reader_all (fold buf_exec [BUint 1 0, BUint 2 300, BRaw 3 [], BRaw 4 [104, 105], BRawAlways 5 []] []) =
     Inr [\<lparr>fd_Num = 2, fd_Wire = Varint, fd_Uint = 300, fd_Raw = []\<rparr>,
          \<lparr>fd_Num = 4, fd_Wire = Bytes, fd_Uint = 0, fd_Raw = [104, 105]\<rparr>,
          \<lparr>fd_Num = 5, fd_Wire = Bytes, fd_Uint = 0, fd_Raw = []\<rparr>]"
  by (subst Pbwire_roundtrip) (simp_all add: uint_field_def raw_field_def)

lemma Reader_varint_error: "Reader_varint s v b = (Inl err, b') \<Longrightarrow> err = ErrTruncated"
  by (induction s v b rule: Reader_varint.induct) (auto simp: Let_def split: if_splits)

lemma next_body_error: "next_body b = (Inl err, b') \<Longrightarrow> err = ErrTruncated"
  unfolding next_body_def
  by (auto simp: Let_def split: sum.splits prod.splits if_splits dest!: Reader_varint_error)

lemma Reader_Next_error: "Reader_Next b = (Inl err, b') \<Longrightarrow> err = ErrTruncated"
proof (induction b rule: Reader_Next.induct)
  case (1 b)
  obtain x b0 where body: "next_body b = (x, b0)" by fastforce
  with 1 show ?case
    by (auto simp: Reader_Next.simps [of b] dest: next_body_error split: sum.splits option.splits if_splits)
qed

lemma next_body_raw:
  assumes "r \<noteq> []" and "next_body r = (Inr (Some f), b')"
  shows "length (fd_Raw f) + length b' < length r \<and> length (fd_Raw f) < 2 ^ 31"
proof -
  obtain t b where tag: "Reader_varint 0 0 r = (t, b)" by fastforce
  obtain u b1 where val: "Reader_varint 0 0 b = (u, b1)" by fastforce
  have "length b < length r" "length b1 \<le> length b"
    using Reader_varint_shrinks [OF assms(1) tag] Reader_varint_length [of 0 0 b] val by auto
  with assms(2) show ?thesis
    unfolding next_body_def tag by (auto simp: val Let_def split: sum.splits if_splits)
qed

lemma Reader_Next_raw:
  "Reader_Next b = (Inr (Some f), b') \<Longrightarrow> length (fd_Raw f) + length b' < length b \<and> length (fd_Raw f) < 2 ^ 31"
proof (induction b rule: Reader_Next.induct)
  case (1 b)
  then have ne: "b \<noteq> []" by (auto simp: Reader_Next.simps [of b])
  obtain x b0 where body: "next_body b = (x, b0)" by fastforce
  have "length b0 < length b" by (rule next_body_shrinks [OF ne body])
  moreover have "length (fd_Raw f) + length b' < length b0 \<and> length (fd_Raw f) < 2 ^ 31" if "x = Inr None"
    using that "1.IH" [OF ne body [symmetric]] "1.prems" ne body by (simp add: Reader_Next.simps [of b])
  ultimately show ?case
    using "1.prems" ne body next_body_raw [OF ne]
    by (auto simp: Reader_Next.simps [of b] split: sum.splits option.splits)
qed

lemma pb_fold_collect:
  "case pb_fold (\<lambda>f fs. Inr (fs @ [f])) b acc of
     Inl err \<Rightarrow> err = ErrTruncated
   | Inr fs \<Rightarrow> (\<exists>gs. fs = acc @ gs \<and> (\<Sum>f\<leftarrow>gs. length (fd_Raw f) + 1) \<le> length b \<and> (\<forall>f \<in> set gs. length (fd_Raw f) < 2 ^ 31))"
proof (induction "length b" arbitrary: b acc rule: less_induct)
  case less
  obtain x b' where n: "Reader_Next b = (x, b')" by fastforce
  show ?case
  proof (cases x)
    case (Inl err)
    with n Reader_Next_error show ?thesis by (auto simp: pb_fold.simps [of _ b])
  next
    case (Inr y)
    show ?thesis
    proof (cases y)
      case None
      with n Inr show ?thesis by (simp add: pb_fold.simps [of _ b])
    next
      case (Some f)
      have len: "length (fd_Raw f) + length b' < length b" "length (fd_Raw f) < 2 ^ 31" using n Inr Some Reader_Next_raw by blast+
      then have "length b' < length b" by simp
      from less.hyps [OF this, of "acc @ [f]"] len n Inr Some show ?thesis
        by (simp add: pb_fold.simps [of _ b]) (fastforce split: sum.splits)
    qed
  qed
qed

text \<open>C30: reading hostile input is safe. On any bytes whatever, the reader comes to an end without a panic of a slice
  expression, either with \<^verbatim>\<open>ErrTruncated\<close> or with fields that together, with at least a byte for each of them, are no
  longer than the input, each below 2 GiB: a length prefix can not make it read past the end.\<close>

theorem Reader_bounded:
  "Reader_all b = Inl ErrTruncated \<or>
   (\<exists>fs. Reader_all b = Inr fs \<and> (\<Sum>f\<leftarrow>fs. length (fd_Raw f) + 1) \<le> length b \<and> (\<forall>f \<in> set fs. length (fd_Raw f) < 2 ^ 31))"
  using pb_fold_collect [of "[]" b] unfolding Reader_all_def by (auto split: sum.splits)

theorem Reader_bounded_witness:
  "\<exists>fs. Reader_all (wire_msg [WUint 1 300, WRaw 4 [104, 105]]) = Inr fs \<and> length fs = 2 \<and>
     (\<Sum>f\<leftarrow>fs. length (fd_Raw f) + 1) \<le> length (wire_msg [WUint 1 300, WRaw 4 [104, 105]])"
proof -
  have "Reader_all (wire_msg [WUint 1 300, WRaw 4 [104, 105]]) = Inr (map wire_view [WUint 1 300, WRaw 4 [104, 105]])"
    by (simp add: Reader_all_def pb_fold_msg)
  with Reader_bounded [of "wire_msg [WUint 1 300, WRaw 4 [104, 105]]"] show ?thesis by auto
qed

end
