(* ===== verification/Engineclient.thy ===== *)
theory Engineclient
  imports Pbwire
begin

text \<open>
  The gateway's side of the simulation engine's contract, \<^verbatim>\<open>internal/engineclient/engineclient.go\<close>:
  encoding a simulation request, decoding the engine's verdict, and the two calls. A \<^verbatim>\<open>*big.Int\<close> is
  an \<open>int option\<close> where nil is allowed, a \<^verbatim>\<open>[20]byte\<close> or \<^verbatim>\<open>[32]byte\<close> array is a byte list whose
  length the well-formedness predicates state. The transport (\<^verbatim>\<open>Invoker\<close>) is an argument.

  The lemmas read the encoded request back by the message definitions of
  \<^verbatim>\<open>contracts/proto/chainforge/engine/v1/engine.proto\<close> and show that nothing is lost, and that a
  response written by those definitions is decoded to the same values.
\<close>

section \<open>Data\<close>

type_synonym Address = bytes

text \<open>\<^verbatim>\<open>big.Int.Bytes\<close> and \<^verbatim>\<open>SetBytes\<close>: big-endian, without leading zeros.\<close>

fun le_bytes :: "nat \<Rightarrow> bytes" where
  "le_bytes n = (if n = 0 then [] else word_of_nat (n mod 256) # le_bytes (n div 256))"

declare le_bytes.simps [simp del]

definition big_Bytes :: "int \<Rightarrow> bytes" where
  "big_Bytes v = rev (le_bytes (nat \<bar>v\<bar>))"

definition big_SetBytes :: "bytes \<Rightarrow> int" where
  "big_SetBytes b = int (foldl (\<lambda>a c. a * 256 + unat c) 0 b)"

record Slot =
  sl_Key :: bytes
  sl_Value :: "int option"

record Account =
  ac_Address :: Address
  ac_Balance :: "int option"
  ac_Nonce :: u64
  ac_Code :: bytes
  ac_Storage :: "Slot list"

record SimRequest =
  sr_ChainID :: u64
  sr_From :: Address
  sr_To :: "Address option"
  sr_Value :: "int option"
  sr_Data :: bytes
  sr_GasLimit :: u64
  sr_GasPrice :: "int option"
  sr_State :: "Account list"
  sr_BlockNumber :: u64
  sr_Timestamp :: u64

record EvmLog =
  el_Address :: Address
  el_Topics :: "bytes list"
  el_Data :: bytes

record BalanceChange =
  bc_Address :: Address
  bc_Before :: int
  bc_After :: int

text \<open>\<^verbatim>\<open>Outcome\<close> is a string type; \<open>NoOutcome\<close> is its zero value.\<close>

datatype Outcome = NoOutcome | Success | Revert | Halt

record SimResult =
  sm_Outcome :: Outcome
  sm_GasUsed :: u64
  sm_Output :: bytes
  sm_Reason :: string
  sm_Logs :: "EvmLog list"
  sm_BalanceChanges :: "BalanceChange list"
  sm_ElapsedUS :: u64
  sm_Created :: "Address option"

type_synonym 'e Invoker = "string \<Rightarrow> bytes \<Rightarrow> 'e \<Rightarrow> (gerror + bytes) \<times> 'e"

definition svc :: string where
  "svc = ''/chainforge.engine.v1.Engine/''"

section \<open>Encoding a request\<close>

definition big_word :: "int option \<Rightarrow> gerror + bytes" where
  "big_word v = (case v of
     None \<Rightarrow> Inr []
   | Some x \<Rightarrow>
       if x < 0 \<or> \<bar>x\<bar> \<ge> 2 ^ 256
       then Inl (OtherErr ''engineclient: value must fit in an unsigned 256-bit integer'')
       else Inr (big_Bytes x))"

fun encodeSlots :: "Slot list \<Rightarrow> Buf \<Rightarrow> gerror + Buf" where
  "encodeSlots [] w = Inr w"
| "encodeSlots (s # ss) w = ebind (big_word (sl_Value s)) (\<lambda>v.
     encodeSlots ss (Buf_RawAlways 5 (Buf_Raw 2 v (Buf_Raw 1 (sl_Key s) [])) w))"

definition encodeAccount :: "Account \<Rightarrow> gerror + bytes" where
  "encodeAccount a = ebind (big_word (ac_Balance a)) (\<lambda>bal.
     encodeSlots (ac_Storage a)
       (Buf_Raw 4 (ac_Code a) (Buf_Uint 3 (ac_Nonce a) (Buf_Raw 2 bal (Buf_Raw 1 (ac_Address a) [])))))"

fun encodeStates :: "Account list \<Rightarrow> Buf \<Rightarrow> gerror + Buf" where
  "encodeStates [] w = Inr w"
| "encodeStates (a # as) w = ebind (encodeAccount a) (\<lambda>b. encodeStates as (Buf_RawAlways 8 b w))"

definition Encode :: "SimRequest \<Rightarrow> gerror + bytes" where
  "Encode r = ebind (big_word (sr_Value r)) (\<lambda>val. ebind (big_word (sr_GasPrice r)) (\<lambda>price.
     let w = Buf_Raw 2 (sr_From r) (Buf_Uint 1 (sr_ChainID r) []);
         w = (case sr_To r of None \<Rightarrow> w | Some a \<Rightarrow> Buf_Raw 3 a w);
         w = Buf_Raw 7 price (Buf_Uint 6 (sr_GasLimit r) (Buf_Raw 5 (sr_Data r) (Buf_Raw 4 val w)))
     in ebind (encodeStates (sr_State r) w) (\<lambda>w.
          Inr (Buf_Uint 10 (sr_Timestamp r) (Buf_Uint 9 (sr_BlockNumber r) w)))))"

section \<open>Decoding a response\<close>

definition addr :: "bytes \<Rightarrow> gerror + Address" where
  "addr b = (if length b \<noteq> 20 then Inl (OtherErr ''engineclient: address must be 20 bytes'') else Inr b)"

definition log_field :: "Field \<Rightarrow> EvmLog \<Rightarrow> gerror + EvmLog" where
  "log_field f l =
     (if fd_Num f = 1 \<and> fd_Wire f = Bytes then ebind (addr (fd_Raw f)) (\<lambda>a. Inr (l\<lparr>el_Address := a\<rparr>))
      else if fd_Num f = 2 \<and> fd_Wire f = Bytes then Inr (l\<lparr>el_Topics := el_Topics l @ [fd_Raw f]\<rparr>)
      else if fd_Num f = 3 \<and> fd_Wire f = Bytes then Inr (l\<lparr>el_Data := fd_Raw f\<rparr>)
      else Inr l)"

definition decodeLog :: "bytes \<Rightarrow> gerror + EvmLog" where
  "decodeLog b = pb_fold log_field b \<lparr>el_Address = replicate 20 0, el_Topics = [], el_Data = []\<rparr>"

definition change_field :: "Field \<Rightarrow> BalanceChange \<Rightarrow> gerror + BalanceChange" where
  "change_field f c =
     (if fd_Num f = 1 \<and> fd_Wire f = Bytes then ebind (addr (fd_Raw f)) (\<lambda>a. Inr (c\<lparr>bc_Address := a\<rparr>))
      else if fd_Num f = 2 \<and> fd_Wire f = Bytes then Inr (c\<lparr>bc_Before := big_SetBytes (fd_Raw f)\<rparr>)
      else if fd_Num f = 3 \<and> fd_Wire f = Bytes then Inr (c\<lparr>bc_After := big_SetBytes (fd_Raw f)\<rparr>)
      else Inr c)"

definition decodeChange :: "bytes \<Rightarrow> gerror + BalanceChange" where
  "decodeChange b = pb_fold change_field b \<lparr>bc_Address = replicate 20 0, bc_Before = 0, bc_After = 0\<rparr>"

definition result_field :: "Field \<Rightarrow> SimResult \<Rightarrow> gerror + SimResult" where
  "result_field f out =
     (if fd_Num f = 1 \<and> fd_Wire f = Varint then
        (if fd_Uint f = 1 then Inr (out\<lparr>sm_Outcome := Success\<rparr>)
         else if fd_Uint f = 2 then Inr (out\<lparr>sm_Outcome := Revert\<rparr>)
         else if fd_Uint f = 3 then Inr (out\<lparr>sm_Outcome := Halt\<rparr>)
         else Inl (OtherErr ''engineclient: unknown outcome''))
      else if fd_Num f = 2 \<and> fd_Wire f = Varint then Inr (out\<lparr>sm_GasUsed := fd_Uint f\<rparr>)
      else if fd_Num f = 3 \<and> fd_Wire f = Bytes then Inr (out\<lparr>sm_Output := fd_Raw f\<rparr>)
      else if fd_Num f = 4 \<and> fd_Wire f = Bytes then Inr (out\<lparr>sm_Reason := string_of (fd_Raw f)\<rparr>)
      else if fd_Num f = 5 \<and> fd_Wire f = Bytes then
        ebind (decodeLog (fd_Raw f)) (\<lambda>l. Inr (out\<lparr>sm_Logs := sm_Logs out @ [l]\<rparr>))
      else if fd_Num f = 6 \<and> fd_Wire f = Bytes then
        ebind (decodeChange (fd_Raw f)) (\<lambda>c. Inr (out\<lparr>sm_BalanceChanges := sm_BalanceChanges out @ [c]\<rparr>))
      else if fd_Num f = 7 \<and> fd_Wire f = Varint then Inr (out\<lparr>sm_ElapsedUS := fd_Uint f\<rparr>)
      else if fd_Num f = 8 \<and> fd_Wire f = Bytes then
        ebind (addr (fd_Raw f)) (\<lambda>a. Inr (out\<lparr>sm_Created := Some a\<rparr>))
      else Inr out)"

definition emptyResult :: SimResult where
  "emptyResult = \<lparr>sm_Outcome = NoOutcome, sm_GasUsed = 0, sm_Output = [], sm_Reason = [], sm_Logs = [],
     sm_BalanceChanges = [], sm_ElapsedUS = 0, sm_Created = None\<rparr>"

definition Decode :: "bytes \<Rightarrow> gerror + SimResult" where
  "Decode b = ebind (pb_fold result_field b emptyResult) (\<lambda>out.
     if sm_Outcome out = NoOutcome then Inl (OtherErr ''engineclient: response has no outcome'') else Inr out)"

section \<open>The calls\<close>

definition Client_Simulate :: "'e Invoker \<Rightarrow> SimRequest \<Rightarrow> 'e \<Rightarrow> (gerror + SimResult) \<times> 'e" where
  "Client_Simulate iv r e = (case Encode r of
     Inl err \<Rightarrow> (Inl err, e)
   | Inr req \<Rightarrow> (case iv (svc @ ''Simulate'') req e of
       (Inl err, e') \<Rightarrow> (Inl err, e')
     | (Inr raw, e') \<Rightarrow> (Decode raw, e')))"

text \<open>The loop of \<^verbatim>\<open>Health\<close>, which stops at the first version field.\<close>

function health_loop :: "Reader \<Rightarrow> gerror + string" where
  "health_loop r = (case Reader_Next r of
     (Inl err, r') \<Rightarrow> Inl err
   | (Inr None, r') \<Rightarrow> Inr []
   | (Inr (Some f), r') \<Rightarrow> if fd_Num f = 1 \<and> fd_Wire f = Bytes then Inr (string_of (fd_Raw f)) else health_loop r')"
  by auto
termination by (relation "measure length") (auto dest: Reader_Next_shrinks [OF sym])

declare health_loop.simps [simp del]

definition Client_Health :: "'e Invoker \<Rightarrow> 'e \<Rightarrow> (gerror + string) \<times> 'e" where
  "Client_Health iv e = (case iv (svc @ ''Health'') [] e of
     (Inl err, e') \<Rightarrow> (Inl err, e')
   | (Inr raw, e') \<Rightarrow> (health_loop raw, e'))"

section \<open>Reading a request by its message definition\<close>

lemma big_SetBytes_le: "foldr (\<lambda>c a. a * 256 + unat c) (le_bytes n) 0 = n"
proof (induction n rule: le_bytes.induct)
  case (1 n)
  then show ?case by (subst le_bytes.simps) (simp add: unat_of_nat take_bit_eq_mod)
qed

lemma big_SetBytes_Bytes [simp]: "0 \<le> v \<Longrightarrow> big_SetBytes (big_Bytes v) = v"
  by (simp add: big_SetBytes_def big_Bytes_def foldl_conv_foldr big_SetBytes_le)

lemma length_le_bytes: "n < 256 ^ k \<Longrightarrow> length (le_bytes n) \<le> k"
proof (induction k arbitrary: n)
  case 0
  then show ?case by (simp add: le_bytes.simps [of 0])
next
  case (Suc k)
  then have "n div 256 < 256 ^ k" by (simp add: less_mult_imp_div_less mult.commute)
  with Suc.IH show ?case by (subst le_bytes.simps) simp
qed

lemma length_big_Bytes: "0 \<le> v \<Longrightarrow> v < 2 ^ 256 \<Longrightarrow> length (big_Bytes v) \<le> 32"
  using length_le_bytes [of "nat v" 32] by (simp add: big_Bytes_def nat_less_iff)

lemma big_Bytes_0 [simp]: "big_Bytes 0 = []"
  by (simp add: big_Bytes_def le_bytes.simps [of 0])

definition in256 :: "int option \<Rightarrow> bool" where
  "in256 v \<longleftrightarrow> (case v of None \<Rightarrow> True | Some x \<Rightarrow> 0 \<le> x \<and> x < 2 ^ 256)"

definition num_of :: "int option \<Rightarrow> int" where
  "num_of v = (case v of None \<Rightarrow> 0 | Some x \<Rightarrow> x)"

lemma big_word_ok: "big_word v = Inr b \<longleftrightarrow> in256 v \<and> b = big_Bytes (num_of v)"
  by (auto simp: big_word_def in256_def num_of_def split: option.split)

lemma big_word_fits: "in256 v \<Longrightarrow> big_word v = Inr (big_Bytes (num_of v))"
  by (simp add: big_word_ok)

lemma number_256: "in256 v \<Longrightarrow> 0 \<le> num_of v \<and> length (big_Bytes (num_of v)) \<le> 32"
  using length_big_Bytes [of "num_of v"] by (auto simp: in256_def num_of_def split: option.splits)

text \<open>The fields the encoder writes, nested messages included.\<close>

definition slot_fields :: "Slot \<Rightarrow> wire_field list" where
  "slot_fields s = raw_field 1 (sl_Key s) @ raw_field 2 (big_Bytes (num_of (sl_Value s)))"

definition account_fields :: "Account \<Rightarrow> wire_field list" where
  "account_fields a = raw_field 1 (ac_Address a) @ raw_field 2 (big_Bytes (num_of (ac_Balance a))) @
     uint_field 3 (ac_Nonce a) @ raw_field 4 (ac_Code a) @
     map (\<lambda>s. WRaw 5 (wire_msg (slot_fields s))) (ac_Storage a)"

definition request_fields :: "SimRequest \<Rightarrow> wire_field list" where
  "request_fields r = uint_field 1 (sr_ChainID r) @ raw_field 2 (sr_From r) @
     (case sr_To r of None \<Rightarrow> [] | Some a \<Rightarrow> raw_field 3 a) @
     raw_field 4 (big_Bytes (num_of (sr_Value r))) @ raw_field 5 (sr_Data r) @
     uint_field 6 (sr_GasLimit r) @ raw_field 7 (big_Bytes (num_of (sr_GasPrice r))) @
     map (\<lambda>a. WRaw 8 (wire_msg (account_fields a))) (sr_State r) @
     uint_field 9 (sr_BlockNumber r) @ uint_field 10 (sr_Timestamp r)"

definition account_numbers :: "Account \<Rightarrow> bool" where
  "account_numbers a \<longleftrightarrow> in256 (ac_Balance a) \<and> (\<forall>s \<in> set (ac_Storage a). in256 (sl_Value s))"

definition request_numbers :: "SimRequest \<Rightarrow> bool" where
  "request_numbers r \<longleftrightarrow> in256 (sr_Value r) \<and> in256 (sr_GasPrice r) \<and> (\<forall>a \<in> set (sr_State r). account_numbers a)"

lemmas buf_msg = Buf_Uint_msg Buf_Raw_msg Buf_RawAlways_msg

lemma buf_msg_Nil:
  "Buf_Uint n v [] = wire_msg (uint_field n v)" "Buf_Raw n b [] = wire_msg (raw_field n b)"
  using Buf_Uint_msg [of n v "[]"] Buf_Raw_msg [of n b "[]"] by simp_all

lemma encodeSlots_fields:
  "encodeSlots ss (wire_msg fs) = Inr b \<longleftrightarrow>
     (\<forall>s \<in> set ss. in256 (sl_Value s)) \<and> b = wire_msg (fs @ map (\<lambda>s. WRaw 5 (wire_msg (slot_fields s))) ss)"
  by (induction ss arbitrary: fs)
     (auto simp: ebind_eq_Inr big_word_ok buf_msg_Nil buf_msg slot_fields_def simp del: wire_msg_append)

lemma encodeAccount_fields:
  "encodeAccount a = Inr b \<longleftrightarrow> account_numbers a \<and> b = wire_msg (account_fields a)"
  by (auto simp: encodeAccount_def ebind_eq_Inr big_word_ok buf_msg_Nil buf_msg encodeSlots_fields
      account_numbers_def account_fields_def simp del: wire_msg_append)

lemma encodeStates_fields:
  "encodeStates as (wire_msg fs) = Inr b \<longleftrightarrow>
     (\<forall>a \<in> set as. account_numbers a) \<and> b = wire_msg (fs @ map (\<lambda>a. WRaw 8 (wire_msg (account_fields a))) as)"
  by (induction as arbitrary: fs)
     (auto simp: ebind_eq_Inr encodeAccount_fields buf_msg simp del: wire_msg_append)

lemma Encode_fields: "Encode r = Inr b \<longleftrightarrow> request_numbers r \<and> b = wire_msg (request_fields r)"
proof (cases "sr_To r")
  case None
  then show ?thesis
    by (auto simp: Encode_def Let_def ebind_eq_Inr big_word_ok buf_msg_Nil buf_msg encodeStates_fields
        request_numbers_def request_fields_def simp del: wire_msg_append)
next
  case (Some a)
  then show ?thesis
    by (auto simp: Encode_def Let_def ebind_eq_Inr big_word_ok buf_msg_Nil buf_msg encodeStates_fields
        request_numbers_def request_fields_def simp del: wire_msg_append)
qed

text \<open>
  A reader of the three request messages, by proto3's rules: an absent field is zero or empty, the
  last occurrence of a singular field wins, repeated fields accumulate, unknown fields are skipped.
\<close>

definition read_slot_field :: "Field \<Rightarrow> Slot \<Rightarrow> gerror + Slot" where
  "read_slot_field f s =
     (if fd_Num f = 1 \<and> fd_Wire f = Bytes then Inr (s\<lparr>sl_Key := fd_Raw f\<rparr>)
      else if fd_Num f = 2 \<and> fd_Wire f = Bytes then Inr (s\<lparr>sl_Value := Some (big_SetBytes (fd_Raw f))\<rparr>)
      else Inr s)"

definition read_slot :: "bytes \<Rightarrow> gerror + Slot" where
  "read_slot b = pb_fold read_slot_field b \<lparr>sl_Key = [], sl_Value = Some 0\<rparr>"

definition read_account_field :: "Field \<Rightarrow> Account \<Rightarrow> gerror + Account" where
  "read_account_field f a =
     (if fd_Num f = 1 \<and> fd_Wire f = Bytes then Inr (a\<lparr>ac_Address := fd_Raw f\<rparr>)
      else if fd_Num f = 2 \<and> fd_Wire f = Bytes then Inr (a\<lparr>ac_Balance := Some (big_SetBytes (fd_Raw f))\<rparr>)
      else if fd_Num f = 3 \<and> fd_Wire f = Varint then Inr (a\<lparr>ac_Nonce := fd_Uint f\<rparr>)
      else if fd_Num f = 4 \<and> fd_Wire f = Bytes then Inr (a\<lparr>ac_Code := fd_Raw f\<rparr>)
      else if fd_Num f = 5 \<and> fd_Wire f = Bytes then
        ebind (read_slot (fd_Raw f)) (\<lambda>s. Inr (a\<lparr>ac_Storage := ac_Storage a @ [s]\<rparr>))
      else Inr a)"

definition read_account :: "bytes \<Rightarrow> gerror + Account" where
  "read_account b = pb_fold read_account_field b
     \<lparr>ac_Address = [], ac_Balance = Some 0, ac_Nonce = 0, ac_Code = [], ac_Storage = []\<rparr>"

definition read_request_field :: "Field \<Rightarrow> SimRequest \<Rightarrow> gerror + SimRequest" where
  "read_request_field f r =
     (if fd_Num f = 1 \<and> fd_Wire f = Varint then Inr (r\<lparr>sr_ChainID := fd_Uint f\<rparr>)
      else if fd_Num f = 2 \<and> fd_Wire f = Bytes then Inr (r\<lparr>sr_From := fd_Raw f\<rparr>)
      else if fd_Num f = 3 \<and> fd_Wire f = Bytes then
        Inr (r\<lparr>sr_To := if fd_Raw f = [] then None else Some (fd_Raw f)\<rparr>)
      else if fd_Num f = 4 \<and> fd_Wire f = Bytes then Inr (r\<lparr>sr_Value := Some (big_SetBytes (fd_Raw f))\<rparr>)
      else if fd_Num f = 5 \<and> fd_Wire f = Bytes then Inr (r\<lparr>sr_Data := fd_Raw f\<rparr>)
      else if fd_Num f = 6 \<and> fd_Wire f = Varint then Inr (r\<lparr>sr_GasLimit := fd_Uint f\<rparr>)
      else if fd_Num f = 7 \<and> fd_Wire f = Bytes then Inr (r\<lparr>sr_GasPrice := Some (big_SetBytes (fd_Raw f))\<rparr>)
      else if fd_Num f = 8 \<and> fd_Wire f = Bytes then
        ebind (read_account (fd_Raw f)) (\<lambda>a. Inr (r\<lparr>sr_State := sr_State r @ [a]\<rparr>))
      else if fd_Num f = 9 \<and> fd_Wire f = Varint then Inr (r\<lparr>sr_BlockNumber := fd_Uint f\<rparr>)
      else if fd_Num f = 10 \<and> fd_Wire f = Varint then Inr (r\<lparr>sr_Timestamp := fd_Uint f\<rparr>)
      else Inr r)"

definition read_request :: "bytes \<Rightarrow> gerror + SimRequest" where
  "read_request b = pb_fold read_request_field b
     \<lparr>sr_ChainID = 0, sr_From = [], sr_To = None, sr_Value = Some 0, sr_Data = [], sr_GasLimit = 0,
      sr_GasPrice = Some 0, sr_State = [], sr_BlockNumber = 0, sr_Timestamp = 0\<rparr>"

text \<open>On the wire a nil number is zero.\<close>

definition plain_slot :: "Slot \<Rightarrow> Slot" where
  "plain_slot s = s\<lparr>sl_Value := Some (num_of (sl_Value s))\<rparr>"

definition plain_account :: "Account \<Rightarrow> Account" where
  "plain_account a = a\<lparr>ac_Balance := Some (num_of (ac_Balance a)), ac_Storage := map plain_slot (ac_Storage a)\<rparr>"

definition plain_request :: "SimRequest \<Rightarrow> SimRequest" where
  "plain_request r = r\<lparr>sr_Value := Some (num_of (sr_Value r)), sr_GasPrice := Some (num_of (sr_GasPrice r)),
     sr_State := map plain_account (sr_State r)\<rparr>"

text \<open>
  What the types and the sizes of the fields guarantee: arrays have their length, and no field
  reaches the 2 GiB at which the wire format ends.
\<close>

definition account_sizes :: "Account \<Rightarrow> bool" where
  "account_sizes a \<longleftrightarrow> length (ac_Address a) = 20 \<and> length (ac_Code a) < 2 ^ 31 \<and>
     (\<forall>s \<in> set (ac_Storage a). length (sl_Key s) = 32) \<and> length (wire_msg (account_fields a)) < 2 ^ 31"

definition request_sizes :: "SimRequest \<Rightarrow> bool" where
  "request_sizes r \<longleftrightarrow> length (sr_From r) = 20 \<and> (\<forall>a. sr_To r = Some a \<longrightarrow> length a = 20) \<and>
     length (sr_Data r) < 2 ^ 31 \<and> (\<forall>a \<in> set (sr_State r). account_sizes a)"

lemma wire_ok_uint: "f \<in> set (uint_field n v) \<Longrightarrow> 0 \<le> n \<Longrightarrow> n < 2 ^ 61 \<Longrightarrow> wire_ok f"
  by (auto simp: uint_field_def split: if_splits)

lemma wire_ok_raw: "f \<in> set (raw_field n b) \<Longrightarrow> 0 \<le> n \<Longrightarrow> n < 2 ^ 61 \<Longrightarrow> length b < 2 ^ 31 \<Longrightarrow> wire_ok f"
  by (auto simp: raw_field_def split: if_splits)

lemma number_ok: "in256 v \<Longrightarrow> big_SetBytes (big_Bytes (num_of v)) = num_of v \<and>
    length (big_Bytes (num_of v)) < 2 ^ 31 \<and> (big_Bytes (num_of v) = [] \<longrightarrow> num_of v = 0)"
  using number_256 [of v] big_SetBytes_Bytes [of "num_of v"] by (auto simp: big_SetBytes_def)

lemma wire_ok_slot:
  assumes "in256 (sl_Value s)" and "length (sl_Key s) = 32"
  shows "\<forall>f \<in> set (slot_fields s). wire_ok f"
  using assms number_ok [of "sl_Value s"] by (auto simp: slot_fields_def intro: wire_ok_raw)

lemma read_slot_encoded:
  assumes "in256 (sl_Value s)" and "length (sl_Key s) = 32"
  shows "read_slot (wire_msg (slot_fields s)) = Inr (plain_slot s)"
proof -
  have "run_fields read_slot_field (map wire_view (slot_fields s)) \<lparr>sl_Key = [], sl_Value = Some 0\<rparr> = Inr (plain_slot s)"
    unfolding slot_fields_def map_append
    by (rule run_fields_seq, rule run_raw_field, simp add: read_slot_field_def, simp)
       (rule run_raw_field, use number_ok [OF assms(1)] in \<open>auto simp: read_slot_field_def plain_slot_def\<close>)
  then show ?thesis by (simp add: read_slot_def pb_fold_msg [OF wire_ok_slot [OF assms]])
qed

lemma wire_ok_account:
  assumes "account_numbers a" and "account_sizes a"
  shows "\<forall>f \<in> set (account_fields a). wire_ok f"
proof -
  have "length (wire_msg (slot_fields s)) < 2 ^ 31" if "s \<in> set (ac_Storage a)" for s
  proof -
    from split_list [OF that] obtain us vs where ss: "ac_Storage a = us @ s # vs" by blast
    have "length (wire_msg (slot_fields s)) \<le> length (wire_bytes (WRaw 5 (wire_msg (slot_fields s))))"
      by (simp add: Buf_RawAlways_def)
    also have "\<dots> \<le> length (wire_msg (account_fields a))"
      by (simp add: account_fields_def ss wire_msg_Cons)
    finally show ?thesis using assms(2) by (simp add: account_sizes_def)
  qed
  with assms number_ok [of "ac_Balance a"] show ?thesis
    by (auto simp: account_fields_def account_numbers_def account_sizes_def intro: wire_ok_raw wire_ok_uint)
qed

lemma fold_add_slots:
  "fold (\<lambda>s a. a\<lparr>ac_Storage := ac_Storage a @ [g s]\<rparr>) ss a = a\<lparr>ac_Storage := ac_Storage a @ map g ss\<rparr>"
  by (induction ss arbitrary: a) simp_all

lemma read_account_encoded:
  assumes "account_numbers a" and "account_sizes a"
  shows "read_account (wire_msg (account_fields a)) = Inr (plain_account a)"
proof -
  let ?step = read_account_field
  let ?z = "\<lparr>ac_Address = [], ac_Balance = Some 0, ac_Nonce = 0, ac_Code = [], ac_Storage = []\<rparr>"
  have bal: "in256 (ac_Balance a)" using assms(1) by (simp add: account_numbers_def)
  have slot: "read_slot (wire_msg (slot_fields s)) = Inr (plain_slot s)" if "s \<in> set (ac_Storage a)" for s
    using that assms by (intro read_slot_encoded) (auto simp: account_numbers_def account_sizes_def)
  have "run_fields ?step (map wire_view (raw_field 1 (ac_Address a))) ?z = Inr (?z\<lparr>ac_Address := ac_Address a\<rparr>)"
    (is "_ = Inr ?s1") by (rule run_raw_field) (simp_all add: read_account_field_def)
  moreover have "run_fields ?step (map wire_view (raw_field 2 (big_Bytes (num_of (ac_Balance a))))) ?s1 =
      Inr (?s1\<lparr>ac_Balance := Some (num_of (ac_Balance a))\<rparr>)" (is "_ = Inr ?s2")
    by (rule run_raw_field) (use number_ok [OF bal] in \<open>auto simp: read_account_field_def\<close>)
  moreover have "run_fields ?step (map wire_view (uint_field 3 (ac_Nonce a))) ?s2 = Inr (?s2\<lparr>ac_Nonce := ac_Nonce a\<rparr>)"
    (is "_ = Inr ?s3") by (rule run_uint_field) (simp_all add: read_account_field_def)
  moreover have "run_fields ?step (map wire_view (raw_field 4 (ac_Code a))) ?s3 = Inr (?s3\<lparr>ac_Code := ac_Code a\<rparr>)"
    (is "_ = Inr ?s4") by (rule run_raw_field) (simp_all add: read_account_field_def)
  moreover have "run_fields ?step (map wire_view (map (\<lambda>s. WRaw 5 (wire_msg (slot_fields s))) (ac_Storage a))) ?s4 =
      Inr (fold (\<lambda>s a. a\<lparr>ac_Storage := ac_Storage a @ [plain_slot s]\<rparr>) (ac_Storage a) ?s4)"
    by (rule run_repeated) (simp add: read_account_field_def slot)
  ultimately have "run_fields ?step (map wire_view (account_fields a)) ?z = Inr (plain_account a)"
    unfolding account_fields_def map_append run_fields_append fold_add_slots
    by (simp add: plain_account_def)
  then show ?thesis by (simp add: read_account_def pb_fold_msg [OF wire_ok_account [OF assms]])
qed

lemma wire_ok_request:
  assumes "request_numbers r" and "request_sizes r"
  shows "\<forall>f \<in> set (request_fields r). wire_ok f"
  using assms number_ok [of "sr_Value r"] number_ok [of "sr_GasPrice r"]
  by (auto simp: request_fields_def request_numbers_def request_sizes_def account_sizes_def
      intro: wire_ok_raw wire_ok_uint split: option.splits)

lemma fold_add_accounts:
  "fold (\<lambda>a r. r\<lparr>sr_State := sr_State r @ [g a]\<rparr>) as r = r\<lparr>sr_State := sr_State r @ map g as\<rparr>"
  by (induction as arbitrary: r) simp_all

lemma read_request_encoded:
  assumes "request_numbers r" and "request_sizes r"
  shows "read_request (wire_msg (request_fields r)) = Inr (plain_request r)"
proof -
  let ?step = read_request_field and ?m = "map wire_view"
  let ?z = "\<lparr>sr_ChainID = 0, sr_From = [], sr_To = None, sr_Value = Some 0, sr_Data = [], sr_GasLimit = 0,
      sr_GasPrice = Some 0, sr_State = [], sr_BlockNumber = 0, sr_Timestamp = 0\<rparr>"
  have num: "in256 (sr_Value r)" "in256 (sr_GasPrice r)" using assms(1) by (auto simp: request_numbers_def)
  have acct: "read_account (wire_msg (account_fields a)) = Inr (plain_account a)" if "a \<in> set (sr_State r)" for a
    using that assms by (intro read_account_encoded) (auto simp: request_numbers_def request_sizes_def)
  have "run_fields ?step (?m (uint_field 1 (sr_ChainID r))) ?z = Inr (?z\<lparr>sr_ChainID := sr_ChainID r\<rparr>)"
    (is "_ = Inr ?s1") by (rule run_uint_field) (simp_all add: read_request_field_def)
  moreover have "run_fields ?step (?m (raw_field 2 (sr_From r))) ?s1 = Inr (?s1\<lparr>sr_From := sr_From r\<rparr>)"
    (is "_ = Inr ?s2") by (rule run_raw_field) (simp_all add: read_request_field_def)
  moreover have "run_fields ?step (?m (case sr_To r of None \<Rightarrow> [] | Some a \<Rightarrow> raw_field 3 a)) ?s2 =
      Inr (?s2\<lparr>sr_To := sr_To r\<rparr>)" (is "_ = Inr ?s3")
    using assms(2) by (auto simp: request_sizes_def raw_field_def read_request_field_def split: option.split)
  moreover have "run_fields ?step (?m (raw_field 4 (big_Bytes (num_of (sr_Value r))))) ?s3 =
      Inr (?s3\<lparr>sr_Value := Some (num_of (sr_Value r))\<rparr>)" (is "_ = Inr ?s4")
    by (rule run_raw_field) (use number_ok [OF num(1)] in \<open>auto simp: read_request_field_def\<close>)
  moreover have "run_fields ?step (?m (raw_field 5 (sr_Data r))) ?s4 = Inr (?s4\<lparr>sr_Data := sr_Data r\<rparr>)"
    (is "_ = Inr ?s5") by (rule run_raw_field) (simp_all add: read_request_field_def)
  moreover have "run_fields ?step (?m (uint_field 6 (sr_GasLimit r))) ?s5 = Inr (?s5\<lparr>sr_GasLimit := sr_GasLimit r\<rparr>)"
    (is "_ = Inr ?s6") by (rule run_uint_field) (simp_all add: read_request_field_def)
  moreover have "run_fields ?step (?m (raw_field 7 (big_Bytes (num_of (sr_GasPrice r))))) ?s6 =
      Inr (?s6\<lparr>sr_GasPrice := Some (num_of (sr_GasPrice r))\<rparr>)" (is "_ = Inr ?s7")
    by (rule run_raw_field) (use number_ok [OF num(2)] in \<open>auto simp: read_request_field_def\<close>)
  moreover have "run_fields ?step (?m (map (\<lambda>a. WRaw 8 (wire_msg (account_fields a))) (sr_State r))) ?s7 =
      Inr (fold (\<lambda>a r. r\<lparr>sr_State := sr_State r @ [plain_account a]\<rparr>) (sr_State r) ?s7)" (is "_ = Inr ?s8")
    by (rule run_repeated) (simp add: read_request_field_def acct)
  moreover have "run_fields ?step (?m (uint_field 9 (sr_BlockNumber r))) ?s8 = Inr (?s8\<lparr>sr_BlockNumber := sr_BlockNumber r\<rparr>)"
    (is "_ = Inr ?s9") by (rule run_uint_field) (simp_all add: read_request_field_def fold_add_accounts)
  moreover have "run_fields ?step (?m (uint_field 10 (sr_Timestamp r))) ?s9 = Inr (?s9\<lparr>sr_Timestamp := sr_Timestamp r\<rparr>)"
    by (rule run_uint_field) (simp_all add: read_request_field_def fold_add_accounts)
  ultimately have "run_fields ?step (?m (request_fields r)) ?z = Inr (plain_request r)"
    unfolding request_fields_def map_append run_fields_append
    by (simp add: fold_add_accounts plain_request_def)
  then show ?thesis by (simp add: read_request_def pb_fold_msg [OF wire_ok_request [OF assms]])
qed

section \<open>Writing a response by its message definition\<close>

fun outcome_code :: "Outcome \<Rightarrow> u64" where
  "outcome_code NoOutcome = 0"
| "outcome_code Success = 1"
| "outcome_code Revert = 2"
| "outcome_code Halt = 3"

definition log_fields :: "EvmLog \<Rightarrow> wire_field list" where
  "log_fields l = raw_field 1 (el_Address l) @ map (\<lambda>t. WRaw 2 t) (el_Topics l) @ raw_field 3 (el_Data l)"

text \<open>The contract's balances are 32 bytes, big-endian.\<close>

definition be32 :: "int \<Rightarrow> bytes" where
  "be32 v = replicate (32 - length (big_Bytes v)) 0 @ big_Bytes v"

lemma be32_length: "0 \<le> v \<Longrightarrow> v < 2 ^ 256 \<Longrightarrow> length (be32 v) = 32"
  using length_big_Bytes [of v] by (simp add: be32_def)

lemma big_SetBytes_be32: "0 \<le> v \<Longrightarrow> big_SetBytes (be32 v) = v"
proof -
  have "foldl (\<lambda>a c. a * 256 + unat c) 0 (replicate k (0 :: byte)) = 0" for k by (induction k) simp_all
  then show "0 \<le> v \<Longrightarrow> big_SetBytes (be32 v) = v" using big_SetBytes_Bytes [of v] by (simp add: big_SetBytes_def be32_def)
qed

definition change_fields :: "BalanceChange \<Rightarrow> wire_field list" where
  "change_fields c = raw_field 1 (bc_Address c) @ raw_field 2 (be32 (bc_Before c)) @ raw_field 3 (be32 (bc_After c))"

definition response_fields :: "SimResult \<Rightarrow> wire_field list" where
  "response_fields x = uint_field 1 (outcome_code (sm_Outcome x)) @ uint_field 2 (sm_GasUsed x) @
     raw_field 3 (sm_Output x) @ raw_field 4 (bytes_of (sm_Reason x)) @
     map (\<lambda>l. WRaw 5 (wire_msg (log_fields l))) (sm_Logs x) @
     map (\<lambda>c. WRaw 6 (wire_msg (change_fields c))) (sm_BalanceChanges x) @
     uint_field 7 (sm_ElapsedUS x) @ (case sm_Created x of None \<Rightarrow> [] | Some a \<Rightarrow> raw_field 8 a)"

definition log_ok :: "EvmLog \<Rightarrow> bool" where
  "log_ok l \<longleftrightarrow> length (el_Address l) = 20 \<and> length (wire_msg (log_fields l)) < 2 ^ 31 \<and>
     length (el_Data l) < 2 ^ 31 \<and> (\<forall>t \<in> set (el_Topics l). length t < 2 ^ 31)"

definition change_ok :: "BalanceChange \<Rightarrow> bool" where
  "change_ok c \<longleftrightarrow> length (bc_Address c) = 20 \<and> in256 (Some (bc_Before c)) \<and> in256 (Some (bc_After c)) \<and>
     length (wire_msg (change_fields c)) < 2 ^ 31"

definition response_ok :: "SimResult \<Rightarrow> bool" where
  "response_ok x \<longleftrightarrow> sm_Outcome x \<noteq> NoOutcome \<and> length (sm_Output x) < 2 ^ 31 \<and> length (sm_Reason x) < 2 ^ 31 \<and>
     (\<forall>l \<in> set (sm_Logs x). log_ok l) \<and> (\<forall>c \<in> set (sm_BalanceChanges x). change_ok c) \<and>
     (\<forall>a. sm_Created x = Some a \<longrightarrow> length a = 20)"

lemma fold_add_topics: "fold (\<lambda>t l. l\<lparr>el_Topics := el_Topics l @ [t]\<rparr>) ts l = l\<lparr>el_Topics := el_Topics l @ ts\<rparr>"
  by (induction ts arbitrary: l) simp_all

lemma addr_ok: "length b = 20 \<Longrightarrow> addr b = Inr b"
  by (simp add: addr_def)

lemma decodeLog_encoded:
  assumes "log_ok l"
  shows "decodeLog (wire_msg (log_fields l)) = Inr l"
proof -
  let ?z = "\<lparr>el_Address = replicate 20 0, el_Topics = [], el_Data = []\<rparr>"
  have "run_fields log_field (map wire_view (raw_field 1 (el_Address l))) ?z = Inr (?z\<lparr>el_Address := el_Address l\<rparr>)"
    (is "_ = Inr ?s1") by (rule run_raw_field) (use assms in \<open>auto simp: log_field_def log_ok_def addr_ok\<close>)
  moreover have "run_fields log_field (map wire_view (map (\<lambda>t. WRaw 2 t) (el_Topics l))) ?s1 =
      Inr (fold (\<lambda>t l. l\<lparr>el_Topics := el_Topics l @ [t]\<rparr>) (el_Topics l) ?s1)" (is "_ = Inr ?s2")
    by (rule run_repeated) (simp add: log_field_def)
  moreover have "run_fields log_field (map wire_view (raw_field 3 (el_Data l))) ?s2 = Inr (?s2\<lparr>el_Data := el_Data l\<rparr>)"
    by (rule run_raw_field) (simp_all add: log_field_def fold_add_topics)
  ultimately have "run_fields log_field (map wire_view (log_fields l)) ?z = Inr l"
    unfolding log_fields_def map_append run_fields_append by (simp add: fold_add_topics)
  moreover have "\<forall>f \<in> set (log_fields l). wire_ok f"
    using assms by (auto simp: log_fields_def log_ok_def intro: wire_ok_raw)
  ultimately show ?thesis by (simp add: decodeLog_def pb_fold_msg)
qed

lemma decodeChange_encoded:
  assumes "change_ok c"
  shows "decodeChange (wire_msg (change_fields c)) = Inr c"
proof -
  let ?z = "\<lparr>bc_Address = replicate 20 0, bc_Before = 0, bc_After = 0\<rparr>"
  have n: "in256 (Some (bc_Before c))" "in256 (Some (bc_After c))" using assms by (auto simp: change_ok_def)
  then have pos: "0 \<le> bc_Before c" "0 \<le> bc_After c" and len: "length (be32 (bc_Before c)) = 32" "length (be32 (bc_After c)) = 32"
    using be32_length by (auto simp: in256_def)
  note num = big_SetBytes_be32 [OF pos(1)] big_SetBytes_be32 [OF pos(2)] len
  have "run_fields change_field (map wire_view (raw_field 1 (bc_Address c))) ?z = Inr (?z\<lparr>bc_Address := bc_Address c\<rparr>)"
    (is "_ = Inr ?s1") by (rule run_raw_field) (use assms in \<open>auto simp: change_field_def change_ok_def addr_ok\<close>)
  moreover have "run_fields change_field (map wire_view (raw_field 2 (be32 (bc_Before c)))) ?s1 =
      Inr (?s1\<lparr>bc_Before := bc_Before c\<rparr>)" (is "_ = Inr ?s2")
    by (rule run_raw_field) (use num in \<open>auto simp: change_field_def\<close>)
  moreover have "run_fields change_field (map wire_view (raw_field 3 (be32 (bc_After c)))) ?s2 =
      Inr (?s2\<lparr>bc_After := bc_After c\<rparr>)"
    by (rule run_raw_field) (use num in \<open>auto simp: change_field_def\<close>)
  ultimately have "run_fields change_field (map wire_view (change_fields c)) ?z = Inr c"
    unfolding change_fields_def map_append run_fields_append by simp
  moreover have "\<forall>f \<in> set (change_fields c). wire_ok f"
    using assms num by (auto simp: change_fields_def change_ok_def intro: wire_ok_raw)
  ultimately show ?thesis by (simp add: decodeChange_def pb_fold_msg)
qed

lemma wire_ok_response:
  assumes "response_ok x"
  shows "\<forall>f \<in> set (response_fields x). wire_ok f"
  using assms
  by (auto simp: response_fields_def response_ok_def log_ok_def change_ok_def
      intro: wire_ok_raw wire_ok_uint split: option.splits)

lemma fold_add_logs: "fold (\<lambda>l x. x\<lparr>sm_Logs := sm_Logs x @ [l]\<rparr>) ls x = x\<lparr>sm_Logs := sm_Logs x @ ls\<rparr>"
  by (induction ls arbitrary: x) simp_all

lemma fold_add_changes:
  "fold (\<lambda>c x. x\<lparr>sm_BalanceChanges := sm_BalanceChanges x @ [c]\<rparr>) cs x =
   x\<lparr>sm_BalanceChanges := sm_BalanceChanges x @ cs\<rparr>"
  by (induction cs arbitrary: x) simp_all

lemma result_outcome:
  assumes "o' \<noteq> NoOutcome"
  shows "run_fields result_field (map wire_view (uint_field 1 (outcome_code o'))) x = Inr (x\<lparr>sm_Outcome := o'\<rparr>)"
  using assms by (cases o') (simp_all add: uint_field_def result_field_def)

lemma run_response:
  assumes "response_ok x"
  shows "run_fields result_field (map wire_view (response_fields x)) emptyResult = Inr x"
proof -
  let ?step = result_field and ?m = "map wire_view" and ?z = emptyResult
  have logs: "decodeLog (wire_msg (log_fields l)) = Inr l" if "l \<in> set (sm_Logs x)" for l
    using that assms by (intro decodeLog_encoded) (simp add: response_ok_def)
  have changes: "decodeChange (wire_msg (change_fields c)) = Inr c" if "c \<in> set (sm_BalanceChanges x)" for c
    using that assms by (intro decodeChange_encoded) (simp add: response_ok_def)
  have "run_fields ?step (?m (uint_field 1 (outcome_code (sm_Outcome x)))) ?z = Inr (?z\<lparr>sm_Outcome := sm_Outcome x\<rparr>)"
    (is "_ = Inr ?s1") using assms by (intro result_outcome) (simp add: response_ok_def)
  moreover have "run_fields ?step (?m (uint_field 2 (sm_GasUsed x))) ?s1 = Inr (?s1\<lparr>sm_GasUsed := sm_GasUsed x\<rparr>)"
    (is "_ = Inr ?s2") by (rule run_uint_field) (simp_all add: result_field_def emptyResult_def)
  moreover have "run_fields ?step (?m (raw_field 3 (sm_Output x))) ?s2 = Inr (?s2\<lparr>sm_Output := sm_Output x\<rparr>)"
    (is "_ = Inr ?s3") by (rule run_raw_field) (simp_all add: result_field_def emptyResult_def)
  moreover have "run_fields ?step (?m (raw_field 4 (bytes_of (sm_Reason x)))) ?s3 = Inr (?s3\<lparr>sm_Reason := sm_Reason x\<rparr>)"
    (is "_ = Inr ?s4") by (rule run_raw_field) (simp_all add: result_field_def emptyResult_def)
  moreover have "run_fields ?step (?m (map (\<lambda>l. WRaw 5 (wire_msg (log_fields l))) (sm_Logs x))) ?s4 =
      Inr (fold (\<lambda>l x. x\<lparr>sm_Logs := sm_Logs x @ [l]\<rparr>) (sm_Logs x) ?s4)" (is "_ = Inr ?s5")
    by (rule run_repeated) (simp add: result_field_def logs)
  moreover have "run_fields ?step (?m (map (\<lambda>c. WRaw 6 (wire_msg (change_fields c))) (sm_BalanceChanges x))) ?s5 =
      Inr (fold (\<lambda>c x. x\<lparr>sm_BalanceChanges := sm_BalanceChanges x @ [c]\<rparr>) (sm_BalanceChanges x) ?s5)" (is "_ = Inr ?s6")
    by (rule run_repeated) (simp add: result_field_def changes)
  moreover have "run_fields ?step (?m (uint_field 7 (sm_ElapsedUS x))) ?s6 = Inr (?s6\<lparr>sm_ElapsedUS := sm_ElapsedUS x\<rparr>)"
    (is "_ = Inr ?s7")
    by (rule run_uint_field) (simp_all add: result_field_def emptyResult_def fold_add_logs fold_add_changes)
  moreover have "run_fields ?step (?m (case sm_Created x of None \<Rightarrow> [] | Some a \<Rightarrow> raw_field 8 a)) ?s7 =
      Inr (?s7\<lparr>sm_Created := sm_Created x\<rparr>)"
    using assms by (auto simp: response_ok_def raw_field_def result_field_def addr_ok emptyResult_def
        fold_add_logs fold_add_changes split: option.split)
  ultimately show ?thesis
    unfolding response_fields_def map_append run_fields_append
    by (simp add: fold_add_logs fold_add_changes emptyResult_def)
qed

section \<open>Properties\<close>

text \<open>C26: a simulation request reaches the engine unaltered. If every number of the request fits in 256
  bits, \<^verbatim>\<open>Simulate\<close> makes one call, with bytes that, read by the contract's message definitions, are
  the request again (a nil number being zero), and returns the decoded answer or the transport's
  error. If one does not fit, nothing is sent.\<close>

theorem Simulate_lossless:
  assumes "request_sizes r"
  shows "if request_numbers r
         then \<exists>b. read_request b = Inr (plain_request r) \<and>
                Client_Simulate iv r e = (ebind (fst (iv (svc @ ''Simulate'') b e)) Decode, snd (iv (svc @ ''Simulate'') b e))
         else \<exists>err. Client_Simulate iv r e = (Inl err, e)"
proof (cases "request_numbers r")
  case True
  let ?b = "wire_msg (request_fields r)"
  have "Encode r = Inr ?b" using True Encode_fields by blast
  then have "Client_Simulate iv r e = (ebind (fst (iv (svc @ ''Simulate'') ?b e)) Decode, snd (iv (svc @ ''Simulate'') ?b e))"
    by (cases "iv (svc @ ''Simulate'') ?b e" rule: prod.exhaust)
       (auto simp: Client_Simulate_def split: sum.split)
  with True read_request_encoded [OF True assms] show ?thesis by auto
next
  case False
  then obtain err where "Encode r = Inl err" using Encode_fields by (cases "Encode r") auto
  with False show ?thesis by (simp add: Client_Simulate_def)
qed

theorem Simulate_lossless_witness:
  "\<exists>b. read_request b = Inr
      \<lparr>sr_ChainID = 1337, sr_From = replicate 20 17, sr_To = None, sr_Value = Some 1000, sr_Data = [0xde, 0xad],
       sr_GasLimit = 50000, sr_GasPrice = Some 0,
       sr_State = [\<lparr>ac_Address = replicate 20 17, ac_Balance = Some 7, ac_Nonce = 5, ac_Code = [],
                    ac_Storage = [\<lparr>sl_Key = replicate 32 1, sl_Value = Some 0\<rparr>]\<rparr>],
       sr_BlockNumber = 19, sr_Timestamp = 0\<rparr>"
proof -
  let ?r = "\<lparr>sr_ChainID = 1337, sr_From = replicate 20 17, sr_To = None, sr_Value = Some 1000, sr_Data = [0xde, 0xad],
       sr_GasLimit = 50000, sr_GasPrice = None,
       sr_State = [\<lparr>ac_Address = replicate 20 17, ac_Balance = Some 7, ac_Nonce = 5, ac_Code = [],
                    ac_Storage = [\<lparr>sl_Key = replicate 32 1, sl_Value = None\<rparr>]\<rparr>],
       sr_BlockNumber = 19, sr_Timestamp = 0\<rparr>"
  have bytes: "big_Bytes 7 = [7]" by (simp add: big_Bytes_def le_bytes.simps)
  have "length (wire_msg (account_fields a)) < 2 ^ 31" if "a \<in> set (sr_State ?r)" for a
    using that length_wire_msg_le [of "account_fields a"] length_wire_msg_le [of "slot_fields (hd (ac_Storage a))"]
    by (simp add: account_fields_def slot_fields_def raw_field_def uint_field_def num_of_def bytes)
  then have "request_sizes ?r" by (simp add: request_sizes_def account_sizes_def)
  moreover have "request_numbers ?r" by (simp add: request_numbers_def account_numbers_def in256_def)
  ultimately show ?thesis
    using Simulate_lossless [of ?r "\<lambda>m b e. (Inl ErrNoUpstream, e)" "()"]
    by (simp add: plain_request_def plain_account_def plain_slot_def num_of_def)
qed

text \<open>C27: the engine's verdict is decoded without loss. A response written by the contract's message
  definitions, with logs, topics, balance changes (the balances as 32 bytes, big-endian) and created address, is
  decoded to exactly the values written.\<close>

theorem Decode_response:
  assumes "response_ok x"
  shows "Decode (wire_msg (response_fields x)) = Inr x"
proof -
  have "sm_Outcome x \<noteq> NoOutcome" using assms by (simp add: response_ok_def)
  then show ?thesis
    unfolding Decode_def pb_fold_msg [OF wire_ok_response [OF assms]] run_response [OF assms] by simp
qed

theorem Decode_response_witness:
  "Decode (wire_msg (response_fields
     \<lparr>sm_Outcome = Revert, sm_GasUsed = 21000, sm_Output = [42], sm_Reason = ''no'',
      sm_Logs = [\<lparr>el_Address = replicate 20 34, el_Topics = [[1], []], el_Data = [1]\<rparr>],
      sm_BalanceChanges = [\<lparr>bc_Address = replicate 20 17, bc_Before = 7, bc_After = 0\<rparr>],
      sm_ElapsedUS = 42, sm_Created = Some (replicate 20 51)\<rparr>)) = Inr
     \<lparr>sm_Outcome = Revert, sm_GasUsed = 21000, sm_Output = [42], sm_Reason = ''no'',
      sm_Logs = [\<lparr>el_Address = replicate 20 34, el_Topics = [[1], []], el_Data = [1]\<rparr>],
      sm_BalanceChanges = [\<lparr>bc_Address = replicate 20 17, bc_Before = 7, bc_After = 0\<rparr>],
      sm_ElapsedUS = 42, sm_Created = Some (replicate 20 51)\<rparr>"
proof -
  let ?l = "\<lparr>el_Address = replicate 20 34, el_Topics = [[1], []], el_Data = [1]\<rparr>"
  let ?c = "\<lparr>bc_Address = replicate 20 17, bc_Before = 7, bc_After = 0\<rparr>"
  have log: "log_ok ?l"
    using length_wire_msg_le [of "log_fields ?l"] by (simp add: log_ok_def log_fields_def raw_field_def)
  have "length (be32 7) = 32" "length (be32 0) = 32" by (rule be32_length, simp, simp)+
  then have change: "change_ok ?c"
    using length_wire_msg_le [of "change_fields ?c"] by (auto simp: change_ok_def change_fields_def raw_field_def in256_def)
  show ?thesis by (rule Decode_response) (use log change in \<open>simp add: response_ok_def\<close>)
qed

definition result_wf :: "SimResult \<Rightarrow> bool" where
  "result_wf x \<longleftrightarrow> (\<forall>l \<in> set (sm_Logs x). length (el_Address l) = 20) \<and>
     (\<forall>c \<in> set (sm_BalanceChanges x). length (bc_Address c) = 20 \<and> 0 \<le> bc_Before c \<and> 0 \<le> bc_After c) \<and>
     (\<forall>a. sm_Created x = Some a \<longrightarrow> length a = 20)"

lemma decodeLog_wf: "decodeLog b = Inr l \<Longrightarrow> length (el_Address l) = 20"
  unfolding decodeLog_def
  by (erule pb_fold_invariant [rotated 2, where P = "\<lambda>l. length (el_Address l) = 20"])
     (auto simp: log_field_def ebind_eq_Inr addr_def split: if_splits)

lemma decodeChange_wf: "decodeChange b = Inr c \<Longrightarrow> length (bc_Address c) = 20 \<and> 0 \<le> bc_Before c \<and> 0 \<le> bc_After c"
  unfolding decodeChange_def
  by (erule pb_fold_invariant [rotated 2, where P = "\<lambda>c. length (bc_Address c) = 20 \<and> 0 \<le> bc_Before c \<and> 0 \<le> bc_After c"])
     (auto simp: change_field_def ebind_eq_Inr addr_def big_SetBytes_def split: if_splits)

lemma result_field_wf: "result_wf x \<Longrightarrow> result_field f x = Inr x' \<Longrightarrow> result_wf x'"
  by (auto simp: result_field_def result_wf_def ebind_eq_Inr addr_def decodeLog_wf decodeChange_wf split: if_splits)

text \<open>C28: nothing malformed gets past the decoder. Whatever bytes come back, a result that \<^verbatim>\<open>Decode\<close>
  accepts has one of the three outcomes, 20-byte addresses throughout and unsigned balances.\<close>

theorem Decode_wellformed:
  assumes "Decode b = Inr x"
  shows "sm_Outcome x \<in> {Success, Revert, Halt} \<and> result_wf x"
proof -
  from assms have f: "pb_fold result_field b emptyResult = Inr x" "sm_Outcome x \<noteq> NoOutcome"
    by (auto simp: Decode_def ebind_eq_Inr split: if_splits)
  have "result_wf x"
    by (rule pb_fold_invariant [OF result_field_wf _ f(1)]) (auto simp: result_wf_def emptyResult_def)
  with f(2) show ?thesis by (cases "sm_Outcome x") simp_all
qed

theorem Decode_wellformed_witness:
  "\<exists>x. Decode (wire_msg [WUint 1 3]) = Inr x \<and> sm_Outcome x \<in> {Success, Revert, Halt} \<and> result_wf x"
proof -
  have "Decode (wire_msg [WUint 1 3]) = Inr (emptyResult\<lparr>sm_Outcome := Halt\<rparr>)"
    by (simp add: Decode_def pb_fold_msg result_field_def)
  from Decode_wellformed [OF this] this show ?thesis by blast
qed

end
