(* ===== verification/Ratelimit.thy ===== *)
theory Ratelimit
  imports Complex_Main "HOL-Library.Log_Nat" Prelude
begin

text \<open>
  The token buckets of \<^verbatim>\<open>internal/ratelimit/ratelimit.go\<close>. A finite \<^verbatim>\<open>float64\<close> is a rational number,
  and every floating-point operation is the exact one followed by the rounding function \<open>rnd\<close>, a
  parameter: what is used of it is that it is monotone and keeps zero, and how far off it can be.
\<close>

section \<open>State and operations\<close>

record bucket =
  bk_tokens :: rat
  bk_last :: time

record Limiter =
  lm_rate :: rat
  lm_burst :: rat
  lm_buckets :: "string \<rightharpoonup> bucket"

definition Limiter_New :: "(rat \<Rightarrow> rat) \<Rightarrow> rat \<Rightarrow> int \<Rightarrow> Limiter" where
  "Limiter_New rnd rate burst = \<lparr>lm_rate = rate, lm_burst = rnd (of_int burst), lm_buckets = Map.empty\<rparr>"

text \<open>Truncated division of 64-bit integers, and \<^verbatim>\<open>Duration.Seconds\<close>.\<close>

definition go_quot :: "int \<Rightarrow> int \<Rightarrow> int" where
  "go_quot a b = sgn a * (\<bar>a\<bar> div b)"

definition Seconds :: "(rat \<Rightarrow> rat) \<Rightarrow> duration \<Rightarrow> rat" where
  "Seconds rnd d = rnd (rnd (of_int (go_quot d 1000000000)) + rnd (rnd (of_int (go_rem d 1000000000)) / 1000000000))"

definition refill :: "(rat \<Rightarrow> rat) \<Rightarrow> rat \<Rightarrow> duration \<Rightarrow> rat \<Rightarrow> rat" where
  "refill rnd rate d tokens = rnd (tokens + rnd (Seconds rnd d * rate))"

text \<open>The conversion to a \<^verbatim>\<open>Duration\<close> truncates.\<close>

definition truncate :: "rat \<Rightarrow> int" where
  "truncate x = (if 0 \<le> x then \<lfloor>x\<rfloor> else \<lceil>x\<rceil>)"

definition Limiter_Allow :: "(rat \<Rightarrow> rat) \<Rightarrow> time \<Rightarrow> string \<Rightarrow> Limiter \<Rightarrow> (bool \<times> duration) \<times> Limiter" where
  "Limiter_Allow rnd t key l =
     (let b = (case lm_buckets l key of None \<Rightarrow> \<lparr>bk_tokens = lm_burst l, bk_last = t\<rparr> | Some b \<Rightarrow> b);
          tokens = min (lm_burst l) (refill rnd (lm_rate l) (time_Sub t (bk_last b)) (bk_tokens b))
      in if 1 \<le> tokens
         then ((True, 0), l\<lparr>lm_buckets := (lm_buckets l)(key \<mapsto> \<lparr>bk_tokens = rnd (tokens - 1), bk_last = t\<rparr>)\<rparr>)
         else ((False, truncate (rnd (rnd (rnd (1 - tokens) / lm_rate l) * 1000000000))),
               l\<lparr>lm_buckets := (lm_buckets l)(key \<mapsto> \<lparr>bk_tokens = tokens, bk_last = t\<rparr>)\<rparr>))"

section \<open>Runs\<close>

text \<open>
  A run is a list of calls, each with its time and key. \<open>admitted\<close> counts the calls of one key that
  were let through.
\<close>

fun limiter_run :: "(rat \<Rightarrow> rat) \<Rightarrow> (time \<times> string) list \<Rightarrow> Limiter \<Rightarrow> bool list \<times> Limiter" where
  "limiter_run rnd [] l = ([], l)"
| "limiter_run rnd ((t, k) # cs) l = (case Limiter_Allow rnd t k l of ((ok, w), l1) \<Rightarrow>
     (case limiter_run rnd cs l1 of (oks, l2) \<Rightarrow> (ok # oks, l2)))"

definition admitted :: "string \<Rightarrow> (time \<times> string) list \<Rightarrow> bool list \<Rightarrow> nat" where
  "admitted k cs oks = length (filter (\<lambda>((t, k'), ok). k' = k \<and> ok) (zip cs oks))"

definition calls_of :: "string \<Rightarrow> (time \<times> string) list \<Rightarrow> nat" where
  "calls_of k cs = length (filter (\<lambda>(t, k'). k' = k) cs)"

text \<open>
  The standard model of floating-point arithmetic: below the overflow threshold an operation is off by at most a relative error
  \<open>eps\<close> and, for the smallest numbers, an absolute error \<open>eta\<close>. For \<^verbatim>\<open>float64\<close>, which rounds to nearest, these are \<open>2^-53\<close> and \<open>2^-1075\<close>,
  and numbers are finite far beyond \<open>2^1000\<close>.
\<close>

definition rounds_within :: "(rat \<Rightarrow> rat) \<Rightarrow> rat \<Rightarrow> rat \<Rightarrow> bool" where
  "rounds_within rnd eps eta \<longleftrightarrow> (\<forall>x. \<bar>x\<bar> \<le> 2 ^ 1000 \<longrightarrow> \<bar>rnd x - x\<bar> \<le> eps * \<bar>x\<bar> + eta)"

text \<open>The most that one refill and one withdrawal add: at most \<open>g\<close> tokens a second and \<open>d\<close> for each.\<close>

definition refills_within :: "(rat \<Rightarrow> rat) \<Rightarrow> rat \<Rightarrow> rat \<Rightarrow> rat \<Rightarrow> rat \<Rightarrow> bool" where
  "refills_within rnd rate burst g d \<longleftrightarrow>
     (\<forall>n x. 0 \<le> n \<longrightarrow> n \<le> maxInt64 \<longrightarrow> 0 \<le> x \<longrightarrow> x \<le> burst \<longrightarrow> refill rnd rate n x \<le> x + g * of_int n / 1000000000 + d) \<and>
     (\<forall>x. 1 \<le> x \<longrightarrow> x \<le> burst \<longrightarrow> rnd (x - 1) \<le> x - 1 + d)"

text \<open>What is known of one key's bucket: it holds between nothing and the burst, and was last used in the past.\<close>

definition bucket_ok :: "string \<Rightarrow> time \<Rightarrow> Limiter \<Rightarrow> bool" where
  "bucket_ok k now l \<longleftrightarrow> (\<forall>b. lm_buckets l k = Some b \<longrightarrow> 0 \<le> bk_tokens b \<and> bk_tokens b \<le> lm_burst l \<and> bk_last b \<le> now)"

definition held :: "string \<Rightarrow> Limiter \<Rightarrow> rat" where
  "held k l = (case lm_buckets l k of None \<Rightarrow> lm_burst l | Some b \<Rightarrow> bk_tokens b)"

definition last_use :: "string \<Rightarrow> time \<Rightarrow> Limiter \<Rightarrow> time" where
  "last_use k t l = (case lm_buckets l k of None \<Rightarrow> t | Some b \<Rightarrow> bk_last b)"

text \<open>What IEEE rounding guarantees in every mode: it is monotone, keeps zero and is idempotent.\<close>

definition rounding :: "(rat \<Rightarrow> rat) \<Rightarrow> bool" where
  "rounding rnd \<longleftrightarrow> mono rnd \<and> rnd 0 = 0 \<and> (\<forall>x. rnd (rnd x) = rnd x)"

lemma rounding_nonneg: "rounding rnd \<Longrightarrow> 0 \<le> y \<Longrightarrow> 0 \<le> rnd y"
  unfolding rounding_def by (metis monoD)

lemma refill_nonneg:
  assumes "rounding rnd" and "0 \<le> d" and "0 \<le> rate" and "0 \<le> x"
  shows "0 \<le> refill rnd rate d x"
proof -
  note pos = rounding_nonneg [OF assms(1)]
  have "0 \<le> go_quot d 1000000000" using assms(2) by (simp add: go_quot_def sgn_if)
  moreover have "0 \<le> go_rem d 1000000000" using assms(2) by simp
  ultimately have "0 \<le> Seconds rnd d" unfolding Seconds_def by (intro pos add_nonneg_nonneg divide_nonneg_nonneg) simp_all
  then show ?thesis using assms(3,4) unfolding refill_def by (intro pos add_nonneg_nonneg mult_nonneg_nonneg) simp_all
qed

lemma Allow_other: "k \<noteq> key \<Longrightarrow> lm_buckets (snd (Limiter_Allow rnd t key l)) k = lm_buckets l k"
  by (simp add: Limiter_Allow_def Let_def)

lemma Allow_params [simp]:
  "lm_rate (snd (Limiter_Allow rnd t key l)) = lm_rate l" "lm_burst (snd (Limiter_Allow rnd t key l)) = lm_burst l"
  by (simp_all add: Limiter_Allow_def Let_def)

lemma Allow_step:
  assumes rnd: "rounding rnd" and l: "0 \<le> lm_rate l" "0 \<le> lm_burst l" "rnd (lm_burst l) = lm_burst l"
    and within: "refills_within rnd (lm_rate l) (lm_burst l) g d" "0 \<le> d" "0 \<le> g"
    and ok: "bucket_ok k t l"
  defines "r \<equiv> Limiter_Allow rnd t k l"
  shows "bucket_ok k t (snd r)" and "lm_buckets (snd r) k \<noteq> None" and "last_use k t' (snd r) = t"
    and "held k (snd r) + of_bool (fst (fst r)) \<le>
         held k l + g * of_int (t - last_use k t l) / 1000000000 + 2 * d"
proof -
  let ?n = "time_Sub t (last_use k t l)"
  let ?x = "refill rnd (lm_rate l) ?n (held k l)" and ?m = "min (lm_burst l) (refill rnd (lm_rate l) ?n (held k l))"
  have h: "0 \<le> held k l" "held k l \<le> lm_burst l" "last_use k t l \<le> t"
    using ok l(2) by (auto simp: held_def last_use_def bucket_ok_def split: option.split)
  have n: "0 \<le> ?n" "?n \<le> t - last_use k t l" "?n \<le> maxInt64"
    using h(3) by (auto simp: time_Sub_nonneg time_Sub_def maxInt64_def minInt64_def)
  have x: "0 \<le> ?x" by (rule refill_nonneg [OF rnd n(1) l(1) h(1)])
  have mono: "a \<le> b \<Longrightarrow> rnd a \<le> rnd b" for a b using rnd by (auto simp: rounding_def dest: monoD)
  have "?x \<le> held k l + g * of_int ?n / 1000000000 + d"
    using within(1) h n(1,3) unfolding refills_within_def by blast
  also have "\<dots> \<le> held k l + g * of_int (t - last_use k t l) / 1000000000 + d"
    using n(2) within(3) by (intro add_mono divide_right_mono mult_left_mono) (simp_all del: of_int_diff)
  finally have bound: "?m \<le> held k l + g * of_int (t - last_use k t l) / 1000000000 + d" by simp
  have r: "r = (if 1 \<le> ?m then ((True, 0), l\<lparr>lm_buckets := (lm_buckets l)(k \<mapsto> \<lparr>bk_tokens = rnd (?m - 1), bk_last = t\<rparr>)\<rparr>)
      else ((False, truncate (rnd (rnd (rnd (1 - ?m) / lm_rate l) * 1000000000))),
            l\<lparr>lm_buckets := (lm_buckets l)(k \<mapsto> \<lparr>bk_tokens = ?m, bk_last = t\<rparr>)\<rparr>))"
    unfolding r_def Limiter_Allow_def by (auto simp: Let_def held_def last_use_def split: option.split)
  have draw: "0 \<le> rnd (?m - 1)" "rnd (?m - 1) \<le> ?m - 1 + d" "rnd (?m - 1) \<le> lm_burst l" if "1 \<le> ?m"
  proof -
    show "0 \<le> rnd (?m - 1)" by (rule rounding_nonneg [OF rnd]) (use that in simp)
    show "rnd (?m - 1) \<le> ?m - 1 + d" using that within(1) unfolding refills_within_def by auto
    have "rnd (?m - 1) \<le> rnd (lm_burst l)" by (rule mono) (auto simp: min_def)
    then show "rnd (?m - 1) \<le> lm_burst l" using l(3) by simp
  qed
  show "bucket_ok k t (snd r)" using r draw x l(2) by (auto simp: bucket_ok_def)
  show "lm_buckets (snd r) k \<noteq> None" "last_use k t' (snd r) = t" using r by (simp_all add: last_use_def)
  show "held k (snd r) + of_bool (fst (fst r)) \<le> held k l + g * of_int (t - last_use k t l) / 1000000000 + 2 * d"
    using r draw bound within(2) by (auto simp: held_def)
qed

lemma limiter_run_bound:
  assumes rnd: "rounding rnd" and l: "0 \<le> lm_rate l" "0 \<le> lm_burst l" "rnd (lm_burst l) = lm_burst l"
    and within: "refills_within rnd (lm_rate l) (lm_burst l) g d" "0 \<le> d" "0 \<le> g"
    and ok: "bucket_ok k t0 l" and times: "sorted (t0 # map fst cs)" "\<forall>c \<in> set cs. fst c \<le> te" "t0 \<le> te"
  shows "of_nat (admitted k cs (fst (limiter_run rnd cs l))) \<le>
    held k l + g * of_int (te - last_use k t0 l) / 1000000000 + 2 * d * of_nat (calls_of k cs)"
  using l within ok times
proof (induction cs arbitrary: l t0)
  case Nil
  then have "0 \<le> held k l" "last_use k t0 l \<le> te" by (auto simp: held_def last_use_def bucket_ok_def split: option.split)
  with Nil.prems show ?case by (simp add: admitted_def calls_of_def del: of_int_diff)
next
  case (Cons c cs)
  obtain t key where c: "c = (t, key)" by fastforce
  define r where "r = Limiter_Allow rnd t key l"
  have t: "t0 \<le> t" "t \<le> te" "sorted (t # map fst cs)" "\<forall>c \<in> set cs. fst c \<le> te" using Cons.prems c by auto
  have okt: "bucket_ok k t l" using Cons.prems(7) t(1) by (force simp: bucket_ok_def)
  have params: "lm_rate (snd r) = lm_rate l" "lm_burst (snd r) = lm_burst l" by (simp_all add: r_def)
  have adm: "admitted k (c # cs) (fst (limiter_run rnd (c # cs) l)) =
      of_bool (key = k \<and> fst (fst r)) + admitted k cs (fst (limiter_run rnd cs (snd r)))"
    by (simp add: c r_def split_beta admitted_def)
  have calls: "calls_of k (c # cs) = of_bool (key = k) + calls_of k cs" by (simp add: c calls_of_def)
  have mono: "g * of_int (te - a) / 1000000000 \<le> g * of_int (te - b) / 1000000000" if "b \<le> a" for a b
    using that Cons.prems(6) by (intro divide_right_mono mult_left_mono) (simp_all del: of_int_diff)
  have later: "last_use k t0 l \<le> last_use k t l" using t(1) by (simp add: last_use_def split: option.split)
  show ?case
  proof (cases "key = k")
    case True
    note step = Allow_step [OF rnd Cons.prems(1-6) okt, folded r_def [unfolded True]]
    have "of_nat (admitted k cs (fst (limiter_run rnd cs (snd r)))) \<le>
        held k (snd r) + g * of_int (te - t) / 1000000000 + 2 * d * of_nat (calls_of k cs)"
      using Cons.IH [of "snd r" t] Cons.prems(1-6) step(1,3) t by (simp add: params)
    moreover have "g * of_int (t - last_use k t l) / 1000000000 + g * of_int (te - t) / 1000000000 =
        g * of_int (te - last_use k t l) / 1000000000"
      by (simp add: algebra_simps add_divide_distrib diff_divide_distrib)
    moreover have "2 * d * of_nat (calls_of k (c # cs)) = 2 * d + 2 * d * of_nat (calls_of k cs)"
      using True calls by (simp add: algebra_simps)
    moreover have "of_nat (admitted k (c # cs) (fst (limiter_run rnd (c # cs) l))) =
        of_bool (fst (fst r)) + (of_nat (admitted k cs (fst (limiter_run rnd cs (snd r)))) :: rat)"
      using True adm by simp
    ultimately show ?thesis using step(4) mono [OF later] by linarith
  next
    case False
    have same: "lm_buckets (snd r) k = lm_buckets l k" using False Allow_other r_def by metis
    then have "held k (snd r) = held k l" "last_use k t (snd r) = last_use k t l" "bucket_ok k t (snd r)"
      using okt params by (auto simp: held_def last_use_def bucket_ok_def split: option.split)
    with Cons.IH [of "snd r" t] Cons.prems(1-6) t params
    have "of_nat (admitted k cs (fst (limiter_run rnd cs (snd r)))) \<le>
        held k l + g * of_int (te - last_use k t l) / 1000000000 + 2 * d * of_nat (calls_of k cs)" by simp
    with mono [OF later] False show ?thesis unfolding adm calls by simp
  qed
qed

section \<open>The error of a refill\<close>

lemma rounds_up:
  assumes "rounds_within rnd eps eta" and "0 \<le> x" and "x \<le> 2 ^ 1000"
  shows "rnd x \<le> (1 + eps) * x + eta"
proof -
  have "\<bar>rnd x - x\<bar> \<le> eps * x + eta" using assms unfolding rounds_within_def by (metis abs_of_nonneg)
  then show ?thesis by (simp add: algebra_simps)
qed

lemma Seconds_up:
  assumes r: "rounding rnd" "rounds_within rnd eps eta" and e: "0 \<le> eps" "eps \<le> 1" "0 \<le> eta" "eta \<le> 1"
    and n: "0 \<le> n" "n \<le> maxInt64"
  shows "0 \<le> Seconds rnd n \<and> Seconds rnd n \<le> (1 + eps) ^ 3 * (of_int n / 1000000000) + 7 * eta"
proof -
  define u q m where u: "u = 1 + eps" and "q = (of_int (n div 1000000000) :: rat)" and "m = (of_int (n mod 1000000000) :: rat)"
  note pos = rounding_nonneg [OF r(1)]
  have up: "rnd x \<le> u * x + eta" if "0 \<le> x" "x \<le> 2 ^ 100" for x
    using rounds_up [OF r(2) that(1)] order_trans [OF that(2), of "2 ^ 1000"] by (simp add: u power_increasing)
  have u12: "1 \<le> u" "u \<le> 2" using e by (simp_all add: u)
  have q: "0 \<le> q" "q \<le> 2 ^ 63" and m: "0 \<le> m" "m \<le> 1000000000"
  proof -
    have "n div 1000000000 \<le> 2 ^ 63" using n zdiv_mono2 [of n 1 1000000000] by (simp add: maxInt64_def)
    then show "q \<le> 2 ^ 63" unfolding q_def by (metis of_int_le_iff of_int_numeral of_int_power)
    have "n mod 1000000000 \<le> 1000000000" by (simp add: less_imp_le)
    then show "m \<le> 1000000000" unfolding m_def by (metis of_int_le_iff of_int_numeral)
    show "0 \<le> q" "0 \<le> m" using n by (simp_all add: q_def m_def pos_imp_zdiv_nonneg_iff)
  qed
  have secs: "Seconds rnd n = rnd (rnd q + rnd (rnd m / 1000000000))"
    using n by (simp add: Seconds_def go_quot_def sgn_if q_def m_def)
  have rq: "0 \<le> rnd q" "rnd q \<le> u * q + eta" using q by (auto intro!: pos up)
  have rm: "0 \<le> rnd m" "rnd m \<le> u * m + eta" using m by (auto intro!: pos up)
  have "u * q \<le> 2 * 2 ^ 63" "u * m \<le> 2 * 1000000000" using q m u12 by (intro mult_mono; simp)+
  then have big: "rnd q \<le> 2 ^ 65" "rnd m \<le> 2 ^ 32" using rq(2) rm(2) e by simp_all
  define f where "f = rnd (rnd m / 1000000000)"
  have f: "0 \<le> f" "f \<le> u * (rnd m / 1000000000) + eta" unfolding f_def by (rule pos, use rm(1) in simp, rule up) (use rm(1) big(2) in simp_all)
  have "u * (rnd m / 1000000000) \<le> 2 * 2 ^ 32" using u12 rm(1) big(2) by (intro mult_mono) simp_all
  then have fbig: "f \<le> 2 ^ 34" using f(2) e by simp
  have s: "Seconds rnd n \<le> u * (rnd q + f) + eta" unfolding secs f_def [symmetric] using rq(1) f(1) fbig big(1) by (intro up) simp_all
  have "u * rnd m \<le> u * (u * m + eta)" using rm u12 by (intro mult_left_mono) simp_all
  then have "f \<le> u * (u * m + eta) / 1000000000 + eta" using f(2) by simp
  also have "\<dots> \<le> u ^ 2 * (m / 1000000000) + 2 * eta"
    using mult_right_mono [OF u12(2) e(3)] e(3) by (simp add: power2_eq_square field_simps)
  finally have f2: "f \<le> u ^ 2 * (m / 1000000000) + 2 * eta" .
  have "u * q \<le> u ^ 2 * q" using u12 q mult_right_mono [of 1 u "u * q"] by (simp add: power2_eq_square ac_simps)
  with rq(2) f2 have "rnd q + f \<le> u ^ 2 * (q + m / 1000000000) + 3 * eta" by (simp add: algebra_simps)
  moreover have "q + m / 1000000000 = of_int n / 1000000000"
  proof -
    have "n = 1000000000 * (n div 1000000000) + n mod 1000000000" by simp
    then have "(of_int n :: rat) = 1000000000 * q + m" unfolding q_def m_def by (metis of_int_add of_int_mult of_int_numeral)
    then show ?thesis by (simp add: field_simps)
  qed
  ultimately have "u * (rnd q + f) \<le> u * (u ^ 2 * (of_int n / 1000000000) + 3 * eta)" using u12 by (intro mult_left_mono) simp_all
  also have "\<dots> \<le> u ^ 3 * (of_int n / 1000000000) + 6 * eta"
    using mult_right_mono [OF u12(2) e(3)] by (simp add: algebra_simps power3_eq_cube power2_eq_square)
  finally show ?thesis using s pos [of "rnd q + f"] rq(1) f(1) unfolding u secs f_def by simp
qed

text \<open>Five roundings scale the refill; the rest of the error is relative to the burst, or tiny.\<close>

lemma refill_up:
  assumes r: "rounding rnd" "rounds_within rnd eps eta" and e: "0 \<le> eps" "eps \<le> 1" "0 \<le> eta" "eta \<le> 1"
    and n: "0 \<le> n" "n \<le> maxInt64" and rate: "0 \<le> rate" "rate \<le> 2 ^ 900" and x: "0 \<le> x" "x \<le> 2 ^ 100"
  shows "refill rnd rate n x \<le> x + (1 + eps) ^ 5 * rate * of_int n / 1000000000 + (eps * x + eta * (28 * rate + 3))"
proof -
  define u T where u: "u = 1 + eps" and T: "T = (of_int n / 1000000000 :: rat)"
  have u12: "1 \<le> u" "u \<le> 2" using e by (simp_all add: u)
  have "(of_int n :: rat) \<le> of_int maxInt64" using n(2) by (simp only: of_int_le_iff)
  then have T0: "0 \<le> T" "T \<le> 2 ^ 63" using n(1) by (simp_all add: T maxInt64_def)
  have u3: "u ^ 3 \<le> 2 ^ 3" "0 \<le> u ^ 3" using u12 power_mono [of u 2 3] by simp_all
  have s: "0 \<le> Seconds rnd n" "Seconds rnd n \<le> u ^ 3 * T + 7 * eta" using Seconds_up [OF r e n] by (simp_all add: u T)
  have "u ^ 3 * T \<le> 2 ^ 3 * 2 ^ 63" using u3 T0 by (intro mult_mono) simp_all
  then have sbig: "Seconds rnd n \<le> 2 ^ 70" using s(2) e by simp
  define y where "y = Seconds rnd n * rate"
  have "y \<le> 2 ^ 70 * 2 ^ 900" unfolding y_def using s sbig rate by (intro mult_mono) simp_all
  then have y: "0 \<le> y" "y \<le> 2 ^ 970" using s(1) rate unfolding y_def by (simp_all flip: power_add)
  have ry: "0 \<le> rnd y" "rnd y \<le> u * y + eta"
    using rounding_nonneg [OF r(1) y(1)] rounds_up [OF r(2) y(1)] order_trans [OF y(2), of "2 ^ 1000"] by (simp_all add: u power_increasing)
  have "u * y \<le> 2 * 2 ^ 970" using u12 y by (intro mult_mono) simp_all
  then have "x + rnd y \<le> 2 ^ 100 + 2 * 2 ^ 970 + 1" using x(2) ry(2) e(4) by simp
  also have "\<dots> \<le> 2 ^ 1000" by simp
  finally have "refill rnd rate n x \<le> u * (x + rnd y) + eta"
    unfolding refill_def y_def [symmetric] u using rounds_up [OF r(2)] x(1) ry(1) by simp
  moreover have "u * rnd y \<le> u * (u * y + eta)" using ry(2) u12 by (intro mult_left_mono) simp_all
  moreover have "u * (u * y) \<le> u * (u * ((u ^ 3 * T + 7 * eta) * rate))"
    unfolding y_def using s rate u12 by (intro mult_left_mono mult_right_mono) simp_all
  moreover have "u * (u * (7 * eta * rate)) \<le> 2 * (2 * (7 * eta * rate))" using u12 e rate by (intro mult_mono) simp_all
  moreover have "u * eta \<le> 2 * eta" using u12 e by (intro mult_right_mono) simp_all
  ultimately have "refill rnd rate n x \<le> u * x + u * (u * (u ^ 3 * T * rate)) + 28 * eta * rate + 3 * eta"
    by (simp add: algebra_simps)
  then show ?thesis by (simp add: u T algebra_simps power_def)
qed

lemma limiter_rounding:
  assumes "rounding rnd" "rounds_within rnd eps eta" "0 \<le> eps" "eps \<le> 1" "0 \<le> eta" "eta \<le> 1"
    and "0 \<le> rate" "rate \<le> 2 ^ 900" and "burst \<le> 2 ^ 100"
  shows "refills_within rnd rate burst ((1 + eps) ^ 5 * rate) (eps * burst + eta * (28 * rate + 3))"
proof -
  have "refill rnd rate n x \<le> x + (1 + eps) ^ 5 * rate * of_int n / 1000000000 + (eps * burst + eta * (28 * rate + 3))"
    if "0 \<le> n" "n \<le> maxInt64" "0 \<le> x" "x \<le> burst" for n x
  proof -
    have "eps * x \<le> eps * burst" using that(4) assms(3) by (intro mult_left_mono) simp_all
    moreover have "x \<le> 2 ^ 100" using that(4) assms(9) by (rule order_trans)
    ultimately show ?thesis using refill_up [OF assms(1-6) that(1,2) assms(7,8) that(3)] by linarith
  qed
  moreover have "rnd (x - 1) \<le> x - 1 + (eps * burst + eta * (28 * rate + 3))" if "1 \<le> x" "x \<le> burst" for x
  proof -
    have "eps * (x - 1) \<le> eps * burst" using that assms(3) by (intro mult_left_mono) simp_all
    moreover have "0 \<le> eta * (28 * rate + 2)" using assms(5,7) by simp
    moreover have "x - 1 \<le> 2 ^ 1000" using that(2) assms(9) order_trans [of "x - 1" "2 ^ 100" "2 ^ 1000"] by simp
    from rounds_up [OF assms(2) _ this] have "rnd (x - 1) \<le> (1 + eps) * (x - 1) + eta" using that(1) by simp
    ultimately show ?thesis by (simp add: algebra_simps)
  qed
  ultimately show ?thesis unfolding refills_within_def by blast
qed

section \<open>Properties\<close>

text \<open>C36: the rate limit holds, in floating-point arithmetic. In any run of a new limiter, with calls of any number of clients in any
  interleaving, on a clock that does not go back, a client is let through at most \<open>burst + rate * elapsed\<close> times, where
  rounding may scale the rate by five times the relative error \<open>eps\<close> of an operation and add at most twice \<open>eps * burst\<close> and a
  multiple of the absolute error \<open>eta\<close> for each of its calls. (\<^verbatim>\<open>float64\<close> has \<open>eps = 2^-53\<close> and \<open>eta = 2^-1075\<close>; the rate is
  taken to be below \<open>2^900\<close>, so that nothing overflows. In exact arithmetic both are zero.)\<close>

theorem Limiter_bounds_rate:
  assumes "rounding rnd" and "rounds_within rnd eps eta" and "0 \<le> eps" "eps \<le> 1" "0 \<le> eta" "eta \<le> 1"
    and "0 \<le> rate" "rate \<le> 2 ^ 900" and "0 \<le> burst" "burst \<le> maxInt64"
    and "sorted (t0 # map fst cs @ [te])"
  shows "of_nat (admitted k cs (fst (limiter_run rnd cs (Limiter_New rnd rate burst)))) \<le>
     rnd (of_int burst) + (1 + eps) ^ 5 * rate * of_int (te - t0) / 1000000000 +
     2 * (eps * rnd (of_int burst) + eta * (28 * rate + 3)) * of_nat (calls_of k cs)"
proof -
  let ?l = "Limiter_New rnd rate burst" and ?b = "rnd (of_int burst)"
  have "(of_int burst :: rat) \<le> of_int maxInt64" using assms(10) by (simp only: of_int_le_iff)
  then have b: "(0 :: rat) \<le> of_int burst" "(of_int burst :: rat) \<le> 2 ^ 63" using assms(9) by (simp_all add: maxInt64_def)
  have b0: "0 \<le> ?b" by (rule rounding_nonneg [OF assms(1) b(1)])
  have "(1 + eps) * of_int burst \<le> 2 * 2 ^ 63" using b assms(3,4) by (intro mult_mono) simp_all
  moreover have "?b \<le> (1 + eps) * of_int burst + eta"
    using rounds_up [OF assms(2) b(1)] order_trans [OF b(2), of "2 ^ 1000"] by simp
  ultimately have "?b \<le> 2 ^ 100" using assms(6) by simp
  note within = limiter_rounding [OF assms(1-8) this]
  have "rnd ?b = ?b" using assms(1) by (simp add: rounding_def)
  moreover have "bucket_ok k t0 ?l" by (simp add: bucket_ok_def Limiter_New_def)
  moreover have "sorted (t0 # map fst cs)" "\<forall>c \<in> set cs. fst c \<le> te" "t0 \<le> te" using assms(11) by (auto simp: sorted_append)
  moreover have "0 \<le> eps * ?b + eta * (28 * rate + 3)" "0 \<le> (1 + eps) ^ 5 * rate" using assms(3,5,7) b0 by simp_all
  ultimately have "of_nat (admitted k cs (fst (limiter_run rnd cs ?l))) \<le>
      held k ?l + (1 + eps) ^ 5 * rate * of_int (te - last_use k t0 ?l) / 1000000000 +
      2 * (eps * ?b + eta * (28 * rate + 3)) * of_nat (calls_of k cs)"
    using assms(1,7) within b0 by (intro limiter_run_bound) (simp_all add: Limiter_New_def)
  then show ?thesis by (simp add: Limiter_New_def held_def last_use_def)
qed

text \<open>An example: binary numbers with 53 significant bits, cut off at \<open>2^-53\<close>, rounded towards zero.\<close>

definition ulp53 :: "rat \<Rightarrow> rat" where
  "ulp53 x = 2 ^ floorlog 2 (nat \<lfloor>x\<rfloor>) / 2 ^ 53"

definition trunc53 :: "rat \<Rightarrow> rat" where
  "trunc53 x = of_int \<lfloor>x / ulp53 x\<rfloor> * ulp53 x"

definition round53 :: "rat \<Rightarrow> rat" where
  "round53 x = (if 0 \<le> x then trunc53 x else - trunc53 (- x))"

lemma ulp53_pos: "0 < ulp53 x"
  by (simp add: ulp53_def)

lemma trunc53_le: "trunc53 x \<le> x" "x - trunc53 x < ulp53 x"
proof -
  have "of_int \<lfloor>x / ulp53 x\<rfloor> \<le> x / ulp53 x" "x / ulp53 x < of_int \<lfloor>x / ulp53 x\<rfloor> + 1" by linarith+
  then show "trunc53 x \<le> x" "x - trunc53 x < ulp53 x"
    using ulp53_pos [of x] unfolding trunc53_def by (simp_all only: pos_le_divide_eq pos_divide_less_eq) (simp add: algebra_simps)
qed

text \<open>A multiple of the unit below \<open>x\<close> is below what \<open>x\<close> is rounded to.\<close>

lemma trunc53_ge:
  assumes "of_int z * ulp53 x \<le> x"
  shows "of_int z * ulp53 x \<le> trunc53 x"
proof -
  have "of_int z \<le> x / ulp53 x" using assms ulp53_pos [of x] by (simp add: field_simps)
  then have "z \<le> \<lfloor>x / ulp53 x\<rfloor>" by (simp add: le_floor_iff)
  then show ?thesis unfolding trunc53_def using ulp53_pos [of x] by (intro mult_right_mono) simp_all
qed

lemma ulp53_range:
  assumes "1 \<le> x"
  shows "2 ^ (floorlog 2 (nat \<lfloor>x\<rfloor>) - 1) \<le> x" and "x < 2 ^ floorlog 2 (nat \<lfloor>x\<rfloor>)" and "1 \<le> floorlog 2 (nat \<lfloor>x\<rfloor>)"
proof -
  let ?n = "nat \<lfloor>x\<rfloor>" let ?k = "floorlog 2 ?n"
  have n: "0 < ?n" using assms by (simp add: le_floor_iff)
  from floorlog_bounds [OF n, of 2] have b: "2 ^ (?k - 1) \<le> ?n" "?n < 2 ^ ?k" by simp_all
  show "1 \<le> ?k" using n by (cases ?k) (auto simp: floorlog_eq_zero_iff)
  have "int (2 ^ (?k - 1)) \<le> \<lfloor>x\<rfloor>" "\<lfloor>x\<rfloor> < int (2 ^ ?k)" using b n by linarith+
  then have "of_int (int (2 ^ (?k - 1))) \<le> x" "x < of_int (int (2 ^ ?k))" by (simp_all only: le_floor_iff floor_less_iff)
  then show "2 ^ (?k - 1) \<le> x" "x < 2 ^ ?k" by simp_all
qed

lemma ulp53_small: "0 \<le> x \<Longrightarrow> x < 1 \<Longrightarrow> floorlog 2 (nat \<lfloor>x\<rfloor>) = 0"
proof -
  assume "0 \<le> x" "x < 1"
  then have "\<lfloor>x\<rfloor> = 0" by (simp add: floor_eq_iff)
  then show ?thesis by (simp add: floorlog_eq_zero_iff)
qed

lemma below_power: "0 \<le> x \<Longrightarrow> x < 2 ^ floorlog 2 (nat \<lfloor>x\<rfloor>)"
  using ulp53_range(2) [of x] ulp53_small [of x] by (cases "1 \<le> x") simp_all

lemma trunc53_power:
  assumes "1 \<le> x"
  shows "2 ^ (floorlog 2 (nat \<lfloor>x\<rfloor>) - 1) \<le> trunc53 x"
proof -
  obtain k where k: "floorlog 2 (nat \<lfloor>x\<rfloor>) = Suc k" using ulp53_range(3) [OF assms] by (cases "floorlog 2 (nat \<lfloor>x\<rfloor>)") auto
  have "of_int (2 ^ 52) * ulp53 x = 2 ^ k" by (simp add: ulp53_def k)
  with trunc53_ge [of "2 ^ 52" x] ulp53_range(1) [OF assms] show ?thesis by (simp add: k)
qed

lemma trunc53_mono:
  assumes "0 \<le> x" and "x \<le> y"
  shows "trunc53 x \<le> trunc53 y"
proof -
  let ?E = "\<lambda>x. floorlog 2 (nat \<lfloor>x\<rfloor>)"
  have "?E x \<le> ?E y" using assms by (intro floorlog_mono nat_mono floor_mono)
  then consider "?E x = ?E y" | "?E x < ?E y" by linarith
  then show ?thesis
  proof cases
    case 1
    then have u: "ulp53 y = ulp53 x" by (simp add: ulp53_def)
    have "\<lfloor>x / ulp53 x\<rfloor> \<le> \<lfloor>y / ulp53 x\<rfloor>" using assms(2) ulp53_pos [of x] by (intro floor_mono divide_right_mono) simp_all
    then show ?thesis unfolding trunc53_def u using ulp53_pos [of x] by (intro mult_right_mono) simp_all
  next
    case 2
    then have "1 \<le> y" using ulp53_small [of y] assms by (cases "1 \<le> y") simp_all
    have "trunc53 x \<le> 2 ^ ?E x" using trunc53_le(1) [of x] below_power [OF assms(1)] by linarith
    also have "\<dots> \<le> 2 ^ (?E y - 1)" using 2 by (intro power_increasing) simp_all
    also have "\<dots> \<le> trunc53 y" by (rule trunc53_power [OF \<open>1 \<le> y\<close>])
    finally show ?thesis .
  qed
qed

lemma trunc53_0 [simp]: "trunc53 0 = 0"
  by (simp add: trunc53_def)

lemma trunc53_idem:
  assumes "0 \<le> x"
  shows "trunc53 (trunc53 x) = trunc53 x"
proof -
  let ?E = "\<lambda>x. floorlog 2 (nat \<lfloor>x\<rfloor>)" and ?y = "trunc53 x"
  have y: "0 \<le> ?y" "?y \<le> x" using trunc53_mono [of 0 x] trunc53_le(1) [of x] assms by simp_all
  have "?E ?y = ?E x"
  proof (cases "1 \<le> x")
    case True
    have "(2 :: rat) ^ (?E x - 1) < 2 ^ ?E ?y" using trunc53_power [OF True] below_power [OF y(1)] by linarith
    then have "?E x - 1 < ?E ?y" by simp
    moreover have "?E ?y \<le> ?E x" using y(2) by (intro floorlog_mono nat_mono floor_mono)
    ultimately show ?thesis by linarith
  next
    case False
    then show ?thesis using ulp53_small [of x] ulp53_small [of ?y] y assms by simp
  qed
  then have "ulp53 ?y = ulp53 x" by (simp add: ulp53_def)
  then have "?y = of_int \<lfloor>x / ulp53 x\<rfloor> * ulp53 ?y" by (simp add: trunc53_def)
  with trunc53_ge [of "\<lfloor>x / ulp53 x\<rfloor>" ?y] trunc53_le(1) [of ?y] show ?thesis by simp
qed

lemma trunc53_error:
  assumes "0 \<le> x"
  shows "\<bar>trunc53 x - x\<bar> \<le> x / 2 ^ 52 + 1 / 2 ^ 53"
proof -
  have "ulp53 x \<le> x / 2 ^ 52 + 1 / 2 ^ 53"
  proof (cases "1 \<le> x")
    case True
    obtain k where k: "floorlog 2 (nat \<lfloor>x\<rfloor>) = Suc k" using ulp53_range(3) [OF True] by (cases "floorlog 2 (nat \<lfloor>x\<rfloor>)") auto
    then have "2 ^ k \<le> x" using ulp53_range(1) [OF True] by simp
    then show ?thesis by (simp add: ulp53_def k)
  next
    case False
    then show ?thesis using ulp53_small [of x] assms by (simp add: ulp53_def)
  qed
  then show ?thesis using trunc53_le [of x] by linarith
qed

lemma round53_rounding: "rounding round53"
proof -
  have pos: "0 \<le> trunc53 x" if "0 \<le> x" for x using trunc53_mono [of 0 x] that by simp
  have "mono round53"
  proof (rule monoI)
    fix x y :: rat assume "x \<le> y"
    then show "round53 x \<le> round53 y"
      using trunc53_mono [of x y] trunc53_mono [of "- y" "- x"] pos [of y] pos [of "- x"] by (auto simp: round53_def)
  qed
  moreover have "round53 (round53 x) = round53 x" for x
    using pos [of x] pos [of "- x"] trunc53_idem [of x] trunc53_idem [of "- x"] by (auto simp: round53_def)
  ultimately show ?thesis by (simp add: rounding_def round53_def)
qed

lemma round53_within: "rounds_within round53 (1 / 2 ^ 52) (1 / 2 ^ 53)"
proof -
  have "\<bar>round53 x - x\<bar> \<le> 1 / 2 ^ 52 * \<bar>x\<bar> + 1 / 2 ^ 53" for x
  proof (cases "0 \<le> x")
    case False
    have "\<bar>- trunc53 (- x) - x\<bar> = \<bar>trunc53 (- x) - - x\<bar>" by linarith
    with False trunc53_error [of "- x"] show ?thesis by (simp add: round53_def)
  qed (use trunc53_error [of x] in \<open>simp add: round53_def\<close>)
  then show ?thesis by (simp add: rounds_within_def)
qed

theorem Limiter_bounds_rate_witness:
  "of_nat (admitted ''a'' [(0, ''a''), (1, ''a''), (2, ''b''), (3, ''a'')]
     (fst (limiter_run round53 [(0, ''a''), (1, ''a''), (2, ''b''), (3, ''a'')] (Limiter_New round53 5 2)))) \<le>
   round53 2 + (1 + 1 / 2 ^ 52) ^ 5 * 5 * 1000000000 / 1000000000 + 2 * (1 / 2 ^ 52 * round53 2 + 1 / 2 ^ 53 * (28 * 5 + 3)) * 3"
  using Limiter_bounds_rate [OF round53_rounding round53_within, of 5 2 0 "[(0, ''a''), (1, ''a''), (2, ''b''), (3, ''a'')]" 1000000000 "''a''"]
  by (simp add: calls_of_def maxInt64_def)

end
