(* ===== verification/Grpcx.thy ===== *)
theory Grpcx
  imports Http Json Engineclient Ratelimit
begin

text \<open>
  The unary gRPC client of \<^verbatim>\<open>internal/grpcx/grpcx.go\<close>: choosing a transport, framing a request,
  and taking a response apart, with the gRPC status in the trailers or, for a trailers-only response,
  in the headers. The HTTP client is a parameter, and so is the text of an error.

  \<open>Invoke\<close> is the transport the engine client is used with.
\<close>

section \<open>Dialling\<close>

datatype Transport = UnixSocket string | PlainHTTP2 | MutualTLS

record GrpcClient =
  gr_transport :: Transport
  gr_base :: string

text \<open>\<open>tls\<close> says whether a TLS configuration is given.\<close>

definition Dial :: "string \<Rightarrow> bool \<Rightarrow> gerror + GrpcClient" where
  "Dial target tls =
     (if HasPrefix target ''unix://'' then
        (let path = TrimPrefix target ''unix://'' in
         if path = [] then Inl (OtherErr ''grpcx: empty unix socket path'')
         else Inr \<lparr>gr_transport = UnixSocket path, gr_base = ''http://engine.local''\<rparr>)
      else if HasPrefix target ''h2c://'' then
        Inr \<lparr>gr_transport = PlainHTTP2, gr_base = ''http://'' @ TrimPrefix target ''h2c://''\<rparr>
      else if target = [] then Inl (OtherErr ''grpcx: empty target'')
      else if \<not> tls then Inl (OtherErr ''grpcx: TCP targets require mTLS (or use h2c:// for local development)'')
      else Inr \<lparr>gr_transport = MutualTLS, gr_base = ''https://'' @ target\<rparr>)"

section \<open>Frames\<close>

definition MaxMessage :: nat where
  "MaxMessage = 4 * 2 ^ 20"

text \<open>\<^verbatim>\<open>binary.BigEndian\<close> on four bytes.\<close>

definition be_PutUint32 :: "u32 \<Rightarrow> bytes" where
  "be_PutUint32 v = (let n = unat v in
     [word_of_nat (n div 16777216), word_of_nat (n div 65536 mod 256), word_of_nat (n div 256 mod 256), word_of_nat (n mod 256)])"

definition be_Uint32 :: "bytes \<Rightarrow> u32" where
  "be_Uint32 b = word_of_nat (((unat (b ! 0) * 256 + unat (b ! 1)) * 256 + unat (b ! 2)) * 256 + unat (b ! 3))"

definition grpc_frame :: "bytes \<Rightarrow> bytes" where
  "grpc_frame req = 0 # be_PutUint32 (word_of_nat (length req)) @ req"

definition grpc_unframe :: "bytes \<Rightarrow> gerror + bytes" where
  "grpc_unframe body =
     (if length body < 5 \<or> body ! 0 \<noteq> 0 then Inl (GrpcStatus 13 ''malformed or compressed response frame'')
      else let n = unat (be_Uint32 (take 4 (drop 1 body))) in
        if n > MaxMessage \<or> n \<noteq> length body - 5 then Inl (GrpcStatus 13 ''response frame length mismatch'')
        else Inr (drop 5 body))"

section \<open>Calls\<close>

definition ctxStatus :: "(gerror \<Rightarrow> string) \<Rightarrow> gerror \<Rightarrow> gerror" where
  "ctxStatus etext err =
     (if err = ErrDeadlineExceeded then GrpcStatus 4 ''deadline exceeded''
      else if err = ErrCanceled then GrpcStatus 1 ''canceled''
      else GrpcStatus 14 (etext err))"

text \<open>The time left, in whole milliseconds and at least one.\<close>

definition grpc_timeout :: "time option \<Rightarrow> time \<Rightarrow> (string \<times> string) list" where
  "grpc_timeout deadline now = (case deadline of
     None \<Rightarrow> []
   | Some dl \<Rightarrow> [(''Grpc-Timeout'', big_String (max 1 (go_quot (time_Sub dl now) 1000000)) @ ''m'')])"

definition grpc_request :: "GrpcClient \<Rightarrow> time option \<Rightarrow> time \<Rightarrow> string \<Rightarrow> bytes \<Rightarrow> HttpReq" where
  "grpc_request c deadline now method req = \<lparr>rq_method = ''POST'', rq_url = gr_base c @ method,
     rq_header = [(''Content-Type'', ''application/grpc''), (''TE'', ''trailers''), (''User-Agent'', ''chainforge-gateway'')] @
       grpc_timeout deadline now,
     rq_body = grpc_frame req\<rparr>"

text \<open>\<^verbatim>\<open>url.PathUnescape\<close>.\<close>

fun PathUnescape :: "string \<Rightarrow> string option" where
  "PathUnescape [] = Some []"
| "PathUnescape (c # s) =
     (if c = CHR ''%'' then
        (case s of
           a # b # t \<Rightarrow> (case (hex_val a, hex_val b) of
             (Some x, Some y) \<Rightarrow> map_option ((#) (char_of (16 * x + y))) (PathUnescape t)
           | _ \<Rightarrow> None)
         | _ \<Rightarrow> None)
      else map_option ((#) c) (PathUnescape s))"

text \<open>The status and its message: from the trailers, or from the headers if the trailers have none.\<close>

definition grpc_status :: "HttpResp \<Rightarrow> string \<times> string" where
  "grpc_status resp = (if rs_trailer resp ''Grpc-Status'' = []
     then (rs_header resp ''Grpc-Status'', rs_header resp ''Grpc-Message'')
     else (rs_trailer resp ''Grpc-Status'', rs_trailer resp ''Grpc-Message''))"

definition grpc_reply :: "(gerror \<Rightarrow> string) \<Rightarrow> HttpResp \<Rightarrow> gerror + bytes" where
  "grpc_reply etext resp = (case read_limited (MaxMessage + 5 + 1) (rs_body resp) of
     Inl err \<Rightarrow> Inl (ctxStatus etext err)
   | Inr body \<Rightarrow>
       if rs_status resp \<noteq> 200 then Inl (GrpcStatus 14 (''http '' @ big_String (rs_status resp)))
       else (case grpc_status resp of (raw, msg) \<Rightarrow>
         if raw = [] then Inl (GrpcStatus 2 ''missing grpc-status'')
         else (case Atoi raw of
            Inl err \<Rightarrow> Inl (GrpcStatus 2 ''malformed grpc-status'')
          | Inr code \<Rightarrow>
              if code \<noteq> 0 then Inl (GrpcStatus code (case PathUnescape msg of Some m \<Rightarrow> m | None \<Rightarrow> msg))
              else grpc_unframe body)))"

definition Grpc_Invoke ::
  "(gerror \<Rightarrow> string) \<Rightarrow> 'e HttpClient \<Rightarrow> GrpcClient \<Rightarrow> time option \<Rightarrow> 'e Invoker" where
  "Grpc_Invoke etext hc c deadline method req e = (case hc_newreq hc (gr_base c @ method) of
     Some err \<Rightarrow> (Inl (GrpcStatus 13 (etext err)), e)
   | None \<Rightarrow> (case hc_do hc (grpc_request c deadline (hc_now hc e) method req) e of
       (Inl err, e') \<Rightarrow> (Inl (ctxStatus etext err), e')
     | (Inr resp, e') \<Rightarrow> (grpc_reply etext resp, e')))"

section \<open>Lemmas\<close>

lemma be_Uint32_Put: "be_Uint32 (be_PutUint32 v) = v"
proof -
  define n where "n = unat v"
  have n: "n < 4294967296" using unsigned_less [of v, where 'a = nat] by (simp add: n_def)
  have "n div 16777216 < 256" using n by linarith
  then have b: "unat (word_of_nat (n div 16777216) :: byte) = n div 16777216" by (simp add: unat_of_nat)
  have m: "unat (word_of_nat (k mod 256) :: byte) = k mod 256" for k by (simp add: unat_of_nat)
  have d: "n div 16777216 = n div 256 div 256 div 256" "n div 65536 = n div 256 div 256" by (simp_all flip: div_mult2_eq)
  have "((n div 16777216 * 256 + n div 65536 mod 256) * 256 + n div 256 mod 256) * 256 + n mod 256 = n"
    unfolding d by simp
  then show ?thesis by (simp add: be_Uint32_def be_PutUint32_def Let_def m b flip: n_def) (simp add: n_def)
qed

lemma length_Put32 [simp]: "length (be_PutUint32 v) = 4"
  by (simp add: be_PutUint32_def Let_def)

lemma unframe_frame:
  assumes "length out \<le> MaxMessage"
  shows "grpc_unframe (grpc_frame out) = Inr out"
proof -
  have "unat (word_of_nat (length out) :: u32) = length out" using assms by (simp add: MaxMessage_def unat_of_nat)
  with assms show ?thesis by (simp add: grpc_unframe_def grpc_frame_def be_Uint32_Put Let_def)
qed

lemma Put32_be_Uint32:
  assumes "length b = 4"
  shows "be_PutUint32 (be_Uint32 b) = b"
proof -
  obtain w x y z where b: "b = [w, x, y, z]" using assms by (auto simp: length_Suc_conv eval_nat_numeral)
  have less: "unat w < 256" "unat x < 256" "unat y < 256" "unat z < 256" by (rule unat_byte_less)+
  define n where "n = ((unat w * 256 + unat x) * 256 + unat y) * 256 + unat z"
  have step: "i < m \<Longrightarrow> j < 256 \<Longrightarrow> i * 256 + j < m * 256" for i j m :: nat by linarith
  have "n < 256 * 256 * 256 * 256" unfolding n_def by (intro step less)
  then have "unat (word_of_nat n :: u32) = n" by (simp add: unat_of_nat)
  moreover have "be_Uint32 b = word_of_nat n" unfolding be_Uint32_def b n_def by simp
  ultimately have "unat (be_Uint32 b) = n" by simp
  moreover have "n div 16777216 = unat w" "n div 65536 mod 256 = unat x" "n div 256 mod 256 = unat y" "n mod 256 = unat z"
  proof -
    have dm: "(i * 256 + j) div 256 = i" "(i * 256 + j) mod 256 = j" if "j < 256" for i j :: nat using that by simp_all
    have "n div 16777216 = n div 256 div 256 div 256" "n div 65536 = n div 256 div 256" by (simp_all flip: div_mult2_eq)
    then show "n div 16777216 = unat w" "n div 65536 mod 256 = unat x" "n div 256 mod 256 = unat y" "n mod 256 = unat z"
      using less(1) unfolding n_def by (simp_all only: dm less mod_less)
  qed
  ultimately show ?thesis by (simp add: be_PutUint32_def b Let_def)
qed

section \<open>Properties\<close>

lemma unframe_eq_Inr: "grpc_unframe body = Inr out \<longleftrightarrow> length out \<le> MaxMessage \<and> body = grpc_frame out"
proof
  assume ok: "grpc_unframe body = Inr out"
  let ?b = "take 4 (drop 1 body)"
  have body: "\<not> length body < 5" "body ! 0 = 0" "unat (be_Uint32 ?b) \<le> MaxMessage" "unat (be_Uint32 ?b) = length body - 5"
    "out = drop 5 body"
    using ok by (auto simp: grpc_unframe_def Let_def split: if_splits)
  have "length ?b = 4" using body(1) by simp
  moreover have "be_Uint32 ?b = word_of_nat (length out)" using body(4,5) by (simp flip: body(4))
  ultimately have "be_PutUint32 (word_of_nat (length out)) = ?b" using Put32_be_Uint32 by metis
  moreover have "body = body ! 0 # ?b @ drop 5 body"
    using body(1) append_take_drop_id [of 4 "drop 1 body"] by (cases body) simp_all
  ultimately show "length out \<le> MaxMessage \<and> body = grpc_frame out" using body by (simp add: grpc_frame_def)
qed (simp add: unframe_frame)

lemma read_frame:
  assumes "length out \<le> MaxMessage"
  shows "read_limited (MaxMessage + 5 + 1) (bs, err) = Inr (grpc_frame out) \<longleftrightarrow> bs = grpc_frame out \<and> err = None"
proof -
  have "length (grpc_frame out) < MaxMessage + 5 + 1" using assms by (simp add: grpc_frame_def)
  then have "take (MaxMessage + 5 + 1) bs \<noteq> grpc_frame out" if "MaxMessage + 5 + 1 \<le> length bs"
    using that by (metis length_take min.absorb2 nat_less_le)
  moreover have "bs \<noteq> grpc_frame out" if "MaxMessage + 5 + 1 \<le> length bs"
    using that \<open>length (grpc_frame out) < _\<close> by auto
  ultimately show ?thesis by (auto simp: read_limited_def split: option.split if_splits)
qed

lemma reply_errors: "grpc_reply etext resp = Inl err \<Longrightarrow> \<exists>code m. err = GrpcStatus code m"
  by (auto simp: grpc_reply_def ctxStatus_def grpc_unframe_def Let_def split: sum.splits if_splits prod.splits)

text \<open>C31: what \<^verbatim>\<open>Invoke\<close> delivers. It returns a message exactly if the request could be built, the one POST
  with the framed request was answered with status 200 and gRPC status 0, and the whole body is one
  uncompressed frame of that message, of at most 4 MiB, read to its end without an error. In every
  other case the error is a gRPC status, which is what the server's error mapping takes apart.\<close>

theorem Invoke_exact:
  "(Grpc_Invoke etext hc c deadline method req e = (Inr out, e') \<longleftrightarrow>
     (\<exists>resp. hc_newreq hc (gr_base c @ method) = None \<and>
        hc_do hc (grpc_request c deadline (hc_now hc e) method req) e = (Inr resp, e') \<and>
        rs_status resp = 200 \<and> Atoi (fst (grpc_status resp)) = Inr 0 \<and> length out \<le> MaxMessage \<and> rs_body resp = (grpc_frame out, None))) \<and>
   (\<exists>r code m. fst (Grpc_Invoke etext hc c deadline method req e) \<in> {Inr r, Inl (GrpcStatus code m)})"
proof
  have atoi: "Atoi [] \<noteq> Inr v" for v by (simp add: Atoi_def big_SetString_def)
  have reply: "grpc_reply etext resp = Inr out \<longleftrightarrow> rs_status resp = 200 \<and> Atoi (fst (grpc_status resp)) = Inr 0 \<and>
      length out \<le> MaxMessage \<and> rs_body resp = (grpc_frame out, None)" for resp
  proof -
    obtain bs err where b: "rs_body resp = (bs, err)" by fastforce
    have "grpc_reply etext resp = Inr out \<longleftrightarrow> rs_status resp = 200 \<and> Atoi (fst (grpc_status resp)) = Inr 0 \<and>
        (\<exists>body. read_limited (MaxMessage + 5 + 1) (bs, err) = Inr body \<and> grpc_unframe body = Inr out)"
      using atoi [of 0] by (auto simp: grpc_reply_def b split_beta split: sum.splits)
    with read_frame [of out bs err] show ?thesis by (auto simp: unframe_eq_Inr b)
  qed
  show "Grpc_Invoke etext hc c deadline method req e = (Inr out, e') \<longleftrightarrow>
     (\<exists>resp. hc_newreq hc (gr_base c @ method) = None \<and>
        hc_do hc (grpc_request c deadline (hc_now hc e) method req) e = (Inr resp, e') \<and>
        rs_status resp = 200 \<and> Atoi (fst (grpc_status resp)) = Inr 0 \<and> length out \<le> MaxMessage \<and> rs_body resp = (grpc_frame out, None))"
    by (auto simp: Grpc_Invoke_def reply split: option.splits prod.splits sum.splits)
  have "\<exists>code m. err = GrpcStatus code m" if "fst (Grpc_Invoke etext hc c deadline method req e) = Inl err" for err
    using that by (auto simp: Grpc_Invoke_def ctxStatus_def dest: reply_errors split: option.splits prod.splits sum.splits if_splits)
  then show "\<exists>r code m. fst (Grpc_Invoke etext hc c deadline method req e) \<in> {Inr r, Inl (GrpcStatus code m)}"
    by (cases "fst (Grpc_Invoke etext hc c deadline method req e)") auto
qed

end
