(* ===== verification/Appconfig.thy ===== *)
theory Appconfig
  imports Jsonrpc Grpcx "HOL-Library.AList"
begin

text \<open>
  The configuration of the processes, \<^verbatim>\<open>internal/app/app.go\<close>: reading and validating the environment,
  the TLS material for the engine, and dialling it. The environment is the argument \<open>getenv\<close>. The
  parsers of floating-point numbers and durations are parameters, so is the loading of certificates.
\<close>

section \<open>Strings\<close>

text \<open>\<^verbatim>\<open>strings.Split\<close> by one character, \<^verbatim>\<open>strings.TrimSpace\<close> and \<^verbatim>\<open>strings.Cut\<close>.\<close>

fun strings_Split :: "char \<Rightarrow> string \<Rightarrow> string list" where
  "strings_Split c [] = [[]]"
| "strings_Split c (x # s) =
     (if x = c then [] # strings_Split c s
      else (case strings_Split c s of [] \<Rightarrow> [[x]] | w # ws \<Rightarrow> (x # w) # ws))"

definition strings_TrimSpace :: "string \<Rightarrow> string" where
  "strings_TrimSpace s = string_of (bytes_TrimSpace (bytes_of s))"

definition strings_Cut :: "char \<Rightarrow> string \<Rightarrow> (string \<times> string) option" where
  "strings_Cut c s = (if c \<in> set s then Some (takeWhile (\<lambda>x. x \<noteq> c) s, tl (dropWhile (\<lambda>x. x \<noteq> c) s)) else None)"

section \<open>Loading\<close>

text \<open>A \<^verbatim>\<open>float64\<close> that was parsed, which may be no finite number.\<close>

datatype gofloat = Fin rat | PosInf | NegInf | NaN

fun le_zero :: "gofloat \<Rightarrow> bool" where
  "le_zero (Fin x) = (x \<le> 0)"
| "le_zero PosInf = False"
| "le_zero NegInf = True"
| "le_zero NaN = False"

record Parsers =
  ps_ParseFloat :: "string \<Rightarrow> gofloat option"
  ps_ParseDuration :: "string \<Rightarrow> duration option"

record Config =
  cf_Addr :: string
  cf_Upstreams :: "string list"
  cf_APIKeys :: "(string \<times> string) list"
  cf_SignerURL :: string
  cf_SignerSecret :: string
  cf_RateRPS :: gofloat
  cf_RateBurst :: int
  cf_CORSOrigin :: string
  cf_Poll :: duration
  cf_HooksPrivate :: bool
  cf_Chain :: string
  cf_EngineAddr :: string
  cf_EngineCert :: string
  cf_EngineKey :: string
  cf_EngineCA :: string
  cf_EngineServerName :: string
  cf_RelayURLs :: "string list"

definition go_or :: "string \<Rightarrow> string \<Rightarrow> string" where
  "go_or v d = (if v = [] then d else v)"

definition url_list :: "string \<Rightarrow> string list" where
  "url_list v = filter (\<lambda>u. u \<noteq> []) (map strings_TrimSpace (strings_Split (CHR '','') v))"

text \<open>One round of the loop over \<^verbatim>\<open>GATEWAY_API_KEYS\<close>; the map from keys to names as an association list.\<close>

definition add_key :: "string \<Rightarrow> (string \<times> string) list \<Rightarrow> (string \<times> string) list" where
  "add_key kv m = (case strings_Cut (CHR ''='') (strings_TrimSpace kv) of
     None \<Rightarrow> m
   | Some (name, key) \<Rightarrow> if name \<noteq> [] \<and> length key \<ge> 8 then AList.update key name m else m)"

definition api_keys :: "string \<Rightarrow> (string \<times> string) list" where
  "api_keys v = fold add_key (strings_Split (CHR '','') v) []"

definition tls_set :: "string list \<Rightarrow> nat" where
  "tls_set vs = length (filter (\<lambda>v. v \<noteq> []) vs)"

text \<open>The quoted message of \<^verbatim>\<open>GATEWAY_CHAIN\<close>.\<close>

definition chain_message :: string where
  "chain_message = ''GATEWAY_CHAIN must be '' @ [CHR 0x22] @ ''evm'' @ [CHR 0x22] @ '' or '' @ [CHR 0x22] @ ''solana'' @ [CHR 0x22]"

definition require :: "bool \<Rightarrow> string \<Rightarrow> gerror + unit" where
  "require b m = (if b then Inr () else Inl (OtherErr m))"

definition LoadConfig :: "Parsers \<Rightarrow> (string \<Rightarrow> string) \<Rightarrow> gerror + Config" where
  "LoadConfig P getenv =
     (let ups = url_list (getenv ''GATEWAY_UPSTREAMS''); keys = api_keys (getenv ''GATEWAY_API_KEYS'');
          secret = getenv ''SIGNER_SHARED_SECRET''; chain = go_or (getenv ''GATEWAY_CHAIN'') ''evm'';
          tls = [getenv ''ENGINE_TLS_CERT'', getenv ''ENGINE_TLS_KEY'', getenv ''ENGINE_TLS_CA'']
      in ebind (require (ups \<noteq> []) ''GATEWAY_UPSTREAMS is required'') (\<lambda>_.
         ebind (require (keys \<noteq> []) ''GATEWAY_API_KEYS must contain name=key pairs (key >= 8 chars)'') (\<lambda>_.
         ebind (require (length secret \<ge> 16) ''SIGNER_SHARED_SECRET must be >= 16 chars'') (\<lambda>_.
         case ps_ParseFloat P (go_or (getenv ''RATE_LIMIT_RPS'') ''50'') of
           None \<Rightarrow> Inl (OtherErr ''RATE_LIMIT_RPS must be a positive number'')
         | Some rps \<Rightarrow>
         ebind (require (\<not> le_zero rps) ''RATE_LIMIT_RPS must be a positive number'') (\<lambda>_.
         case Atoi (go_or (getenv ''RATE_LIMIT_BURST'') ''100'') of
           Inl err \<Rightarrow> Inl (OtherErr ''RATE_LIMIT_BURST must be a positive integer'')
         | Inr burst \<Rightarrow>
         ebind (require (\<not> burst < 1) ''RATE_LIMIT_BURST must be a positive integer'') (\<lambda>_.
         case ps_ParseDuration P (go_or (getenv ''POLL_INTERVAL'') ''1s'') of
           None \<Rightarrow> Inl (OtherErr ''POLL_INTERVAL must be a positive duration'')
         | Some poll \<Rightarrow>
         ebind (require (\<not> poll \<le> 0) ''POLL_INTERVAL must be a positive duration'') (\<lambda>_.
         ebind (require (chain = ''evm'' \<or> chain = ''solana'') chain_message) (\<lambda>_.
         ebind (require (tls_set tls = 0 \<or> tls_set tls = 3) ''ENGINE_TLS_CERT, ENGINE_TLS_KEY and ENGINE_TLS_CA must be set together'') (\<lambda>_.
         Inr \<lparr>cf_Addr = go_or (getenv ''GATEWAY_ADDR'') '':8080'', cf_Upstreams = ups, cf_APIKeys = keys,
              cf_SignerURL = go_or (getenv ''SIGNER_URL'') ''http://localhost:8081'', cf_SignerSecret = secret,
              cf_RateRPS = rps, cf_RateBurst = burst, cf_CORSOrigin = getenv ''CORS_ORIGIN'', cf_Poll = poll,
              cf_HooksPrivate = (getenv ''WEBHOOK_ALLOW_PRIVATE'' = ''true''), cf_Chain = chain,
              cf_EngineAddr = getenv ''ENGINE_ADDR'', cf_EngineCert = tls ! 0, cf_EngineKey = tls ! 1, cf_EngineCA = tls ! 2,
              cf_EngineServerName = go_or (getenv ''ENGINE_SERVER_NAME'') ''engine'',
              cf_RelayURLs = url_list (getenv ''RELAY_URLS'')\<rparr>)))))))))"

section \<open>The engine's connection\<close>

text \<open>
  \<open>tf_pair\<close> is \<^verbatim>\<open>tls.LoadX509KeyPair\<close>, \<open>tf_read\<close> is \<^verbatim>\<open>os.ReadFile\<close>, and \<open>tf_pem\<close> says whether
  \<^verbatim>\<open>AppendCertsFromPEM\<close> found a certificate.
\<close>

record TlsFiles =
  tf_pair :: "string \<Rightarrow> string \<Rightarrow> gerror + bytes"
  tf_read :: "string \<Rightarrow> gerror + bytes"
  tf_pem :: "bytes \<Rightarrow> bool"

record TlsConfig =
  tc_Certificate :: bytes
  tc_RootCAs :: bytes
  tc_ServerName :: string
  tc_MinVersion :: nat

definition VersionTLS13 :: nat where
  "VersionTLS13 = 0x0304"

definition engineTLS :: "(gerror \<Rightarrow> string) \<Rightarrow> TlsFiles \<Rightarrow> Config \<Rightarrow> gerror + TlsConfig option" where
  "engineTLS etext F c =
     (if cf_EngineCert c = [] then Inr None
      else case tf_pair F (cf_EngineCert c) (cf_EngineKey c) of
        Inl err \<Rightarrow> Inl (OtherErr (''engine client certificate: '' @ etext err))
      | Inr pair \<Rightarrow> (case tf_read F (cf_EngineCA c) of
          Inl err \<Rightarrow> Inl (OtherErr (''engine CA: '' @ etext err))
        | Inr ca \<Rightarrow>
            if \<not> tf_pem F ca then Inl (OtherErr ''engine CA: no certificates found'')
            else Inr (Some \<lparr>tc_Certificate = pair, tc_RootCAs = ca, tc_ServerName = cf_EngineServerName c, tc_MinVersion = VersionTLS13\<rparr>)))"

definition dialEngine :: "(gerror \<Rightarrow> string) \<Rightarrow> TlsFiles \<Rightarrow> Config \<Rightarrow> gerror + GrpcClient option" where
  "dialEngine etext F c =
     (if cf_EngineAddr c = [] then Inr None
      else ebind (engineTLS etext F c) (\<lambda>tc. ebind (Dial (cf_EngineAddr c) (tc \<noteq> None)) (\<lambda>g. Inr (Some g))))"

section \<open>Lemmas\<close>

lemma require_eq [simp]: "require b m = Inr u \<longleftrightarrow> b"
  by (cases u) (simp add: require_def)

text \<open>Every configured key has at least eight characters and a client's name.\<close>

definition keys_ok :: "(string \<times> string) list \<Rightarrow> bool" where
  "keys_ok m \<longleftrightarrow> distinct (map fst m) \<and> (\<forall>(k, n) \<in> set m. 8 \<le> length k \<and> n \<noteq> [])"

lemma update_entries: "(a, b) \<in> set (AList.update k v m) \<Longrightarrow> (a, b) = (k, v) \<or> (a, b) \<in> set m"
  by (induction m) (auto split: if_splits)

lemma keys_ok_add: "keys_ok m \<Longrightarrow> keys_ok (add_key kv m)"
  by (auto simp: keys_ok_def add_key_def distinct_update dest!: update_entries split: option.split)

lemma keys_ok_fold: "keys_ok m \<Longrightarrow> keys_ok (fold add_key kvs m)"
  by (induction kvs arbitrary: m) (simp_all add: keys_ok_add)

lemma api_keys_ok: "keys_ok (api_keys v)"
  unfolding api_keys_def by (rule keys_ok_fold) (simp add: keys_ok_def)

lemma tls_set3: "tls_set [a, b, c] = 0 \<or> tls_set [a, b, c] = 3 \<longleftrightarrow> (a = [] \<longleftrightarrow> b = []) \<and> (a = [] \<longleftrightarrow> c = [])"
  by (auto simp: tls_set_def)

lemma loaded_keys: "LoadConfig P getenv = Inr c \<Longrightarrow> keys_ok (cf_APIKeys c)"
  using api_keys_ok by (auto simp: LoadConfig_def Let_def early_return)

section \<open>Properties\<close>

text \<open>C40: what a loaded configuration guarantees. \<^verbatim>\<open>LoadConfig\<close> either reports an error or returns a
  configuration with at least one upstream, none of them blank; at least one API key, every key of
  eight characters or more, under one name each; a signer secret of 16 characters or more; a burst
  and a poll interval that are positive; a rate that is positive unless it is no number or infinite; a known
  chain family; and TLS material that is complete or absent.\<close>

theorem LoadConfig_sound:
  assumes "LoadConfig P getenv = Inr c"
  shows "cf_Upstreams c \<noteq> [] \<and> [] \<notin> set (cf_Upstreams c) \<and> [] \<notin> set (cf_RelayURLs c) \<and>
    cf_APIKeys c \<noteq> [] \<and> keys_ok (cf_APIKeys c) \<and> 16 \<le> length (cf_SignerSecret c) \<and>
    1 \<le> cf_RateBurst c \<and> cf_RateBurst c \<le> maxInt64 \<and> 0 < cf_Poll c \<and>
    (cf_RateRPS c \<in> {PosInf, NaN} \<or> (\<exists>r > 0. cf_RateRPS c = Fin r)) \<and>
    cf_Chain c \<in> {''evm'', ''solana''} \<and>
    (cf_EngineCert c = [] \<longleftrightarrow> cf_EngineKey c = []) \<and> (cf_EngineCert c = [] \<longleftrightarrow> cf_EngineCA c = [])"
proof -
  from assms obtain rps burst where c: "url_list (getenv ''GATEWAY_UPSTREAMS'') \<noteq> []" "api_keys (getenv ''GATEWAY_API_KEYS'') \<noteq> []"
    "\<not> le_zero (cf_RateRPS c)" "Atoi (go_or (getenv ''RATE_LIMIT_BURST'') ''100'') = Inr (cf_RateBurst c)"
    "16 \<le> length (cf_SignerSecret c)" "1 \<le> cf_RateBurst c" "0 < cf_Poll c" "cf_Chain c = ''evm'' \<or> cf_Chain c = ''solana''"
    "cf_Upstreams c = url_list (getenv ''GATEWAY_UPSTREAMS'')" "cf_APIKeys c = api_keys (getenv ''GATEWAY_API_KEYS'')"
    "cf_RelayURLs c = url_list (getenv ''RELAY_URLS'')"
    "tls_set [cf_EngineCert c, cf_EngineKey c, cf_EngineCA c] = 0 \<or> tls_set [cf_EngineCert c, cf_EngineKey c, cf_EngineCA c] = 3"
    by (auto simp: LoadConfig_def Let_def early_return)
  have "cf_RateBurst c \<le> maxInt64" using c(4) by (auto simp: Atoi_def split: option.splits if_splits)
  moreover have "cf_RateRPS c \<in> {PosInf, NaN} \<or> (\<exists>r > 0. cf_RateRPS c = Fin r)" using c(3) by (cases "cf_RateRPS c") auto
  moreover have "[] \<notin> set (url_list v)" for v by (simp add: url_list_def)
  ultimately show ?thesis using c loaded_keys [OF assms] by (simp add: tls_set3) blast
qed

definition demo_parsers :: Parsers where
  "demo_parsers = \<lparr>ps_ParseFloat = (\<lambda>s. if s = ''NaN'' then Some NaN else Some (Fin 50)), ps_ParseDuration = (\<lambda>s. Some 1000000000)\<rparr>"

definition demo_getenv :: "string \<Rightarrow> string \<Rightarrow> string" where
  "demo_getenv rps v =
     (if v = ''GATEWAY_UPSTREAMS'' then '' http://a , ,http://b''
      else if v = ''GATEWAY_API_KEYS'' then ''web=correct-horse,x=short''
      else if v = ''SIGNER_SHARED_SECRET'' then ''sixteen-chars-ok''
      else if v = ''RATE_LIMIT_RPS'' then rps
      else [])"

definition demo_config :: Config where
  "demo_config = \<lparr>cf_Addr = '':8080'', cf_Upstreams = [''http://a'', ''http://b''], cf_APIKeys = [(''correct-horse'', ''web'')],
     cf_SignerURL = ''http://localhost:8081'', cf_SignerSecret = ''sixteen-chars-ok'', cf_RateRPS = Fin 50, cf_RateBurst = 100,
     cf_CORSOrigin = [], cf_Poll = 1000000000, cf_HooksPrivate = False, cf_Chain = ''evm'', cf_EngineAddr = [], cf_EngineCert = [],
     cf_EngineKey = [], cf_EngineCA = [], cf_EngineServerName = ''engine'', cf_RelayURLs = []\<rparr>"

lemma demo_lists: "url_list '' http://a , ,http://b'' = [''http://a'', ''http://b'']" "url_list [] = []"
  "api_keys ''web=correct-horse,x=short'' = [(''correct-horse'', ''web'')]" "Atoi ''100'' = Inr 100"
  by code_simp+

lemma demo_config: "LoadConfig demo_parsers (demo_getenv []) = Inr demo_config"
  by (simp add: LoadConfig_def demo_parsers_def demo_getenv_def demo_config_def demo_lists go_or_def require_def tls_set_def Let_def)

theorem LoadConfig_sound_witness:
  "LoadConfig demo_parsers (demo_getenv []) = Inr demo_config \<and> keys_ok (cf_APIKeys demo_config) \<and> cf_Upstreams demo_config \<noteq> []"
  using LoadConfig_sound [OF demo_config] demo_config by simp

text \<open>The test \<^verbatim>\<open>c.RateRPS <= 0\<close> is false for a NaN, so \<^verbatim>\<open>RATE_LIMIT_RPS=NaN\<close> is accepted as a positive number.\<close>

lemma LoadConfig_accepts_NaN: "\<exists>c. LoadConfig demo_parsers (demo_getenv ''NaN'') = Inr c \<and> cf_RateRPS c = NaN"
  by (simp add: LoadConfig_def demo_parsers_def demo_getenv_def demo_lists go_or_def require_def tls_set_def Let_def)

end
