(* ===== verification/Keccak.thy ===== *)
theory Keccak
  imports Hexcode
begin

text \<open>
  The hash of \<^verbatim>\<open>internal/keccak/keccak.go\<close> and the addresses that rest on it. The permutation
  \<open>f1600\<close> is translated loop by loop, with its tables; the reference permutation below is written
  from the definition of Keccak-f[1600] (FIPS 202, sections 3.2 and 3.3) on coordinates \<open>(x, y)\<close>,
  with the rotation offsets and the round constants computed by the standard's own rules, and the
  two are proved equal. \<^verbatim>\<open>Checksum\<close> and \<^verbatim>\<open>ParseAddress\<close> are EIP-55.
\<close>

section \<open>The permutation as the code computes it\<close>

type_synonym lanes = "u64 list"

definition rate :: nat where "rate = 136"

definition rc :: lanes where
  "rc = [0x0000000000000001, 0x0000000000008082, 0x800000000000808a, 0x8000000080008000,
     0x000000000000808b, 0x0000000080000001, 0x8000000080008081, 0x8000000000008009,
     0x000000000000008a, 0x0000000000000088, 0x0000000080008009, 0x000000008000000a,
     0x000000008000808b, 0x800000000000008b, 0x8000000000008089, 0x8000000000008003,
     0x8000000000008002, 0x8000000000000080, 0x000000000000800a, 0x800000008000000a,
     0x8000000080008081, 0x8000000000008080, 0x0000000080000001, 0x8000000080008008]"

definition rotc :: "nat list" where
  "rotc = [1, 3, 6, 10, 15, 21, 28, 36, 45, 55, 2, 14, 27, 41, 56, 8, 25, 43, 62, 18, 39, 61, 20, 44]"

definition piln :: "nat list" where
  "piln = [10, 7, 11, 17, 18, 3, 5, 16, 8, 21, 24, 4, 15, 23, 19, 13, 12, 2, 20, 14, 22, 9, 6, 1]"

definition f_theta :: "lanes \<Rightarrow> lanes" where
  "f_theta st =
     (let bc = map (\<lambda>i. st ! i XOR st ! (i + 5) XOR st ! (i + 10) XOR st ! (i + 15) XOR st ! (i + 20)) [0..<5]
      in fold (\<lambda>i st. let t = bc ! ((i + 4) mod 5) XOR word_rotl 1 (bc ! ((i + 1) mod 5))
                      in fold (\<lambda>j st. st[j + i := st ! (j + i) XOR t]) [0, 5, 10, 15, 20] st)
           [0..<5] st)"

definition f_rhopi :: "lanes \<Rightarrow> lanes" where
  "f_rhopi st = snd (fold (\<lambda>i (t, st). let j = piln ! i in (st ! j, st[j := word_rotl (rotc ! i) t]))
     [0..<24] (st ! 1, st))"

definition f_chi :: "lanes \<Rightarrow> lanes" where
  "f_chi st = fold (\<lambda>j st. let b = take 5 (drop j st)
       in fold (\<lambda>i st. st[j + i := b ! i XOR (NOT (b ! ((i + 1) mod 5)) AND b ! ((i + 2) mod 5))]) [0..<5] st)
     [0, 5, 10, 15, 20] st"

definition f_round :: "nat \<Rightarrow> lanes \<Rightarrow> lanes" where
  "f_round r st = (let st = f_chi (f_rhopi (f_theta st)) in st[0 := st ! 0 XOR rc ! r])"

definition f1600 :: "lanes \<Rightarrow> lanes" where
  "f1600 st = fold f_round [0..<24] st"

section \<open>The hash\<close>

text \<open>\<^verbatim>\<open>binary.LittleEndian\<close> and \<^verbatim>\<open>BigEndian\<close> on eight bytes.\<close>

definition le_Uint64 :: "bytes \<Rightarrow> u64" where
  "le_Uint64 b = foldr (\<lambda>c a. push_bit 8 a OR ucast c) (take 8 b) 0"

definition le_PutUint64 :: "u64 \<Rightarrow> bytes" where
  "le_PutUint64 v = map (\<lambda>i. ucast (drop_bit (8 * i) v)) [0..<8]"

definition be_PutUint64 :: "u64 \<Rightarrow> bytes" where
  "be_PutUint64 v = rev (le_PutUint64 v)"

definition be_Uint64 :: "bytes \<Rightarrow> u64" where
  "be_Uint64 b = le_Uint64 (rev (take 8 b))"

lemma pad_measure: "(n::nat) mod rate \<noteq> 0 \<Longrightarrow> (rate - Suc n mod rate) mod rate < (rate - n mod rate) mod rate"
  using mod_less_divisor [of 136 n] by (auto simp: rate_def mod_Suc)

function pad_zeros :: "bytes \<Rightarrow> bytes" where
  "pad_zeros buf = (if length buf mod rate \<noteq> 0 then pad_zeros (buf @ [0]) else buf)"
  by auto
termination by (relation "measure (\<lambda>b. (rate - length b mod rate) mod rate)") (auto simp: pad_measure)

declare pad_zeros.simps [simp del]

definition keccak_pad :: "bytes \<Rightarrow> bytes" where
  "keccak_pad data = (let buf = pad_zeros (data @ [0x01]) in buf[length buf - 1 := last buf OR 0x80])"

text \<open>One block is xored into the first 17 lanes.\<close>

definition absorb_block :: "bytes \<Rightarrow> lanes \<Rightarrow> lanes" where
  "absorb_block blk st = fold (\<lambda>i st. st[i := st ! i XOR le_Uint64 (drop (i * 8) blk)]) [0..<rate div 8] st"

function absorb :: "bytes \<Rightarrow> lanes \<Rightarrow> lanes" where
  "absorb buf st = (if buf = [] then st else absorb (drop rate buf) (f1600 (absorb_block buf st)))"
  by auto
termination by (relation "measure (\<lambda>(b, st). length b)") (auto simp: rate_def)

declare absorb.simps [simp del]

definition Sum256 :: "bytes \<Rightarrow> bytes" where
  "Sum256 data = (let st = absorb (keccak_pad data) (replicate 25 0)
     in concat (map (\<lambda>i. le_PutUint64 (st ! i)) [0..<4]))"

section \<open>Addresses\<close>

text \<open>The digest nibble that decides the case of digit \<open>i\<close>.\<close>

definition case_nibble :: "bytes \<Rightarrow> nat \<Rightarrow> byte" where
  "case_nibble h i = drop_bit (4 * (1 - i mod 2)) (h ! (i div 2)) AND 0xf"

definition checksum_body :: "bytes \<Rightarrow> string" where
  "checksum_body a = (let lower = hex_EncodeToString a; h = Sum256 (bytes_of lower)
     in map (\<lambda>(i, c). if (of_char c :: nat) \<ge> 97 \<and> case_nibble h i \<ge> 8
                       then char_of ((of_char c :: nat) - 32) else c) (enumerate 0 lower))"

definition Checksum :: "bytes \<Rightarrow> string" where
  "Checksum a = ''0x'' @ checksum_body a"

definition ParseAddress :: "string \<Rightarrow> gerror + bytes" where
  "ParseAddress s =
     (if length s \<noteq> 42 \<or> \<not> HasPrefix s ''0x'' then Inl ErrBadAddress
      else case hex_DecodeString (drop 2 s) of
        Inl err \<Rightarrow> Inl ErrBadAddress
      | Inr a \<Rightarrow>
          let body = drop 2 s in
          if body \<noteq> strings_ToLower body \<and> body \<noteq> strings_ToUpper body \<and> Checksum a \<noteq> s
          then Inl ErrBadAddress else Inr a)"

section \<open>The permutation as the standard defines it\<close>

text \<open>A state is a function of the lane coordinates; lane \<open>(x, y)\<close> is entry \<open>x + 5 * y\<close> of the array.\<close>

type_synonym plane = "nat \<Rightarrow> nat \<Rightarrow> u64"

definition plane_of :: "lanes \<Rightarrow> plane" where
  "plane_of st = (\<lambda>x y. st ! (x + 5 * y))"

definition lanes_of :: "plane \<Rightarrow> lanes" where
  "lanes_of A = map (\<lambda>k. A (k mod 5) (k div 5)) [0..<25]"

definition spec_theta :: "plane \<Rightarrow> plane" where
  "spec_theta A = (let C = (\<lambda>x. A x 0 XOR A x 1 XOR A x 2 XOR A x 3 XOR A x 4)
     in (\<lambda>x y. A x y XOR (C ((x + 4) mod 5) XOR word_rotl 1 (C ((x + 1) mod 5)))))"

text \<open>The rotation offsets are the triangular numbers along the walk from \<open>(1, 0)\<close>.\<close>

fun rho_walk :: "nat \<Rightarrow> nat \<times> nat" where
  "rho_walk 0 = (1, 0)"
| "rho_walk (Suc t) = (case rho_walk t of (x, y) \<Rightarrow> (y, (2 * x + 3 * y) mod 5))"

definition rho_table :: "((nat \<times> nat) \<times> nat) list" where
  "rho_table = map (\<lambda>t. (rho_walk t, (t + 1) * (t + 2) div 2 mod 64)) [0..<24]"

definition rho_offset :: "nat \<Rightarrow> nat \<Rightarrow> nat" where
  "rho_offset x y = (case map_of rho_table (x, y) of None \<Rightarrow> 0 | Some d \<Rightarrow> d)"

definition spec_rho :: "plane \<Rightarrow> plane" where
  "spec_rho A = (\<lambda>x y. word_rotl (rho_offset x y) (A x y))"

definition spec_pi :: "plane \<Rightarrow> plane" where
  "spec_pi A = (\<lambda>x y. A ((x + 3 * y) mod 5) x)"

definition spec_chi :: "plane \<Rightarrow> plane" where
  "spec_chi A = (\<lambda>x y. A x y XOR (NOT (A ((x + 1) mod 5) y) AND A ((x + 2) mod 5) y))"

text \<open>The round constants come from a linear feedback shift register.\<close>

definition lfsr_step :: "bool list \<Rightarrow> bool list" where
  "lfsr_step R = (let R9 = False # R; b = R9 ! 8
     in take 8 (R9[0 := R9 ! 0 \<noteq> b, 4 := R9 ! 4 \<noteq> b, 5 := R9 ! 5 \<noteq> b, 6 := R9 ! 6 \<noteq> b]))"

definition lfsr_bit :: "nat \<Rightarrow> bool" where
  "lfsr_bit t = ((lfsr_step ^^ (t mod 255)) [True, False, False, False, False, False, False, False]) ! 0"

definition spec_RC :: "nat \<Rightarrow> u64" where
  "spec_RC r = fold (\<lambda>j w. if lfsr_bit (j + 7 * r) then w OR push_bit (2 ^ j - 1) 1 else w) [0..<7] 0"

definition spec_iota :: "nat \<Rightarrow> plane \<Rightarrow> plane" where
  "spec_iota r A = (\<lambda>x y. if x = 0 \<and> y = 0 then A 0 0 XOR spec_RC r else A x y)"

definition spec_round :: "nat \<Rightarrow> plane \<Rightarrow> plane" where
  "spec_round r A = spec_iota r (spec_chi (spec_pi (spec_rho (spec_theta A))))"

definition keccak_f :: "plane \<Rightarrow> plane" where
  "keccak_f A = fold spec_round [0..<24] A"

section \<open>The code computes the standard's permutation\<close>

lemma length_25_cases:
  assumes "length st = 25"
  obtains a0 a1 a2 a3 a4 a5 a6 a7 a8 a9 a10 a11 a12 a13 a14 a15 a16 a17 a18 a19 a20 a21 a22 a23 a24
  where "st = [a0, a1, a2, a3, a4, a5, a6, a7, a8, a9, a10, a11, a12, a13, a14, a15, a16, a17, a18, a19,
               a20, a21, a22, a23, a24]"
proof -
  have "length st = Suc (Suc (Suc (Suc (Suc (Suc (Suc (Suc (Suc (Suc (Suc (Suc (Suc (Suc (Suc (Suc (Suc (Suc (Suc
      (Suc (Suc (Suc (Suc (Suc (Suc 0))))))))))))))))))))))))" using assms by simp
  then show thesis unfolding length_Suc_conv length_0_conv by (elim exE conjE) (rule that, simp)
qed

lemma upt5: "[0..<5] = [0, 1, 2, 3, 4]" by (simp add: upt_rec)

lemma upt25: "[0..<25] = [0, 1, 2, 3, 4, 5, 6, 7, 8, 9, 10, 11, 12, 13, 14, 15, 16, 17, 18, 19, 20, 21, 22, 23, 24]"
  by (simp add: upt_rec)

lemma upt24: "[0..<24] = [0, 1, 2, 3, 4, 5, 6, 7, 8, 9, 10, 11, 12, 13, 14, 15, 16, 17, 18, 19, 20, 21, 22, 23]"
  by (simp add: upt_rec)

lemma f_theta_spec: "length st = 25 \<Longrightarrow> f_theta st = lanes_of (spec_theta (plane_of st))"
  by (erule length_25_cases)
     (simp add: f_theta_def spec_theta_def lanes_of_def plane_of_def Let_def upt5 upt25)

lemma f_chi_spec: "length st = 25 \<Longrightarrow> f_chi st = lanes_of (spec_chi (plane_of st))"
  by (erule length_25_cases)
     (simp add: f_chi_def spec_chi_def lanes_of_def plane_of_def Let_def upt5 upt25)

text \<open>The table of round constants, generated in one run of the register.\<close>

definition rc_word :: "bool list \<Rightarrow> u64" where
  "rc_word R = fold (\<lambda>j w. if ((lfsr_step ^^ j) R) ! 0 then w OR push_bit (2 ^ j - 1) 1 else w) [0..<7] 0"

fun rc_words :: "nat \<Rightarrow> bool list \<Rightarrow> u64 list" where
  "rc_words 0 R = []"
| "rc_words (Suc n) R = rc_word R # rc_words n ((lfsr_step ^^ 7) R)"

lemma rc_words_spec:
  "7 * (r + n) \<le> 255 \<Longrightarrow>
   rc_words n ((lfsr_step ^^ (7 * r)) [True, False, False, False, False, False, False, False]) = map spec_RC [r..<r + n]"
proof (induction n arbitrary: r)
  case (Suc n)
  let ?R = "[True, False, False, False, False, False, False, False]"
  have bit: "lfsr_bit (j + 7 * r) = ((lfsr_step ^^ j) ((lfsr_step ^^ (7 * r)) ?R)) ! 0" if "j < 7" for j
    using that Suc.prems by (simp add: lfsr_bit_def funpow_add)
  then have "spec_RC r = rc_word ((lfsr_step ^^ (7 * r)) ?R)"
    unfolding spec_RC_def rc_word_def by (intro fold_cong) auto
  moreover have "(lfsr_step ^^ 7) ((lfsr_step ^^ (7 * r)) ?R) = (lfsr_step ^^ (7 * Suc r)) ?R"
    by (simp add: funpow_add)
  ultimately show ?case using Suc.IH [of "Suc r"] Suc.prems by (simp add: upt_conv_Cons del: funpow.simps upt_Suc)
qed simp

lemma lfsr_step_list: "lfsr_step [a, b, c, d, e, f, g, h] = [h, a, b, c, d \<noteq> h, e \<noteq> h, f \<noteq> h, g]"
  by (simp add: lfsr_step_def)

lemma rc_word_list: "rc_word R =
    (let R1 = lfsr_step R; R2 = lfsr_step R1; R3 = lfsr_step R2; R4 = lfsr_step R3; R5 = lfsr_step R4; R6 = lfsr_step R5
     in (if R ! 0 then 0x1 else 0) OR (if R1 ! 0 then 0x2 else 0) OR (if R2 ! 0 then 0x8 else 0) OR
        (if R3 ! 0 then 0x80 else 0) OR (if R4 ! 0 then 0x8000 else 0) OR (if R5 ! 0 then 0x80000000 else 0) OR
        (if R6 ! 0 then 0x8000000000000000 else 0))"
proof -
  have upt7: "[0..<7] = [0, 1, 2, 3, 4, 5, 6 :: nat]" by (simp add: upt_rec)
  have or0: "(if b then w OR v else w) = w OR (if b then v else 0)" for b and v w :: u64 by simp
  show ?thesis unfolding rc_word_def upt7 Let_def
    by (simp only: fold_simps or0) (simp add: eval_nat_numeral or.assoc)
qed

lemma lfsr7: "(lfsr_step ^^ 7) R = lfsr_step (lfsr_step (lfsr_step (lfsr_step (lfsr_step (lfsr_step (lfsr_step R))))))"
  by (simp add: eval_nat_numeral)

lemma rc_spec: "rc = map spec_RC [0..<24]"
proof -
  have n: "(24::nat) = Suc (Suc (Suc (Suc (Suc (Suc (Suc (Suc (Suc (Suc (Suc (Suc (Suc (Suc (Suc (Suc (Suc (Suc (Suc
      (Suc (Suc (Suc (Suc (Suc 0)))))))))))))))))))))))" by simp
  have "rc_words 24 [True, False, False, False, False, False, False, False] = rc"
    unfolding n by (simp only: rc_words.simps rc_word_list Let_def lfsr7 lfsr_step_list simp_thms nth_Cons_0 if_True if_False)
      (simp add: rc_def)
  with rc_words_spec [of 0 24] show ?thesis by simp
qed

lemma rho_offsets: "map (\<lambda>k. rho_offset (k mod 5) (k div 5)) [0..<25] =
   [0, 1, 62, 28, 27, 36, 44, 6, 55, 20, 3, 10, 43, 25, 39, 41, 45, 15, 21, 8, 18, 2, 61, 56, 14]"
  by code_simp


lemma word_rotl_0 [simp]: "word_rotl 0 w = w"
  by (rule bit_word_eqI) (simp add: bit_word_rotl_iff)

lemma f_rhopi_spec:
  assumes "length st = 25"
  shows "f_rhopi st = lanes_of (spec_pi (spec_rho (plane_of st)))"
proof -
  have off: "rho_offset (k mod 5) (k div 5) =
      [0, 1, 62, 28, 27, 36, 44, 6, 55, 20, 3, 10, 43, 25, 39, 41, 45, 15, 21, 8, 18, 2, 61, 56, 14] ! k" if "k < 25" for k
    unfolding rho_offsets [symmetric] using that by simp
  have "rho_offset x y = [0, 1, 62, 28, 27, 36, 44, 6, 55, 20, 3, 10, 43, 25, 39, 41, 45, 15, 21, 8, 18, 2, 61, 56, 14] ! (x + 5 * y)"
    if "x < 5" "y < 5" for x y
    using off [of "x + 5 * y"] that by simp
  with assms show ?thesis
    by (elim length_25_cases)
       (simp add: f_rhopi_def spec_pi_def spec_rho_def lanes_of_def plane_of_def Let_def upt24 upt25 piln_def rotc_def)
qed

lemma plane_lanes: "x < 5 \<Longrightarrow> y < 5 \<Longrightarrow> plane_of (lanes_of A) x y = A x y"
  by (simp add: plane_of_def lanes_of_def)

lemma length_lanes_of [simp]: "length (lanes_of A) = 25"
  by (simp add: lanes_of_def)

text \<open>Only the coordinates below five matter.\<close>

lemma spec_theta_lanes: "lanes_of (spec_theta (plane_of (lanes_of A))) = lanes_of (spec_theta A)"
  unfolding lanes_of_def [of "spec_theta _"] by (simp add: upt25 spec_theta_def Let_def plane_lanes)

lemma spec_rhopi_lanes: "lanes_of (spec_pi (spec_rho (plane_of (lanes_of A)))) = lanes_of (spec_pi (spec_rho A))"
  unfolding lanes_of_def [of "spec_pi _"] by (simp add: upt25 spec_pi_def spec_rho_def plane_lanes)

lemma spec_chi_lanes: "lanes_of (spec_iota r (spec_chi (plane_of (lanes_of A)))) = lanes_of (spec_iota r (spec_chi A))"
  unfolding lanes_of_def [of "spec_iota _ _"] by (simp add: upt25 spec_chi_def spec_iota_def plane_lanes)

lemma f_iota_spec:
  assumes "r < 24"
  shows "(lanes_of A)[0 := lanes_of A ! 0 XOR rc ! r] = lanes_of (spec_iota r A)"
proof -
  have "rc ! r = spec_RC r" using assms by (simp add: rc_spec)
  then show ?thesis by (simp add: lanes_of_def spec_iota_def upt25)
qed

lemma spec_round_lanes: "lanes_of (spec_round r (plane_of (lanes_of A))) = lanes_of (spec_round r A)"
proof -
  have "lanes_of (spec_pi (spec_rho (spec_theta (plane_of (lanes_of A))))) = lanes_of (spec_pi (spec_rho (spec_theta A)))"
    using spec_rhopi_lanes [of "spec_theta (plane_of (lanes_of A))"] spec_rhopi_lanes [of "spec_theta A"]
    by (simp add: spec_theta_lanes)
  then show ?thesis
    using spec_chi_lanes [of r "spec_pi (spec_rho (spec_theta (plane_of (lanes_of A))))"]
      spec_chi_lanes [of r "spec_pi (spec_rho (spec_theta A))"]
    by (simp add: spec_round_def)
qed

lemma f_round_spec:
  assumes "length st = 25" and "r < 24"
  shows "f_round r st = lanes_of (spec_round r (plane_of st))"
proof -
  have "f_rhopi (f_theta st) = lanes_of (spec_pi (spec_rho (spec_theta (plane_of st))))"
    using assms(1) by (simp add: f_theta_spec f_rhopi_spec spec_rhopi_lanes)
  then have "f_round r st = lanes_of (spec_iota r (spec_chi (plane_of (lanes_of (spec_pi (spec_rho (spec_theta (plane_of st))))))))"
    using assms(2) by (simp add: f_round_def Let_def f_chi_spec f_iota_spec)
  then show ?thesis by (simp add: spec_chi_lanes spec_round_def)
qed

lemma f1600_rounds:
  "set rs \<subseteq> {..<24} \<Longrightarrow> fold f_round rs (lanes_of A) = lanes_of (fold spec_round rs A)"
  by (induction rs arbitrary: A) (simp_all add: f_round_spec spec_round_lanes)

section \<open>Renderings of an address\<close>

lemma hex_val_lower: "hex_val c = Some n \<Longrightarrow> lower_char c = hex_digit n"
  unfolding hex_val_def lower_char_def hex_digit_def Let_def
  by (auto split: if_splits)

lemma hex_val_upper_eq: "hex_val c = Some n \<Longrightarrow> upper_char c = upper_char (hex_digit n)"
  unfolding hex_val_def upper_char_def hex_digit_def Let_def
  by (auto split: if_splits)

lemma unat_of_hex [simp]:
  assumes "h < 16" and "l < 16"
  shows "unat (16 * word_of_nat h + word_of_nat l :: byte) = 16 * h + l"
proof -
  have "(16 * word_of_nat h + word_of_nat l :: byte) = word_of_nat (16 * h + l)" by simp
  also have "unat \<dots> = 16 * h + l" unfolding unat_of_nat using assms by simp
  finally show ?thesis .
qed

lemma decoded_lower: "hex_DecodeString s = Inr b \<Longrightarrow> strings_ToLower s = hex_EncodeToString b"
proof (induction s arbitrary: b rule: hex_DecodeString.induct)
  case (3 c d s)
  then obtain h l b' where b: "hex_val c = Some h" "hex_val d = Some l" "hex_DecodeString s = Inr b'"
    "b = word_of_nat (16 * h + l) # b'" by (auto simp: ebind_eq_Inr split: option.splits)
  then show ?case
    using "3.IH" [of h l b'] hex_val_less [of c] hex_val_less [of d]
    by (simp add: strings_ToLower_def hex_val_lower)
qed (simp_all add: strings_ToLower_def)

lemma decoded_upper: "hex_DecodeString s = Inr b \<Longrightarrow> strings_ToUpper s = strings_ToUpper (hex_EncodeToString b)"
proof (induction s arbitrary: b rule: hex_DecodeString.induct)
  case (3 c d s)
  then obtain h l b' where b: "hex_val c = Some h" "hex_val d = Some l" "hex_DecodeString s = Inr b'"
    "b = word_of_nat (16 * h + l) # b'" by (auto simp: ebind_eq_Inr split: option.splits)
  then show ?case
    using "3.IH" [of h l b'] hex_val_less [of c] hex_val_less [of d] hex_val_upper_eq [of c h] hex_val_upper_eq [of d l]
    by (simp add: strings_ToUpper_def)
qed (simp_all add: strings_ToUpper_def)

text \<open>Decoding looks at the digits' values only, so a change of case does not matter.\<close>

lemma hex_Decode_cong:
  "list_all2 (\<lambda>c d. hex_val c = hex_val d) s t \<Longrightarrow> hex_DecodeString s = hex_DecodeString t"
proof (induction s arbitrary: t rule: hex_DecodeString.induct)
  case (3 c d s)
  then obtain c' d' t' where "t = c' # d' # t'" "hex_val c = hex_val c'" "hex_val d = hex_val d'"
    "list_all2 (\<lambda>c d. hex_val c = hex_val d) s t'" by (auto simp: list_all2_Cons1)
  with "3.IH" show ?case by (auto split: option.split)
qed (auto simp: list_all2_Cons1)

lemma hex_Encode_digits: "c \<in> set (hex_EncodeToString b) \<Longrightarrow> \<exists>n < 16. c = hex_digit n"
proof (induction b)
  case (Cons w b)
  have "unat w div 16 < 16" using unat_byte_less [of w] by simp
  moreover have "\<exists>n < 16. hex_digit (unat w mod 16) = hex_digit n" by (rule exI [of _ "unat w mod 16"]) simp
  ultimately show ?case using Cons by auto
qed simp

lemma checksum_body_decodes: "hex_DecodeString (checksum_body a) = Inr a"
proof -
  let ?l = "hex_EncodeToString a"
  have "hex_val (char_of ((of_char c :: nat) - 32)) = hex_val c" if "c \<in> set ?l" "(of_char c :: nat) \<ge> 97" for c
    using hex_Encode_digits [OF that(1)] that(2) by (auto simp: hex_val_def Let_def of_char_hex_digit split: if_splits)
  then have "list_all2 (\<lambda>c d. hex_val c = hex_val d) (checksum_body a) ?l"
    by (auto simp: checksum_body_def Let_def list_all2_conv_all_nth nth_enumerate_eq)
  from hex_Decode_cong [OF this] show ?thesis by simp
qed

lemma hex_Decode_upper: "hex_DecodeString (strings_ToUpper (hex_EncodeToString a)) = Inr a"
proof -
  have "list_all2 (\<lambda>c d. hex_val c = hex_val d) (strings_ToUpper (hex_EncodeToString a)) (hex_EncodeToString a)"
    by (auto simp: strings_ToUpper_def list_all2_map1 intro!: list.rel_refl_strong dest!: hex_Encode_digits)
  from hex_Decode_cong [OF this] show ?thesis by simp
qed

section \<open>Properties\<close>

text \<open>C32: the hand-written permutation, with its tables of constants and its in-place loops, is
  Keccak-f[1600] as the standard defines it, with rotation offsets and round constants derived by
  the standard's rules.\<close>

theorem f1600_is_keccak_f:
  assumes "length st = 25"
  shows "f1600 st = lanes_of (keccak_f (plane_of st))"
proof -
  have "lanes_of (plane_of st) = st"
    using assms by (elim length_25_cases) (simp add: lanes_of_def plane_of_def upt25)
  with f1600_rounds [of "[0..<24]" "plane_of st"] show ?thesis
    by (simp add: f1600_def keccak_f_def atLeast0LessThan)
qed

theorem f1600_is_keccak_f_witness:
  "f1600 (replicate 25 0) = lanes_of (keccak_f (plane_of (replicate 25 0)))"
  by (rule f1600_is_keccak_f) simp

text \<open>C33: an address has three renderings, and \<^verbatim>\<open>ParseAddress\<close> accepts exactly these: all digits in
  lower case, all in upper case, or the EIP-55 checksum \<^verbatim>\<open>Checksum\<close> prints. In particular what
  \<^verbatim>\<open>Checksum\<close> prints parses back to the same address, and every other mix of cases is rejected.\<close>

theorem ParseAddress_accepts:
  assumes "length a = 20"
  shows "ParseAddress s = Inr a \<longleftrightarrow>
    s \<in> {''0x'' @ hex_EncodeToString a, ''0x'' @ strings_ToUpper (hex_EncodeToString a), Checksum a}"
    (is "?lhs \<longleftrightarrow> ?rhs")
proof
  assume ?lhs
  then have s: "length s = 42" "HasPrefix s ''0x''" "hex_DecodeString (drop 2 s) = Inr a"
    "drop 2 s = strings_ToLower (drop 2 s) \<or> drop 2 s = strings_ToUpper (drop 2 s) \<or> Checksum a = s"
    by (auto simp: ParseAddress_def Let_def split: if_splits sum.splits)
  have "s = ''0x'' @ drop 2 s" using HasPrefixD [OF s(2)] by (simp add: numeral_2_eq_2)
  with s(4) decoded_lower [OF s(3)] decoded_upper [OF s(3)] show ?rhs by auto
next
  have low: "strings_ToLower (hex_EncodeToString a) = hex_EncodeToString a" by (rule decoded_lower) simp
  have up: "strings_ToUpper (strings_ToUpper (hex_EncodeToString a)) = strings_ToUpper (hex_EncodeToString a)"
    by (rule decoded_upper [OF hex_Decode_upper])
  have len: "length (checksum_body a) = 40" using assms by (simp add: checksum_body_def Let_def)
  have len': "length (strings_ToUpper (hex_EncodeToString a)) = 40" using assms by (simp add: strings_ToUpper_def)
  assume ?rhs
  then show ?lhs
    using low up len len' assms hex_Decode_upper [of a] checksum_body_decodes [of a]
    by (auto simp: ParseAddress_def Let_def HasPrefix_def Checksum_def)
qed

theorem ParseAddress_accepts_witness:
  "ParseAddress (Checksum (replicate 20 0xab)) = Inr (replicate 20 0xab)"
  by (subst ParseAddress_accepts) simp_all

end
