(* ===== verification/Gojson.thy ===== *)
theory Gojson
  imports Json
begin

text \<open>
  The texts of \<^verbatim>\<open>encoding/json\<close>: what \<^verbatim>\<open>Marshal\<close> writes and what \<^verbatim>\<open>Unmarshal\<close> and \<^verbatim>\<open>Decoder\<close> accept,
  byte by byte, with Go's treatment of escapes, surrogates, bytes that are not UTF-8 and nesting
  deeper than 10000. This gives one \<open>JsonText\<close>, \<open>go_text\<close>, for which the laws that clients of the
  codec rely on are proved.

  The parser of values takes fuel, because its recursion goes through the rest of the text. Twice the
  length of the text is enough: with that much the result does not depend on the fuel.
\<close>

section \<open>UTF-8\<close>

definition byte_at :: "nat \<Rightarrow> string \<Rightarrow> nat" where
  "byte_at i s = (if i < length s then of_char (s ! i) else 0)"

definition is_cont :: "nat \<Rightarrow> bool" where
  "is_cont b \<longleftrightarrow> 0x80 \<le> b \<and> b \<le> 0xBF"

text \<open>The length of the encoding of a rune at the head of a string that starts with a byte above 7F, and 0
  if there is none.\<close>

definition rune_len :: "string \<Rightarrow> nat" where
  "rune_len s = (let a = byte_at 0 s; b = byte_at 1 s in
     if 0xC2 \<le> a \<and> a \<le> 0xDF \<and> is_cont b then 2
     else if 0xE0 \<le> a \<and> a \<le> 0xEF \<and> is_cont b \<and> is_cont (byte_at 2 s) \<and>
             (a = 0xE0 \<longrightarrow> 0xA0 \<le> b) \<and> (a = 0xED \<longrightarrow> b \<le> 0x9F) then 3
     else if 0xF0 \<le> a \<and> a \<le> 0xF4 \<and> is_cont b \<and> is_cont (byte_at 2 s) \<and> is_cont (byte_at 3 s) \<and>
             (a = 0xF0 \<longrightarrow> 0x90 \<le> b) \<and> (a = 0xF4 \<longrightarrow> b \<le> 0x8F) then 4
     else 0)"

definition is_surrogate :: "nat \<Rightarrow> bool" where
  "is_surrogate v \<longleftrightarrow> 0xD800 \<le> v \<and> v < 0xE000"

definition EncodeRune :: "nat \<Rightarrow> string" where
  "EncodeRune v =
     (if v < 0x80 then [char_of v]
      else if v < 0x800 then [char_of (0xC0 + v div 64), char_of (0x80 + v mod 64)]
      else if v < 0x10000 then [char_of (0xE0 + v div 4096), char_of (0x80 + v div 64 mod 64), char_of (0x80 + v mod 64)]
      else [char_of (0xF0 + v div 262144), char_of (0x80 + v div 4096 mod 64), char_of (0x80 + v div 64 mod 64),
            char_of (0x80 + v mod 64)])"

text \<open>U+FFFD, which replaces what is not UTF-8.\<close>

definition replacement :: string where
  "replacement = [CHR 0xEF, CHR 0xBF, CHR 0xBD]"

function utf8_valid :: "string \<Rightarrow> bool" where
  "utf8_valid [] = True"
| "utf8_valid (c # s) =
     (if (of_char c :: nat) < 128 then utf8_valid s
      else rune_len (c # s) \<noteq> 0 \<and> utf8_valid (drop (rune_len (c # s) - 1) s))"
  by pat_completeness auto
termination by (relation "measure length") auto

lemma byte_at_append: "i < length s \<Longrightarrow> byte_at i (s @ t) = byte_at i s"
  by (simp add: byte_at_def nth_append)

lemma byte_at_take: "i < n \<Longrightarrow> byte_at i (take n s) = byte_at i s"
  by (simp add: byte_at_def)

lemma rune_len_bound: "rune_len s \<le> length s"
  by (auto simp: rune_len_def Let_def byte_at_def is_cont_def split: if_splits)

lemma rune_len_prefix:
  assumes "rune_len s \<noteq> 0"
  shows "rune_len (take (rune_len s) s @ t) = rune_len s"
proof -
  have eq: "byte_at i (take (rune_len s) s @ t) = byte_at i s" if "i < rune_len s" for i
    using that rune_len_bound [of s] byte_at_append [of i "take (rune_len s) s" t] byte_at_take [of i "rune_len s" s]
    by simp
  consider "rune_len s = 2" | "rune_len s = 3" | "rune_len s = 4"
    using assms by (auto simp: rune_len_def Let_def split: if_splits)
  then show ?thesis
    using eq [of 0] eq [of 1] eq [of 2] eq [of 3] assms
    by cases (simp_all add: rune_len_def Let_def split: if_splits)
qed

lemma byte_at_simps [simp]:
  "byte_at 0 (c # s) = of_char c" "byte_at (Suc i) (c # s) = byte_at i s"
  "byte_at (numeral k) (c # s) = byte_at (pred_numeral k) s"
  by (simp_all add: byte_at_def numeral_eq_Suc)

lemma rune_len_2: "0xC2 \<le> a \<Longrightarrow> a \<le> 0xDF \<Longrightarrow> b < 64 \<Longrightarrow> rune_len (char_of (a :: nat) # char_of (0x80 + b :: nat) # s) = 2"
  by (simp add: rune_len_def Let_def is_cont_def)

lemma rune_len_3:
  assumes "a < 16" and "b < 64" and "c < 64" and "a = 0 \<Longrightarrow> 32 \<le> b" and "a = 13 \<Longrightarrow> b < 32"
  shows "rune_len (char_of (0xE0 + a :: nat) # char_of (0x80 + b :: nat) # char_of (0x80 + c :: nat) # s) = 3"
  using assms by (auto simp: rune_len_def Let_def is_cont_def)

lemma rune_len_4:
  assumes "a < 5" and "b < 64" and "c < 64" and "d < 64" and "a = 0 \<Longrightarrow> 16 \<le> b" and "a = 4 \<Longrightarrow> b < 16"
  shows "rune_len (char_of (0xF0 + a :: nat) # char_of (0x80 + b :: nat) # char_of (0x80 + c :: nat) # char_of (0x80 + d :: nat) # s) = 4"
  using assms by (auto simp: rune_len_def Let_def is_cont_def)

lemma rune_len_Encode:
  assumes "0x80 \<le> v" and "v < 0x110000" and "\<not> is_surrogate v"
  shows "rune_len (EncodeRune v @ t) = length (EncodeRune v)"
proof -
  consider "v < 0x800" | "0x800 \<le> v" "v < 0x10000" | "0x10000 \<le> v" by linarith
  then show ?thesis
  proof cases
    case 1
    have "v div 64 \<le> 31" "2 \<le> v div 64" using 1 assms(1) by linarith+
    with 1 assms show ?thesis by (simp add: EncodeRune_def rune_len_2)
  next
    case 2
    define w q r where wqr: "w = v div 64" "q = v div 4096" "r = v div 64 mod 64"
    have w: "w = 64 * q + r" "r < 64" using div_mult2_eq [of v 64 64] by (simp_all add: wqr)
    have v: "64 * w \<le> v" "v < 64 * w + 64" using div_mult_mod_eq [of v 64] mod_less_divisor [of 64 v] wqr(1) by linarith+
    have "q < 16" "q = 0 \<Longrightarrow> 32 \<le> r" using 2 w v by linarith+
    moreover have "q = 13 \<Longrightarrow> r < 32" using assms(3) w v unfolding is_surrogate_def by linarith
    ultimately show ?thesis using 2 unfolding wqr by (simp add: EncodeRune_def rune_len_3)
  next
    case 3
    define w q r where wqr: "w = v div 4096" "q = v div 262144" "r = v div 4096 mod 64"
    have w: "w = 64 * q + r" "r < 64" using div_mult2_eq [of v 4096 64] by (simp_all add: wqr)
    have v: "4096 * w \<le> v" "v < 4096 * w + 4096" using div_mult_mod_eq [of v 4096] mod_less_divisor [of 4096 v] wqr(1) by linarith+
    have "q < 5" "q = 0 \<Longrightarrow> 16 \<le> r" "q = 4 \<Longrightarrow> r < 16" using 3 assms(2) w v by linarith+
    then show ?thesis using 3 unfolding wqr by (simp add: EncodeRune_def rune_len_4)
  qed
qed

lemma utf8_valid_chunk:
  assumes "x \<noteq> []" and "\<not> (of_char (hd x) :: nat) < 128" and "rune_len (x @ s) = length x"
  shows "utf8_valid (x @ s) = utf8_valid s"
  using assms by (cases x) auto

section \<open>Strings\<close>

text \<open>\<^verbatim>\<open>getu4\<close>: four hexadecimal digits.\<close>

fun hex4 :: "string \<Rightarrow> (nat \<times> string) option" where
  "hex4 (a # b # c # d # s) = map_option (\<lambda>v. (v, s)) (hex_value 0 [a, b, c, d])"
| "hex4 _ = None"

text \<open>What follows a backslash and a \<^verbatim>\<open>u\<close>: a code point, or a pair of surrogates; a lone one is replaced.\<close>

definition low_surrogate :: "string \<Rightarrow> (nat \<times> string) option" where
  "low_surrogate s =
     (if take 2 s = [CHR 0x5C, CHR ''u'']
      then Option.bind (hex4 (drop 2 s)) (\<lambda>(w, t). if 0xDC00 \<le> w \<and> w < 0xE000 then Some (w, t) else None)
      else None)"

definition unicode_escape :: "string \<Rightarrow> (string \<times> string) option" where
  "unicode_escape s = (case hex4 s of
     None \<Rightarrow> None
   | Some (v, t) \<Rightarrow>
       if \<not> is_surrogate v then Some (EncodeRune v, t)
       else if v < 0xDC00 then
         (case low_surrogate t of
            Some (w, u) \<Rightarrow> Some (EncodeRune (0x10000 + (v - 0xD800) * 1024 + (w - 0xDC00)), u)
          | None \<Rightarrow> Some (replacement, t))
       else Some (replacement, t))"

definition simple_escape :: "char \<Rightarrow> char option" where
  "simple_escape c =
     (if c = CHR 0x22 \<or> c = CHR 0x5C \<or> c = CHR ''/'' then Some c
      else if c = CHR ''b'' then Some (CHR 0x08) else if c = CHR ''f'' then Some (CHR 0x0C)
      else if c = CHR ''n'' then Some (CHR 0x0A) else if c = CHR ''r'' then Some (CHR 0x0D)
      else if c = CHR ''t'' then Some (CHR 0x09) else None)"

lemma hex4_length: "hex4 s = Some (v, t) \<Longrightarrow> length t < length s"
  by (induction s rule: hex4.induct) auto

lemma unicode_escape_length: "unicode_escape s = Some (x, t) \<Longrightarrow> length t < length s"
  by (auto simp: unicode_escape_def low_surrogate_def Option.bind_eq_Some_conv
      split: option.splits if_splits prod.splits dest!: hex4_length)

text \<open>The rest of a string literal after its opening quote: the value, and what follows the closing quote.\<close>

function parse_str :: "string \<Rightarrow> (string \<times> string) option" where
  "parse_str [] = None"
| "parse_str (c # s) =
     (if c = CHR 0x22 then Some ([], s)
      else if c = CHR 0x5C then
        (case s of
           [] \<Rightarrow> None
         | d # t \<Rightarrow>
             if d = CHR ''u'' then
               (case unicode_escape t of None \<Rightarrow> None | Some (x, u) \<Rightarrow> map_option (apfst ((@) x)) (parse_str u))
             else (case simple_escape d of None \<Rightarrow> None | Some x \<Rightarrow> map_option (apfst ((#) x)) (parse_str t)))
      else if (of_char c :: nat) < 32 then None
      else if (of_char c :: nat) < 128 then map_option (apfst ((#) c)) (parse_str s)
      else if rune_len (c # s) = 0 then map_option (apfst ((@) replacement)) (parse_str s)
      else map_option (apfst ((@) (take (rune_len (c # s)) (c # s)))) (parse_str (drop (rune_len (c # s) - 1) s)))"
  by pat_completeness auto
termination by (relation "measure length") (auto dest!: unicode_escape_length)

declare parse_str.simps(2) [simp del]

definition escape_char :: "char \<Rightarrow> string" where
  "escape_char c = (let n = of_char c :: nat in
     if c = CHR 0x22 \<or> c = CHR 0x5C then [CHR 0x5C, c]
     else if n = 8 then [CHR 0x5C, CHR ''b''] else if n = 12 then [CHR 0x5C, CHR ''f'']
     else if n = 10 then [CHR 0x5C, CHR ''n''] else if n = 13 then [CHR 0x5C, CHR ''r'']
     else if n = 9 then [CHR 0x5C, CHR ''t'']
     else if n < 32 \<or> c = CHR ''<'' \<or> c = CHR ''>'' \<or> c = CHR ''&''
     then [CHR 0x5C, CHR ''u'', CHR ''0'', CHR ''0'', hex_digit (n div 16), hex_digit (n mod 16)]
     else [c])"

text \<open>\<^verbatim>\<open>appendString\<close> with HTML escaping. U+2028 and U+2029 are escaped too.\<close>

definition escape_rune :: "string \<Rightarrow> string" where
  "escape_rune x =
     (if x = [CHR 0xE2, CHR 0x80, CHR 0xA8] then [CHR 0x5C] @ ''u2028''
      else if x = [CHR 0xE2, CHR 0x80, CHR 0xA9] then [CHR 0x5C] @ ''u2029'' else x)"

function escape_str :: "string \<Rightarrow> string" where
  "escape_str [] = []"
| "escape_str (c # s) =
     (if (of_char c :: nat) < 128 then escape_char c @ escape_str s
      else if rune_len (c # s) = 0 then [CHR 0x5C] @ ''ufffd'' @ escape_str s
      else escape_rune (take (rune_len (c # s)) (c # s)) @ escape_str (drop (rune_len (c # s) - 1) s))"
  by pat_completeness auto
termination by (relation "measure length") auto

lemma hex_value_small: "n < 256 \<Longrightarrow> hex_value 0 [CHR ''0'', CHR ''0'', hex_digit (n div 16), hex_digit (n mod 16)] = Some n"
proof -
  assume "n < 256"
  then have "n div 16 < 16" by simp
  moreover have "hex_val (CHR ''0'') = Some 0" by (simp add: hex_val_def)
  ultimately show ?thesis by simp
qed

lemma char_of_controls:
  "char_of (8 :: nat) = CHR 0x08" "char_of (9 :: nat) = CHR 0x09" "char_of (10 :: nat) = CHR 0x0A"
  "char_of (12 :: nat) = CHR 0x0C" "char_of (13 :: nat) = CHR 0x0D"
  by code_simp+

lemma char_of_literals:
  "char_of (0xE2 :: nat) = CHR 0xE2" "char_of (0x80 :: nat) = CHR 0x80" "char_of (0xA8 :: nat) = CHR 0xA8"
  "char_of (0xA9 :: nat) = CHR 0xA9" "char_of (0xEF :: nat) = CHR 0xEF" "char_of (0xBF :: nat) = CHR 0xBF"
  "char_of (0xBD :: nat) = CHR 0xBD"
  by (simp_all add: char_of_def bit_0)

lemma append_one: "(@) [c] = (#) c"
  by (rule ext) simp

lemma parse_escape_char:
  assumes "(of_char c :: nat) < 128"
  shows "parse_str (escape_char c @ s) = map_option (apfst ((#) c)) (parse_str s)"
proof -
  let ?n = "of_char c :: nat"
  have c: "c = char_of ?n" by simp
  consider "c = CHR 0x22 \<or> c = CHR 0x5C" | "?n = 8" | "?n = 12" | "?n = 10" | "?n = 13" | "?n = 9"
    | (u) "c \<noteq> CHR 0x22" "c \<noteq> CHR 0x5C" "?n \<notin> {8, 9, 10, 12, 13}" "?n < 32 \<or> c = CHR ''<'' \<or> c = CHR ''>'' \<or> c = CHR ''&''"
    | (r) "c \<noteq> CHR 0x22" "c \<noteq> CHR 0x5C" "\<not> ?n < 32" "c \<noteq> CHR ''<''" "c \<noteq> CHR ''>''" "c \<noteq> CHR ''&''"
    by auto
  then show ?thesis
  proof cases
    case u
    have "escape_char c = [CHR 0x5C, CHR ''u'', CHR ''0'', CHR ''0'', hex_digit (?n div 16), hex_digit (?n mod 16)]"
      using u by (auto simp: escape_char_def Let_def)
    moreover have "unicode_escape ([CHR ''0'', CHR ''0'', hex_digit (?n div 16), hex_digit (?n mod 16)] @ s) = Some ([c], s)"
      using hex_value_small [of ?n] assms by (simp add: unicode_escape_def is_surrogate_def EncodeRune_def)
    ultimately show ?thesis by (simp add: parse_str.simps(2) append_one)
  next
    case r
    with assms show ?thesis by (simp add: escape_char_def Let_def parse_str.simps(2))
  qed (use c in \<open>auto simp: escape_char_def Let_def parse_str.simps(2) simple_escape_def char_of_controls\<close>)
qed

lemma take_rune: "take (rune_len (c # s)) (c # s) @ drop (rune_len (c # s) - 1) s = c # s"
  if "rune_len (c # s) \<noteq> 0"
  using that by (cases "rune_len (c # s)") simp_all

text \<open>A whole rune is read back, whether it was copied or escaped.\<close>

lemma parse_rune:
  assumes "x \<noteq> []" and "\<not> (of_char (hd x) :: nat) < 128" and "rune_len (x @ s) = length x"
  shows "parse_str (escape_rune x @ s) = map_option (apfst ((@) x)) (parse_str s)"
proof (cases "escape_rune x = x")
  case True
  obtain c y where x: "x = c # y" using assms(1) by (cases x) auto
  have c: "c \<noteq> CHR 0x22" "c \<noteq> CHR 0x5C" using assms(2) x by auto
  have "take (rune_len (x @ s)) (x @ s) = x" "drop (rune_len (x @ s) - 1) (y @ s) = s" using assms(3) x by simp_all
  with True x c assms show ?thesis by (simp add: parse_str.simps(2))
next
  case False
  then consider "x = [CHR 0xE2, CHR 0x80, CHR 0xA8]" "escape_rune x = [CHR 0x5C] @ ''u2028''"
    | "x = [CHR 0xE2, CHR 0x80, CHR 0xA9]" "escape_rune x = [CHR 0x5C] @ ''u2029''"
    by (auto simp: escape_rune_def split: if_splits)
  then show ?thesis
  proof cases
    case 1
    have "EncodeRune 0x2028 = x" unfolding 1(1) by (simp add: EncodeRune_def char_of_literals)
    then have "unicode_escape (''2028'' @ s) = Some (x, s)"
      by (simp add: unicode_escape_def is_surrogate_def hex_val_def)
    then show ?thesis unfolding 1(2) by (simp add: parse_str.simps(2))
  next
    case 2
    have "EncodeRune 0x2029 = x" unfolding 2(1) by (simp add: EncodeRune_def char_of_literals)
    then have "unicode_escape (''2029'' @ s) = Some (x, s)"
      by (simp add: unicode_escape_def is_surrogate_def hex_val_def)
    then show ?thesis unfolding 2(2) by (simp add: parse_str.simps(2))
  qed
qed

lemma parse_escape_str:
  "utf8_valid s \<Longrightarrow> parse_str (escape_str s @ CHR 0x22 # rest) = Some (s, rest)"
proof (induction s rule: utf8_valid.induct)
  case 1
  then show ?case by (simp add: parse_str.simps(2))
next
  case (2 c s)
  show ?case
  proof (cases "(of_char c :: nat) < 128")
    case True
    with 2 show ?thesis by (simp add: parse_escape_char)
  next
    case False
    let ?n = "rune_len (c # s)"
    have n: "?n \<noteq> 0" "utf8_valid (drop (?n - 1) s)" using 2(3) False by simp_all
    let ?x = "take ?n (c # s)"
    let ?t = "escape_str (drop (?n - 1) s) @ CHR 0x22 # rest"
    have "length ?x = ?n" using rune_len_bound [of "c # s"] by simp
    moreover have "?x \<noteq> []" "\<not> (of_char (hd ?x) :: nat) < 128" using n(1) False by (cases ?n; simp)+
    moreover have "rune_len (?x @ ?t) = ?n" by (rule rune_len_prefix [OF n(1)])
    ultimately have "parse_str (escape_rune ?x @ ?t) = map_option (apfst ((@) ?x)) (parse_str ?t)" by (intro parse_rune) simp_all
    with 2(2) [OF False n(2)] n(1) False take_rune [OF n(1)] show ?thesis by simp
  qed
qed

text \<open>What the parser returns is UTF-8, whatever it was given.\<close>

lemma utf8_Encode:
  assumes "v < 0x110000" and "\<not> is_surrogate v"
  shows "utf8_valid (EncodeRune v @ s) = utf8_valid s"
proof (cases "v < 0x80")
  case False
  have "EncodeRune v \<noteq> []" "\<not> (of_char (hd (EncodeRune v)) :: nat) < 128"
    using False assms(1) by (auto simp: EncodeRune_def)
  with rune_len_Encode [OF _ assms] False show ?thesis by (intro utf8_valid_chunk) simp_all
qed (simp add: EncodeRune_def)

lemma replacement_Encode: "replacement = EncodeRune 0xFFFD"
  by (simp add: replacement_def EncodeRune_def char_of_literals)

lemma hex4_bound:
  assumes "hex4 s = Some (v, t)"
  shows "v < 0x10000"
proof -
  obtain a b c d where s: "s = a # b # c # d # t" "hex_value 0 [a, b, c, d] = Some v"
    using assms by (induction s rule: hex4.induct) auto
  then obtain i j k l where h: "hex_val a = Some i" "hex_val b = Some j" "hex_val c = Some k" "hex_val d = Some l"
    "v = 16 * (16 * (16 * i + j) + k) + l" by (auto split: option.splits)
  have step: "x < m \<Longrightarrow> y < 16 \<Longrightarrow> 16 * x + y < 16 * m" for x y m :: nat by linarith
  have "v < 16 * (16 * (16 * 16))"
    unfolding h(5) by (intro step hex_val_less [OF h(1)] hex_val_less [OF h(2)] hex_val_less [OF h(3)] hex_val_less [OF h(4)])
  then show ?thesis by simp
qed

lemma utf8_replacement: "utf8_valid (replacement @ s) = utf8_valid s"
  unfolding replacement_Encode by (rule utf8_Encode) (simp_all add: is_surrogate_def)

lemma utf8_unicode_escape:
  assumes "unicode_escape s = Some (x, t)"
  shows "utf8_valid (x @ u) = utf8_valid u"
proof -
  from assms obtain v t' where v: "hex4 s = Some (v, t')" by (auto simp: unicode_escape_def split: option.splits)
  note bound = hex4_bound [OF v]
  consider "x = replacement" | "\<not> is_surrogate v" "x = EncodeRune v"
    | w where "0xD800 \<le> v" "v < 0xDC00" "0xDC00 \<le> w" "w < 0xE000" "x = EncodeRune (0x10000 + (v - 0xD800) * 1024 + (w - 0xDC00))"
    using assms v by (auto simp: unicode_escape_def is_surrogate_def low_surrogate_def Option.bind_eq_Some_conv
        split: if_splits option.splits prod.splits)
  then show ?thesis
  proof cases
    case 3
    have "0x10000 + (v - 0xD800) * 1024 + (w - 0xDC00) < 0x110000" using 3 by linarith
    with 3 show ?thesis using utf8_Encode [of "0x10000 + (v - 0xD800) * 1024 + (w - 0xDC00)" u] by (simp add: is_surrogate_def)
  qed (use bound in \<open>simp_all add: utf8_replacement utf8_Encode\<close>)
qed

lemma simple_escape_ascii: "simple_escape c = Some x \<Longrightarrow> (of_char x :: nat) < 128"
  by (auto simp: simple_escape_def split: if_splits)

lemma parse_str_utf8: "parse_str s = Some (x, t) \<Longrightarrow> utf8_valid x"
proof (induction s arbitrary: x t rule: parse_str.induct)
  case (2 c s)
  note IH = 2(1-5)
  show ?case
  proof (cases "c = CHR 0x22")
    case True
    with 2(6) show ?thesis by (simp add: parse_str.simps(2))
  next
    case q: False
    show ?thesis
    proof (cases "c = CHR 0x5C")
      case True
      with 2(6) q obtain d u where s: "s = d # u" by (cases s) (auto simp: parse_str.simps(2))
      show ?thesis
      proof (cases "d = CHR ''u''")
        case du: True
        with 2(6) q True s obtain y v z where y: "unicode_escape u = Some (y, v)" "parse_str v = Some (z, t)" "x = y @ z"
          by (auto simp: parse_str.simps(2) split: option.splits prod.splits)
        have "utf8_valid z" by (rule IH(1) [OF q True s du y(1) refl y(2)])
        with y utf8_unicode_escape [OF y(1)] show ?thesis by simp
      next
        case du: False
        with 2(6) q True s obtain y z where y: "simple_escape d = Some y" "parse_str u = Some (z, t)" "x = y # z"
          by (auto simp: parse_str.simps(2) split: option.splits)
        have "utf8_valid z" by (rule IH(2) [OF q True s du y(1) y(2)])
        with y simple_escape_ascii [OF y(1)] show ?thesis by simp
      qed
    next
      case b: False
      show ?thesis
      proof (cases "(of_char c :: nat) < 128")
        case True
        with 2(6) q b obtain z where "\<not> (of_char c :: nat) < 32" "parse_str s = Some (z, t)" "x = c # z"
          by (auto simp: parse_str.simps(2) split: if_splits)
        with IH(3) [OF q b _ True] True show ?thesis by simp
      next
        case False
        show ?thesis
        proof (cases "rune_len (c # s) = 0")
          case True
          with 2(6) q b False obtain z where "parse_str s = Some (z, t)" "x = replacement @ z"
            by (auto simp: parse_str.simps(2) split: if_splits)
          with IH(4) [OF q b _ False True] False show ?thesis by (simp add: utf8_replacement)
        next
          case n: False
          let ?n = "rune_len (c # s)"
          from 2(6) q b False n obtain z where z: "parse_str (drop (?n - 1) s) = Some (z, t)" "x = take ?n (c # s) @ z"
            by (auto simp: parse_str.simps(2) split: if_splits)
          have "utf8_valid z" using IH(5) [OF q b _ False n z(1)] False by simp
          moreover have "utf8_valid (take ?n (c # s) @ z) = utf8_valid z"
            by (rule utf8_valid_chunk) (use n False rune_len_prefix [OF n, of z] rune_len_bound [of "c # s"] in \<open>auto simp: hd_take\<close>)
          ultimately show ?thesis using z(2) by simp
        qed
      qed
    qed
  qed
qed simp

section \<open>Numbers\<close>

definition is_digit :: "char \<Rightarrow> bool" where
  "is_digit c \<longleftrightarrow> 48 \<le> (of_char c :: nat) \<and> (of_char c :: nat) \<le> 57"

definition num_int :: "string \<Rightarrow> (string \<times> string) option" where
  "num_int s = (case s of [] \<Rightarrow> None | c # t \<Rightarrow>
     if c = CHR ''0'' then Some ([c], t)
     else if is_digit c then Some (takeWhile is_digit s, dropWhile is_digit s) else None)"

definition num_digits :: "string \<Rightarrow> string \<Rightarrow> (string \<times> string) option" where
  "num_digits pre s = (if takeWhile is_digit s = [] then None else Some (pre @ takeWhile is_digit s, dropWhile is_digit s))"

definition num_frac :: "string \<Rightarrow> (string \<times> string) option" where
  "num_frac s = (case s of [] \<Rightarrow> Some ([], []) | c # t \<Rightarrow> if c = CHR ''.'' then num_digits [c] t else Some ([], s))"

definition num_exp :: "string \<Rightarrow> (string \<times> string) option" where
  "num_exp s = (case s of [] \<Rightarrow> Some ([], []) | c # t \<Rightarrow>
     if c = CHR ''e'' \<or> c = CHR ''E'' then
       (case t of [] \<Rightarrow> None | d # u \<Rightarrow> if d = CHR ''+'' \<or> d = CHR ''-'' then num_digits [c, d] u else num_digits [c] t)
     else Some ([], s))"

definition parse_num :: "string \<Rightarrow> (string \<times> string) option" where
  "parse_num s = (let sg = (if s \<noteq> [] \<and> hd s = CHR ''-'' then ''-'' else []) in
     Option.bind (num_int (drop (length sg) s)) (\<lambda>(a, s1). Option.bind (num_frac s1) (\<lambda>(b, s2).
       map_option (\<lambda>(c, s3). (sg @ a @ b @ c, s3)) (num_exp s2))))"

text \<open>The text of a number.\<close>

definition number_valid :: "string \<Rightarrow> bool" where
  "number_valid s \<longleftrightarrow> parse_num s = Some (s, [])"

text \<open>What can follow a value.\<close>

definition separated :: "string \<Rightarrow> bool" where
  "separated s \<longleftrightarrow> (s = [] \<or> hd s \<in> set [CHR '','', CHR '']'', CHR ''}'', CHR '' '', CHR 0x0A, CHR 0x0D, CHR 0x09])"

lemma separated_simps [simp]:
  "separated []" "separated (CHR '','' # s)" "separated (CHR '']'' # s)" "separated (CHR ''}'' # s)" "separated (CHR 0x0A # s)"
  by (simp_all add: separated_def)

lemma takeWhile_separated:
  assumes "separated t"
  shows "takeWhile is_digit (s @ t) = takeWhile is_digit s" "dropWhile is_digit (s @ t) = dropWhile is_digit s @ t"
proof -
  have "t = [] \<or> \<not> is_digit (hd t)" using assms by (auto simp: separated_def is_digit_def)
  then have t: "takeWhile is_digit t = []" "dropWhile is_digit t = t" by (cases t; simp)+
  show "takeWhile is_digit (s @ t) = takeWhile is_digit s" "dropWhile is_digit (s @ t) = dropWhile is_digit s @ t"
    using t by (induction s) auto
qed

lemma num_parts_separated:
  assumes "separated t"
  shows "num_int (s @ t) = map_option (apsnd (\<lambda>u. u @ t)) (num_int s)"
    and "num_digits p (s @ t) = map_option (apsnd (\<lambda>u. u @ t)) (num_digits p s)"
    and "num_frac (s @ t) = map_option (apsnd (\<lambda>u. u @ t)) (num_frac s)"
    and "num_exp (s @ t) = map_option (apsnd (\<lambda>u. u @ t)) (num_exp s)"
proof -
  show d: "num_digits p (s @ t) = map_option (apsnd (\<lambda>u. u @ t)) (num_digits p s)" for p s
    by (simp add: num_digits_def takeWhile_separated [OF assms])
  have hd: "c \<noteq> CHR ''0''" "\<not> is_digit c" "c \<noteq> CHR ''.''" "c \<noteq> CHR ''e''" "c \<noteq> CHR ''E''" "c \<noteq> CHR ''+''" "c \<noteq> CHR ''-''"
    if "t = c # u" for c u using assms that by (auto simp: separated_def is_digit_def)
  have tw: "takeWhile is_digit t = []" using hd(2) by (cases t) auto
  show "num_int (s @ t) = map_option (apsnd (\<lambda>u. u @ t)) (num_int s)"
  proof (cases s)
    case Nil
    then show ?thesis using hd(1,2) by (cases t) (auto simp: num_int_def)
  next
    case (Cons c u)
    then show ?thesis using takeWhile_separated [OF assms, of u] by (simp add: num_int_def)
  qed
  show "num_frac (s @ t) = map_option (apsnd (\<lambda>u. u @ t)) (num_frac s)"
    using hd(3) d by (cases s; cases t) (auto simp: num_frac_def)
  show "num_exp (s @ t) = map_option (apsnd (\<lambda>u. u @ t)) (num_exp s)"
  proof (cases s)
    case Nil
    then show ?thesis using hd(4,5) by (cases t) (auto simp: num_exp_def)
  next
    case (Cons c u)
    have none: "num_digits [c] t = None" using tw by (simp add: num_digits_def)
    show ?thesis
    proof (cases u)
      case Nil
      with none Cons show ?thesis using hd(6,7) by (cases t) (auto simp: num_exp_def)
    next
      case (Cons d v)
      with \<open>s = c # u\<close> show ?thesis using d [of "[c]" u] d [of "[c, d]" v] by (auto simp: num_exp_def)
    qed
  qed
qed

lemma parse_num_separated:
  assumes "separated t" and "s \<noteq> []"
  shows "parse_num (s @ t) = map_option (apsnd (\<lambda>u. u @ t)) (parse_num s)"
proof -
  define sg where "sg = (if s \<noteq> [] \<and> hd s = CHR ''-'' then ''-'' else [])"
  have "(if s @ t \<noteq> [] \<and> hd (s @ t) = CHR ''-'' then ''-'' else []) = sg" "drop (length sg) (s @ t) = drop (length sg) s @ t"
    using assms(2) by (cases s; simp add: sg_def)+
  then have st: "parse_num (s @ t) = Option.bind (num_int (drop (length sg) s @ t)) (\<lambda>(a, s1). Option.bind (num_frac s1) (\<lambda>(b, s2).
       map_option (\<lambda>(c, s3). (sg @ a @ b @ c, s3)) (num_exp s2)))"
    unfolding parse_num_def Let_def by presburger
  have s: "parse_num s = Option.bind (num_int (drop (length sg) s)) (\<lambda>(a, s1). Option.bind (num_frac s1) (\<lambda>(b, s2).
       map_option (\<lambda>(c, s3). (sg @ a @ b @ c, s3)) (num_exp s2)))"
    unfolding parse_num_def Let_def sg_def ..
  show ?thesis
  proof (cases "num_int (drop (length sg) s)")
    case (Some x)
    obtain a s1 where x: "x = (a, s1)" by fastforce
    show ?thesis
    proof (cases "num_frac s1")
      case (Some y)
      obtain b s2 where "y = (b, s2)" by fastforce
      with Some x \<open>num_int (drop (length sg) s) = Some x\<close> show ?thesis
        unfolding st s by (cases "num_exp s2") (simp_all add: num_parts_separated [OF assms(1)] split_beta)
    qed (use x \<open>num_int (drop (length sg) s) = Some x\<close> in \<open>simp add: st s num_parts_separated [OF assms(1)]\<close>)
  qed (simp add: st s num_parts_separated [OF assms(1)])
qed

lemma parse_number: "number_valid s \<Longrightarrow> separated t \<Longrightarrow> parse_num (s @ t) = Some (s, t)"
  using parse_num_separated [of t s] by (cases "s = []") (auto simp: number_valid_def parse_num_def num_int_def)

text \<open>A number that was parsed is a number, and at least one character of it was read.\<close>

lemma takeWhile_idem:
  assumes "u = [] \<or> \<not> P (hd u)"
  shows "takeWhile P (takeWhile P s @ u) = takeWhile P s" "dropWhile P (takeWhile P s @ u) = u"
proof -
  have "takeWhile P u = []" "dropWhile P u = u" using assms by (cases u; simp)+
  then show "takeWhile P (takeWhile P s @ u) = takeWhile P s" "dropWhile P (takeWhile P s @ u) = u"
    by (induction s) auto
qed

lemma num_int_again: "num_int s = Some (a, t) \<Longrightarrow> u = [] \<or> \<not> is_digit (hd u) \<Longrightarrow> num_int (a @ u) = Some (a, u)"
  by (cases s) (auto simp: num_int_def takeWhile_idem dest: set_takeWhileD split: if_splits)

lemma num_int_nonempty: "num_int s = Some (a, t) \<Longrightarrow> a \<noteq> [] \<and> hd a \<noteq> CHR ''-'' \<and> s = a @ t"
  by (cases s) (auto simp: num_int_def is_digit_def split: if_splits)

lemma num_frac_again:
  assumes "num_frac s = Some (a, t)" and "u = [] \<or> hd u = CHR ''e'' \<or> hd u = CHR ''E''"
  shows "num_frac (a @ u) = Some (a, u) \<and> (a = [] \<or> hd a = CHR ''.'')"
proof -
  have u: "u = [] \<or> \<not> is_digit (hd u)" "u = [] \<or> hd u \<noteq> CHR ''.''" using assms(2) by (auto simp: is_digit_def)
  then show ?thesis using assms(1)
    by (cases s) (auto simp: num_frac_def num_digits_def takeWhile_idem dest: set_takeWhileD split: if_splits list.splits)
qed

lemma num_exp_again: "num_exp s = Some (a, t) \<Longrightarrow> num_exp a = Some (a, []) \<and> (a = [] \<or> hd a = CHR ''e'' \<or> hd a = CHR ''E'')"
proof -
  have tw: "takeWhile is_digit (takeWhile is_digit v) = takeWhile is_digit v" "dropWhile is_digit (takeWhile is_digit v) = []" for v
    using takeWhile_idem [of "[]" is_digit v] by simp_all
  have hd: "takeWhile is_digit v = CHR ''+'' # w \<Longrightarrow> False" "takeWhile is_digit v = CHR ''-'' # w \<Longrightarrow> False" for v w
    by (cases v; simp add: is_digit_def split: if_splits)+
  show "num_exp s = Some (a, t) \<Longrightarrow> ?thesis"
    by (auto simp: num_exp_def num_digits_def tw dest: hd set_takeWhileD split: if_splits list.splits)
qed

lemma parse_num_valid:
  assumes "parse_num s = Some (x, t)"
  shows "number_valid x"
proof -
  define sg where "sg = (if s \<noteq> [] \<and> hd s = CHR ''-'' then ''-'' else [])"
  from assms obtain a s1 b s2 c where p: "num_int (drop (length sg) s) = Some (a, s1)" "num_frac s1 = Some (b, s2)"
    "num_exp s2 = Some (c, t)" "x = sg @ a @ b @ c"
    unfolding parse_num_def Let_def sg_def [symmetric] by (auto simp: Option.bind_eq_Some_conv)
  note c = num_exp_again [OF p(3)]
  note b = num_frac_again [OF p(2) c [THEN conjunct2]]
  have "b @ c = [] \<or> \<not> is_digit (hd (b @ c))" using b c by (cases b) (auto simp: is_digit_def)
  note a = num_int_again [OF p(1) this]
  have "(if x \<noteq> [] \<and> hd x = CHR ''-'' then ''-'' else []) = sg"
    using num_int_nonempty [OF p(1)] p(4) by (auto simp: sg_def hd_append)
  moreover have "drop (length sg) x = a @ b @ c" using p(4) by simp
  ultimately show ?thesis
    using a b c p(4) by (simp add: number_valid_def parse_num_def Let_def)
qed

section \<open>Values\<close>

definition is_space :: "char \<Rightarrow> bool" where
  "is_space c \<longleftrightarrow> c = CHR '' '' \<or> c = CHR 0x09 \<or> c = CHR 0x0A \<or> c = CHR 0x0D"

definition skip_space :: "string \<Rightarrow> string" where
  "skip_space = dropWhile is_space"

definition p_literal :: "string \<Rightarrow> (json \<times> string) option" where
  "p_literal s =
     (if take 4 s = ''null'' then Some (JNull, drop 4 s)
      else if take 4 s = ''true'' then Some (JBool True, drop 4 s)
      else if take 5 s = ''false'' then Some (JBool False, drop 5 s)
      else map_option (apfst JNum) (parse_num s))"

text \<open>
  The arguments are fuel, the levels of nesting still allowed, and the text; \<open>p_elems\<close> and \<open>p_members\<close>
  read the rest of an array or object that has at least one more element.
\<close>

fun p_value :: "nat \<Rightarrow> nat \<Rightarrow> string \<Rightarrow> (json \<times> string) option"
  and p_elems :: "nat \<Rightarrow> nat \<Rightarrow> string \<Rightarrow> (json list \<times> string) option"
  and p_members :: "nat \<Rightarrow> nat \<Rightarrow> string \<Rightarrow> ((string \<times> json) list \<times> string) option" where
  "p_value 0 d s = None"
| "p_value (Suc f) d s = (case skip_space s of
     [] \<Rightarrow> None
   | c # t \<Rightarrow>
       if c = CHR ''['' then
         (if d = 0 then None
          else case skip_space t of
            [] \<Rightarrow> None
          | e # u \<Rightarrow> if e = CHR '']'' then Some (JArr [], u) else map_option (apfst JArr) (p_elems f (d - 1) t))
       else if c = CHR ''{'' then
         (if d = 0 then None
          else case skip_space t of
            [] \<Rightarrow> None
          | e # u \<Rightarrow> if e = CHR ''}'' then Some (JObj [], u) else map_option (apfst JObj) (p_members f (d - 1) t))
       else if c = CHR 0x22 then map_option (apfst JStr) (parse_str t)
       else p_literal (c # t))"
| "p_elems 0 d s = None"
| "p_elems (Suc f) d s = Option.bind (p_value f d s) (\<lambda>(j, t). case skip_space t of
     [] \<Rightarrow> None
   | c # u \<Rightarrow> if c = CHR '']'' then Some ([j], u)
              else if c = CHR '','' then map_option (apfst ((#) j)) (p_elems f d u) else None)"
| "p_members 0 d s = None"
| "p_members (Suc f) d s = (case skip_space s of
     [] \<Rightarrow> None
   | q # s1 \<Rightarrow> if q \<noteq> CHR 0x22 then None else Option.bind (parse_str s1) (\<lambda>(k, s2). case skip_space s2 of
       [] \<Rightarrow> None
     | c # s3 \<Rightarrow> if c \<noteq> CHR '':'' then None else Option.bind (p_value f d s3) (\<lambda>(j, s4). case skip_space s4 of
         [] \<Rightarrow> None
       | e # s5 \<Rightarrow> if e = CHR ''}'' then Some ([(k, j)], s5)
                  else if e = CHR '','' then map_option (apfst ((#) (k, j))) (p_members f d s5) else None)))"

definition max_depth :: nat where
  "max_depth = 10000"

definition parse_first :: "string \<Rightarrow> (json \<times> string) option" where
  "parse_first s = p_value (2 * length s + 2) max_depth s"

definition parse_text :: "string \<Rightarrow> json option" where
  "parse_text s = (case parse_first s of
     None \<Rightarrow> None
   | Some (j, t) \<Rightarrow> if skip_space t = [] then Some j else None)"

fun comma_sep :: "string list \<Rightarrow> string" where
  "comma_sep [] = []"
| "comma_sep [s] = s"
| "comma_sep (s # t # ss) = s @ CHR '','' # comma_sep (t # ss)"

definition quote_str :: "string \<Rightarrow> string" where
  "quote_str s = CHR 0x22 # escape_str s @ [CHR 0x22]"

fun print_text :: "json \<Rightarrow> string" where
  "print_text JNull = ''null''"
| "print_text (JBool b) = (if b then ''true'' else ''false'')"
| "print_text (JNum s) = s"
| "print_text (JStr s) = quote_str s"
| "print_text (JArr js) = CHR ''['' # comma_sep (map print_text js) @ '']''"
| "print_text (JObj fs) = CHR ''{'' # comma_sep (map (\<lambda>(k, j). quote_str k @ CHR '':'' # print_text j) fs) @ ''}''"

section \<open>Values that are read back\<close>

text \<open>UTF-8 strings, well-formed numbers, and at most \<open>d\<close> levels of nesting.\<close>

fun valid_json :: "nat \<Rightarrow> json \<Rightarrow> bool" where
  "valid_json d JNull = True"
| "valid_json d (JBool b) = True"
| "valid_json d (JNum s) = number_valid s"
| "valid_json d (JStr s) = utf8_valid s"
| "valid_json d (JArr js) = (0 < d \<and> (\<forall>j \<in> set js. valid_json (d - 1) j))"
| "valid_json d (JObj fs) = (0 < d \<and> (\<forall>(k, j) \<in> set fs. utf8_valid k \<and> valid_json (d - 1) j))"

lemma valid_json_mono: "valid_json d j \<Longrightarrow> d \<le> d' \<Longrightarrow> valid_json d' j"
proof (induction d j arbitrary: d' rule: valid_json.induct)
  case (5 d js)
  then show ?case by (auto simp: diff_le_mono)
next
  case (6 d fs)
  then show ?case by (fastforce simp: diff_le_mono)
qed simp_all

lemma skip_space_no: "\<not> is_space c \<Longrightarrow> skip_space (c # s) = c # s"
  by (simp add: skip_space_def)

lemma number_start:
  assumes "number_valid s"
  obtains c t where "s = c # t" and "c = CHR ''-'' \<or> is_digit c"
proof (cases s)
  case Nil
  with assms show ?thesis by (simp add: number_valid_def parse_num_def num_int_def)
next
  case (Cons c t)
  with assms have "c = CHR ''-'' \<or> num_int s \<noteq> None"
    by (auto simp: number_valid_def parse_num_def Let_def Option.bind_eq_Some_conv)
  then have "c = CHR ''-'' \<or> is_digit c" using Cons by (auto simp: num_int_def is_digit_def split: if_splits)
  with Cons that show ?thesis by blast
qed

text \<open>The text of a value starts with none of the characters that mean something else there.\<close>

lemma print_start:
  assumes "valid_json d j"
  obtains c t where "print_text j = c # t" and "\<not> is_space c" and "c \<noteq> CHR '']''" and "c \<noteq> CHR ''}''"
proof (cases j)
  case (JNum s)
  with assms number_start [of s] obtain c t where "s = c # t" "c = CHR ''-'' \<or> is_digit c" by auto
  moreover from this(2) have "\<not> is_space c" "c \<noteq> CHR '']''" "c \<noteq> CHR ''}''" by (auto simp: is_digit_def is_space_def)
  ultimately show ?thesis using JNum that [of c t] by simp
next
  case (JBool b)
  with that show ?thesis by (cases b) (auto simp: is_space_def)
qed (use that in \<open>auto simp: is_space_def quote_str_def\<close>)

lemma p_number:
  assumes "number_valid s" and "separated t" and "0 < f"
  shows "p_value f d (s @ t) = Some (JNum s, t)"
proof -
  obtain c u where c: "s = c # u" "c = CHR ''-'' \<or> is_digit c" using number_start [OF assms(1)] by blast
  have "\<not> is_space c" "c \<noteq> CHR ''[''" "c \<noteq> CHR ''{''" "c \<noteq> CHR 0x22" "c \<noteq> CHR ''n''" "c \<noteq> CHR ''t''" "c \<noteq> CHR ''f''"
    using c(2) by (auto simp: is_digit_def is_space_def)
  with parse_number [OF assms(1,2)] c(1) assms(3) show ?thesis
    by (cases f) (simp_all add: skip_space_no p_literal_def)
qed

lemma p_string: "utf8_valid s \<Longrightarrow> 0 < f \<Longrightarrow> p_value f d (quote_str s @ t) = Some (JStr s, t)"
  using parse_escape_str [of s t] by (cases f) (simp_all add: quote_str_def skip_space_no is_space_def)

text \<open>The rest of an array is read back if its elements are.\<close>

lemma p_elems_print:
  assumes "js \<noteq> []"
    and "\<And>j f t. j \<in> set js \<Longrightarrow> 2 * length (print_text j) \<le> f \<Longrightarrow> separated t \<Longrightarrow> p_value f d (print_text j @ t) = Some (j, t)"
    and "2 * length (comma_sep (map print_text js)) + 1 \<le> f"
  shows "p_elems f d (comma_sep (map print_text js) @ CHR '']'' # t) = Some (js, t)"
  using assms
proof (induction js arbitrary: f)
  case (Cons j js)
  obtain f' where f: "f = Suc f'" using Cons.prems(3) by (cases f) auto
  show ?case
  proof (cases js)
    case Nil
    with Cons.prems f show ?thesis by (simp add: skip_space_no is_space_def)
  next
    case (Cons k ks)
    have "p_value f' d (print_text j @ CHR '','' # comma_sep (map print_text js) @ CHR '']'' # t) =
        Some (j, CHR '','' # comma_sep (map print_text js) @ CHR '']'' # t)"
      using Cons Cons.prems(3) f by (intro Cons.prems(2)) simp_all
    moreover have "p_elems f' d (comma_sep (map print_text js) @ CHR '']'' # t) = Some (js, t)"
      using Cons Cons.prems f by (intro Cons.IH) simp_all
    ultimately show ?thesis using Cons f by (simp add: skip_space_no is_space_def)
  qed
qed simp

lemma p_members_print:
  assumes "fs \<noteq> []" and "\<And>k j. (k, j) \<in> set fs \<Longrightarrow> utf8_valid k"
    and "\<And>k j f t. (k, j) \<in> set fs \<Longrightarrow> 2 * length (print_text j) \<le> f \<Longrightarrow> separated t \<Longrightarrow> p_value f d (print_text j @ t) = Some (j, t)"
    and "2 * length (comma_sep (map (\<lambda>(k, j). quote_str k @ CHR '':'' # print_text j) fs)) + 1 \<le> f"
  shows "p_members f d (comma_sep (map (\<lambda>(k, j). quote_str k @ CHR '':'' # print_text j) fs) @ CHR ''}'' # t) = Some (fs, t)"
  using assms
proof (induction fs arbitrary: f)
  case (Cons x fs)
  obtain k j where x: "x = (k, j)" by fastforce
  obtain f' where f: "f = Suc f'" using Cons.prems(4) by (cases f) auto
  have key: "parse_str (escape_str k @ CHR 0x22 # u) = Some (k, u)" for u
    using Cons.prems(2) x by (intro parse_escape_str) auto
  show ?case
  proof (cases fs)
    case Nil
    have "p_value f' d (print_text j @ CHR ''}'' # t) = Some (j, CHR ''}'' # t)"
      using Nil x Cons.prems(4) f by (intro Cons.prems(3) [of k]) (simp_all add: quote_str_def)
    with Nil x key f show ?thesis by (simp add: quote_str_def skip_space_no is_space_def)
  next
    case (Cons y ys)
    let ?rest = "comma_sep (map (\<lambda>(k, j). quote_str k @ CHR '':'' # print_text j) fs) @ CHR ''}'' # t"
    have "p_value f' d (print_text j @ CHR '','' # ?rest) = Some (j, CHR '','' # ?rest)"
      using Cons x Cons.prems(4) f by (intro Cons.prems(3) [of k]) (simp_all add: quote_str_def)
    moreover have "p_members f' d ?rest = Some (fs, t)"
    proof (rule Cons.IH)
      show "utf8_valid k" if "(k, j) \<in> set fs" for k j using Cons.prems(2) [of k j] that by simp
      show "p_value g d (print_text j @ u) = Some (j, u)"
        if "(k, j) \<in> set fs" "2 * length (print_text j) \<le> g" "separated u" for k j g u
        using Cons.prems(3) [OF _ that(2,3), of k] that(1) by simp
    qed (use Cons Cons.prems(4) x f in simp_all)
    ultimately show ?thesis using Cons x key f by (simp add: quote_str_def skip_space_no is_space_def)
  qed
qed simp

lemma comma_sep_start: "xs \<noteq> [] \<Longrightarrow> hd xs \<noteq> [] \<Longrightarrow> \<exists>t. comma_sep xs = hd (hd xs) # t"
  by (cases xs rule: comma_sep.cases) (auto simp: neq_Nil_conv)

lemma p_value_array:
  assumes "0 < d" and "js \<noteq> []" and "\<And>j. j \<in> set js \<Longrightarrow> valid_json (d - 1) j"
    and "p_elems f (d - 1) (comma_sep (map print_text js) @ CHR '']'' # t) = Some (js, t)"
  shows "p_value (Suc f) d (print_text (JArr js) @ t) = Some (JArr js, t)"
proof -
  let ?body = "comma_sep (map print_text js)"
  have "valid_json (d - 1) (hd js)" using assms(2,3) by simp
  from print_start [OF this] obtain c u where c: "print_text (hd js) = c # u" "\<not> is_space c" "c \<noteq> CHR '']''" by blast
  have "\<exists>v. ?body = hd (hd (map print_text js)) # v" by (rule comma_sep_start) (use assms(2) c in \<open>simp_all add: hd_map\<close>)
  then obtain v where "?body = c # v" using c(1) assms(2) by (auto simp: hd_map)
  with assms(1,4) c show ?thesis by (simp add: skip_space_no) (simp add: skip_space_no is_space_def)
qed

lemma p_value_object:
  assumes "0 < d" and "fs \<noteq> []"
    and "p_members f (d - 1) (comma_sep (map (\<lambda>(k, j). quote_str k @ CHR '':'' # print_text j) fs) @ CHR ''}'' # t) = Some (fs, t)"
  shows "p_value (Suc f) d (print_text (JObj fs) @ t) = Some (JObj fs, t)"
proof -
  obtain v where "comma_sep (map (\<lambda>(k, j). quote_str k @ CHR '':'' # print_text j) fs) = CHR 0x22 # v"
    using assms(2) comma_sep_start [of "map (\<lambda>(k, j). quote_str k @ CHR '':'' # print_text j) fs"]
    by (auto simp: hd_map split_beta quote_str_def)
  with assms(1,3) show ?thesis by (simp add: skip_space_no is_space_def)
qed

lemma p_value_print:
  "valid_json d j \<Longrightarrow> 2 * length (print_text j) \<le> f \<Longrightarrow> separated t \<Longrightarrow> p_value f d (print_text j @ t) = Some (j, t)"
proof (induction d j arbitrary: f t rule: valid_json.induct)
  case (3 d s)
  then have "0 < f" using number_start [of s] by fastforce
  with 3 show ?case by (simp add: p_number)
next
  case (4 d s)
  then have "0 < f" by (simp add: quote_str_def)
  with 4 show ?case by (simp add: p_string)
next
  case (5 d js)
  obtain f' where f: "f = Suc f'" using 5(3) by (cases f) auto
  have el: "p_elems f' (d - 1) (comma_sep (map print_text js) @ CHR '']'' # t) = Some (js, t)" if "js \<noteq> []"
    using 5 f by (intro p_elems_print [OF that]) simp_all
  with 5(2) p_value_array [of d js f' t] show ?case
    unfolding f by (cases "js = []") (simp_all add: skip_space_no is_space_def)
next
  case (6 d fs)
  obtain f' where f: "f = Suc f'" using 6(3) by (cases f) auto
  have "p_members f' (d - 1) (comma_sep (map (\<lambda>(k, j). quote_str k @ CHR '':'' # print_text j) fs) @ CHR ''}'' # t) = Some (fs, t)" if "fs \<noteq> []"
  proof (rule p_members_print [OF that])
    show "p_value g (d - 1) (print_text j @ u) = Some (j, u)"
      if "(k, j) \<in> set fs" "2 * length (print_text j) \<le> g" "separated u" for k j g u
      using 6(1) [OF that(1) refl _ that(2,3)] 6(2) that(1) by auto
  qed (use 6(2,3) f in auto)
  with 6(2) p_value_object [of d fs f' t] show ?case
    unfolding f by (cases "fs = []") (simp_all add: skip_space_no is_space_def)
next
  case (1 d)
  then show ?case by (cases f) (simp_all add: skip_space_no is_space_def p_literal_def)
next
  case (2 d b)
  then show ?case by (cases f; cases b) (simp_all add: skip_space_no is_space_def p_literal_def)
qed

text \<open>Whatever is parsed is such a value.\<close>

lemma p_literal_valid: "p_literal s = Some (j, t) \<Longrightarrow> valid_json d j"
  by (auto simp: p_literal_def dest: parse_num_valid split: if_splits)

lemma skip_space_length: "length (skip_space s) \<le> length s"
  by (simp add: skip_space_def length_dropWhile_le)

lemma parse_str_length: "parse_str s = Some (x, t) \<Longrightarrow> length t < length s"
  by (induction s arbitrary: x t rule: parse_str.induct)
     (auto simp: parse_str.simps(2) split: if_splits list.splits option.splits prod.splits dest!: unicode_escape_length, fastforce+)

lemma skip_space_Cons: "skip_space s = c # t \<Longrightarrow> length t < length s"
  using skip_space_length [of s] by simp

lemma p_value_cases:
  assumes "p_value (Suc f) d s = Some (j, t)"
  obtains (empty) "j = JArr [] \<or> j = JObj []" "0 < d" "length t \<le> length s"
  | (arr) u js where "p_elems f (d - 1) u = Some (js, t)" "j = JArr js" "0 < d" "length u \<le> length s"
  | (obj) u fs where "p_members f (d - 1) u = Some (fs, t)" "j = JObj fs" "0 < d" "length u \<le> length s"
  | (str) u x where "parse_str u = Some (x, t)" "j = JStr x" "length u \<le> length s"
  | (lit) u where "p_literal u = Some (j, t)" "length u \<le> length s"
proof -
  from assms obtain c u where c: "skip_space s = c # u" by (auto split: list.splits)
  have u: "length u \<le> length s" "length (c # u) \<le> length s" using skip_space_Cons [OF c] by simp_all
  consider "c = CHR ''[''" | "c = CHR ''{''" | "c = CHR 0x22" | "c \<noteq> CHR ''[''" "c \<noteq> CHR ''{''" "c \<noteq> CHR 0x22" by blast
  then show thesis
  proof cases
    case 1
    with assms c obtain e v where v: "0 < d" "skip_space u = e # v"
      "(if e = CHR '']'' then Some (JArr [], v) else map_option (apfst JArr) (p_elems f (d - 1) u)) = Some (j, t)"
      by (auto split: list.splits if_splits)
    show thesis
    proof (cases "e = CHR '']''")
      case True
      with v(3) skip_space_Cons [OF v(2)] u(1) show ?thesis by (intro empty [OF _ v(1)]) simp_all
    next
      case False
      with v(3) obtain js where "p_elems f (d - 1) u = Some (js, t)" "j = JArr js" by auto
      with v(1) u(1) show ?thesis by (intro arr)
    qed
  next
    case 2
    with assms c obtain e v where v: "0 < d" "skip_space u = e # v"
      "(if e = CHR ''}'' then Some (JObj [], v) else map_option (apfst JObj) (p_members f (d - 1) u)) = Some (j, t)"
      by (auto split: list.splits if_splits)
    show thesis
    proof (cases "e = CHR ''}''")
      case True
      with v(3) skip_space_Cons [OF v(2)] u(1) show ?thesis by (intro empty [OF _ v(1)]) simp_all
    next
      case False
      with v(3) obtain fs where "p_members f (d - 1) u = Some (fs, t)" "j = JObj fs" by auto
      with v(1) u(1) show ?thesis by (intro obj)
    qed
  next
    case 3
    with assms c obtain x where "parse_str u = Some (x, t)" "j = JStr x" by auto
    with u(1) show thesis by (intro str)
  next
    case 4
    with assms c have "p_literal (c # u) = Some (j, t)" by simp
    with u(2) show thesis by (intro lit)
  qed
qed

lemma case_list_Some:
  "(case xs of [] \<Rightarrow> None | c # t \<Rightarrow> g c t) = Some y \<longleftrightarrow> (\<exists>c t. xs = c # t \<and> g c t = Some y)"
  by (cases xs) simp_all

lemma if_None_Some: "(if P then None else r) = Some y \<longleftrightarrow> \<not> P \<and> r = Some y"
  by simp

lemmas parser_steps = case_list_Some if_None_Some Option.bind_eq_Some_conv split_paired_Ex prod.case

lemma p_elems_cases:
  assumes "p_elems (Suc f) d s = Some (js, t)"
  obtains (final) j u where "p_value f d s = Some (j, u)" "js = [j]" "length t \<le> length u"
  | (more) j ks u v where "p_value f d s = Some (j, v)" "p_elems f d u = Some (ks, t)" "js = j # ks" "length u \<le> length v"
proof -
  from assms obtain j v c u where v: "p_value f d s = Some (j, v)" and u: "skip_space v = c # u" and
    c: "(if c = CHR '']'' then Some ([j], u)
         else if c = CHR '','' then map_option (apfst ((#) j)) (p_elems f d u) else None) = Some (js, t)"
    unfolding p_elems.simps parser_steps by blast
  show thesis
  proof (cases "c = CHR '']''")
    case True
    with c skip_space_Cons [OF u] show ?thesis by (intro final [OF v]) simp_all
  next
    case False
    with c obtain ks where "p_elems f d u = Some (ks, t)" "js = j # ks" by (auto split: if_splits)
    with skip_space_Cons [OF u] show ?thesis by (intro more [OF v] less_imp_le)
  qed
qed

lemma p_members_cases:
  assumes "p_members (Suc f) d s = Some (fs, t)"
  obtains (final) a k u b j v where "parse_str a = Some (k, u)" "p_value f d b = Some (j, v)" "fs = [(k, j)]"
  | (more) a k u b j v w gs where "parse_str a = Some (k, u)" "p_value f d b = Some (j, v)" "p_members f d w = Some (gs, t)"
      "fs = (k, j) # gs"
proof -
  from assms obtain a k u b j v c w where kj: "parse_str a = Some (k, u)" "p_value f d b = Some (j, v)" and
    c: "(if c = CHR ''}'' then Some ([(k, j)], w)
         else if c = CHR '','' then map_option (apfst ((#) (k, j))) (p_members f d w) else None) = Some (fs, t)"
    unfolding p_members.simps parser_steps by blast
  show thesis
  proof (cases "c = CHR ''}''")
    case True
    with c kj final show ?thesis by simp
  next
    case False
    with c obtain gs where "p_members f d w = Some (gs, t)" "fs = (k, j) # gs" by (auto split: if_splits)
    with kj more show ?thesis by blast
  qed
qed

lemma parsed_valid:
  "p_value f d s = Some (j, t) \<Longrightarrow> valid_json d j"
  "p_elems f d s = Some (js, t) \<Longrightarrow> \<forall>j \<in> set js. valid_json d j"
  "p_members f d s = Some (fs, t) \<Longrightarrow> \<forall>(k, j) \<in> set fs. utf8_valid k \<and> valid_json d j"
proof (induction f arbitrary: d s j js fs t)
  case (Suc f)
  {
    case 1
    then show ?case
      by (cases rule: p_value_cases) (auto simp: parse_str_utf8 p_literal_valid dest: Suc.IH)
  next
    case 2
    then show ?case by (cases rule: p_elems_cases) (auto dest: Suc.IH)
  next
    case 3
    then show ?case
    proof (cases rule: p_members_cases)
      case (more a k u b j v w gs)
      then show ?thesis using Suc.IH(1) [OF more(2)] Suc.IH(3) [OF more(3)] parse_str_utf8 [OF more(1)] by simp
    qed (use Suc.IH(1) parse_str_utf8 in auto)
  }
qed simp_all

section \<open>Enough fuel\<close>

lemma num_part_length:
  "num_int s = Some (a, t) \<Longrightarrow> length t \<le> length s" "num_frac s = Some (a, t) \<Longrightarrow> length t \<le> length s"
  "num_exp s = Some (a, t) \<Longrightarrow> length t \<le> length s"
  by (auto simp: num_int_def num_frac_def num_exp_def num_digits_def intro: le_SucI length_dropWhile_le split: list.splits if_splits)

lemma parse_num_length: "parse_num s = Some (x, t) \<Longrightarrow> length t \<le> length s"
  unfolding parse_num_def Let_def
  by (auto simp: Option.bind_eq_Some_conv dest!: num_part_length)

lemma p_literal_length: "p_literal s = Some (j, t) \<Longrightarrow> length t \<le> length s"
  by (auto simp: p_literal_def dest: parse_num_length split: if_splits)

lemma consumes:
  "p_value f d s = Some (j, t) \<Longrightarrow> length t \<le> length s"
  "p_elems f d s = Some (js, t) \<Longrightarrow> length t \<le> length s"
  "p_members f d s = Some (fs, t) \<Longrightarrow> length t \<le> length s"
proof (induction f arbitrary: d s j js fs t)
  case (Suc f)
  {
    case 1
    then show ?case
    proof (cases rule: p_value_cases)
      case (str u x)
      then show ?thesis using parse_str_length [OF str(1)] by linarith
    next
      case (lit u)
      then show ?thesis using p_literal_length [OF lit(1)] by linarith
    next
      case (arr u js)
      then show ?thesis using Suc.IH(2) [OF arr(1)] by linarith
    next
      case (obj u fs)
      then show ?thesis using Suc.IH(3) [OF obj(1)] by linarith
    qed
  next
    case 2
    then show ?case
    proof (cases rule: p_elems_cases)
      case (final k u)
      then show ?thesis using Suc.IH(1) [OF final(1)] by linarith
    next
      case (more k ks u v)
      then show ?thesis using Suc.IH(1) [OF more(1)] Suc.IH(2) [OF more(2)] by linarith
    qed
  next
    case 3
    then obtain s1 q k s2 s3 e j s4 s5 x where c: "skip_space s = q # s1" "parse_str s1 = Some (k, s2)" "skip_space s2 = e # s3"
      "p_value f d s3 = Some (j, s4)" "skip_space s4 = x # s5"
      "(if x = CHR ''}'' then Some ([(k, j)], s5)
        else if x = CHR '','' then map_option (apfst ((#) (k, j))) (p_members f d s5) else None) = Some (fs, t)"
      unfolding p_members.simps parser_steps by blast
    then have "t = s5 \<or> (\<exists>gs. p_members f d s5 = Some (gs, t))" by (auto split: if_splits)
    moreover have "length s5 \<le> length s"
      using skip_space_Cons [OF c(1)] parse_str_length [OF c(2)] skip_space_Cons [OF c(3)] Suc.IH(1) [OF c(4)] skip_space_Cons [OF c(5)]
      by linarith
    ultimately show ?case using Suc.IH(3) order_trans by blast
  }
qed simp_all

text \<open>What one step of the parser does depends on the fuel only through its recursive calls. With twice the length of the text,
  more fuel makes no difference.\<close>

lemma p_value_cong:
  assumes "\<And>c t. skip_space s = c # t \<Longrightarrow> p_elems f' (d - 1) t = p_elems f (d - 1) t \<and> p_members f' (d - 1) t = p_members f (d - 1) t"
  shows "p_value (Suc f') d s = p_value (Suc f) d s"
  using assms by (simp split: list.split)

lemma p_elems_cong:
  assumes "p_value f' d s = p_value f d s"
    and "\<And>j t c u. p_value f d s = Some (j, t) \<Longrightarrow> skip_space t = c # u \<Longrightarrow> p_elems f' d u = p_elems f d u"
  shows "p_elems (Suc f') d s = p_elems (Suc f) d s"
  using assms by (simp split: Option.bind_split list.split)

lemma p_members_cong:
  assumes "\<And>q s1 k s2 e s3. skip_space s = q # s1 \<Longrightarrow> parse_str s1 = Some (k, s2) \<Longrightarrow> skip_space s2 = e # s3 \<Longrightarrow>
      p_value f' d s3 = p_value f d s3 \<and>
      (\<forall>j s4 x s5. p_value f d s3 = Some (j, s4) \<longrightarrow> skip_space s4 = x # s5 \<longrightarrow> p_members f' d s5 = p_members f d s5)"
  shows "p_members (Suc f') d s = p_members (Suc f) d s"
  using assms by (simp split: Option.bind_split list.split)

lemma more_fuel:
  "2 * length s + 1 \<le> f \<Longrightarrow> p_value (Suc f) d s = p_value f d s"
  "2 * length s + 2 \<le> f \<Longrightarrow> p_elems (Suc f) d s = p_elems f d s"
  "2 * length s + 2 \<le> f \<Longrightarrow> p_members (Suc f) d s = p_members f d s"
proof (induction f arbitrary: d s)
  case (Suc f)
  {
    case 1
    show ?case
    proof (rule p_value_cong)
      fix c t assume "skip_space s = c # t"
      from skip_space_Cons [OF this] 1 have "2 * length t + 2 \<le> f" by simp
      from Suc.IH(2,3) [OF this] show "p_elems (Suc f) (d - 1) t = p_elems f (d - 1) t \<and> p_members (Suc f) (d - 1) t = p_members f (d - 1) t" by blast
    qed
  next
    case 2
    show ?case
    proof (rule p_elems_cong)
      show "p_value (Suc f) d s = p_value f d s" using 2 by (intro Suc.IH(1)) simp
      fix j t c u assume p: "p_value f d s = Some (j, t)" and c: "skip_space t = c # u"
      show "p_elems (Suc f) d u = p_elems f d u"
        using skip_space_Cons [OF c] consumes(1) [OF p] 2 by (intro Suc.IH(2)) simp
    qed
  next
    case 3
    show ?case
    proof (rule p_members_cong, intro conjI allI impI)
      fix q s1 k s2 e s3 assume c1: "skip_space s = q # s1" and p: "parse_str s1 = Some (k, s2)" and c2: "skip_space s2 = e # s3"
      have l3: "length s3 < length s" using skip_space_Cons [OF c1] parse_str_length [OF p] skip_space_Cons [OF c2] by linarith
      then show "p_value (Suc f) d s3 = p_value f d s3" using 3 by (intro Suc.IH(1)) simp
      fix j s4 x s5 assume v: "p_value f d s3 = Some (j, s4)" and c3: "skip_space s4 = x # s5"
      show "p_members (Suc f) d s5 = p_members f d s5"
        using skip_space_Cons [OF c3] consumes(1) [OF v] l3 3 by (intro Suc.IH(3)) simp
    qed
  }
qed simp_all

lemma enough_fuel: "2 * length s + 1 \<le> f \<Longrightarrow> p_value f d s = p_value (2 * length s + 1) d s"
proof (induction f)
  case (Suc f)
  then show ?case using more_fuel(1) [of s f d] by (cases "2 * length s + 1 = Suc f") (simp_all del: p_value.simps)
qed simp

section \<open>The texts of members\<close>

text \<open>A \<^verbatim>\<open>json.RawMessage\<close> holds the characters of its value. These functions cut a text into the texts of
  its elements or members.\<close>

definition cut_value :: "string \<Rightarrow> (string \<times> string) option" where
  "cut_value s = (let b = skip_space s in map_option (\<lambda>(j, t). (take (length b - length t) b, t)) (parse_first b))"

fun cut_elems :: "nat \<Rightarrow> string \<Rightarrow> string list" where
  "cut_elems 0 s = []"
| "cut_elems (Suc f) s = (case cut_value s of
     None \<Rightarrow> []
   | Some (x, t) \<Rightarrow> x # (case skip_space t of [] \<Rightarrow> [] | c # u \<Rightarrow> if c = CHR '','' then cut_elems f u else []))"

fun cut_members :: "nat \<Rightarrow> string \<Rightarrow> (string \<times> string) list" where
  "cut_members 0 s = []"
| "cut_members (Suc f) s = (case skip_space s of
     [] \<Rightarrow> []
   | q # s1 \<Rightarrow> (case parse_str s1 of
       None \<Rightarrow> []
     | Some (k, s2) \<Rightarrow> (case cut_value (drop 1 (skip_space s2)) of
         None \<Rightarrow> []
       | Some (x, t) \<Rightarrow> (k, x) # (case skip_space t of [] \<Rightarrow> [] | c # u \<Rightarrow> if c = CHR '','' then cut_members f u else []))))"

definition params_text :: "string \<Rightarrow> string" where
  "params_text obj = (let b = skip_space obj; fs = cut_members (length b) (drop 1 b)
     in case map_of (rev (map (\<lambda>(k, v). (strings_ToLower k, v)) fs)) ''params'' of None \<Rightarrow> [] | Some x \<Rightarrow> x)"

definition span_text :: "string \<Rightarrow> nat \<Rightarrow> string" where
  "span_text s i = (let b = skip_space s in
     if b \<noteq> [] \<and> hd b = CHR ''['' then
       (let xs = cut_elems (length b) (drop 1 b) in if i < length xs then params_text (xs ! i) else [])
     else params_text b)"

section \<open>The codec\<close>

definition go_text :: JsonText where
  "go_text = \<lparr>js_print = (\<lambda>j. bytes_of (print_text j)), js_parse = (\<lambda>b. parse_text (string_of b)),
     js_spans = (\<lambda>b i. bytes_of (span_text (string_of b) i)),
     js_first = (\<lambda>b. map_option fst (parse_first (string_of b)))\<rparr>"

lemma print_text_nonempty: "valid_json d j \<Longrightarrow> print_text j \<noteq> []"
  by (cases rule: print_start) auto

lemma parse_print_text:
  assumes "valid_json max_depth j" and "separated t" and "skip_space t = []"
  shows "parse_text (print_text j @ t) = Some j"
  using p_value_print [OF assms(1) _ assms(2), of "2 * length (print_text j @ t) + 2"] assms(3)
  by (simp add: parse_text_def parse_first_def)

text \<open>The codec keeps the laws its clients rely on.\<close>

interpretation go_json: json_text go_text "valid_json max_depth"
proof
  show "valid_json max_depth j" if "js_parse go_text b = Some j" for b j
    using that by (auto simp: go_text_def parse_text_def parse_first_def simp del: p_value.simps dest: parsed_valid(1) split: option.splits if_splits)
  show "valid_json max_depth j" if "valid_json max_depth (JObj fs)" "(k, j) \<in> set fs" for fs k j
    using that valid_json_mono [of "max_depth - 1" j max_depth] by auto
  show "js_parse go_text (js_print go_text j) = Some j" if "valid_json max_depth j" for j
    using parse_print_text [OF that, of "[]"] by (simp add: go_text_def skip_space_def)
  show "js_print go_text j \<noteq> []" if "valid_json max_depth j" for j
    using print_text_nonempty [OF that] by (simp add: go_text_def)
qed

end
