(* ===== verification/Eventlog.thy ===== *)
theory Eventlog
  imports Prelude
begin

text \<open>
  The partitioned log of \<^verbatim>\<open>internal/eventlog/eventlog.go\<close>: keyed partitioning with FNV-1a,
  per-partition offsets, consumer-group commits, and live subscriptions that are evicted when they
  fall behind. Every method runs under the log's lock and is one atomic transformer.

  A Go channel is shared between the log and its consumer, and the consumer may drain it after the
  log has dropped it. So the channels are a store addressed by the subscription id
  (\<open>lg_chans\<close>), and \<open>lg_subs\<close> holds the ids the log still sends to. The sends of one
  \<^verbatim>\<open>Append\<close> to different channels do not affect each other, so the random order in which Go
  iterates over the map of subscriptions is not observable.

  \<^verbatim>\<open>json.Marshal\<close> is the caller's: \<^verbatim>\<open>Append\<close> receives its result.
\<close>

section \<open>State\<close>

record Event =
  ev_Partition :: int
  ev_Offset :: u64
  ev_Key :: string
  ev_Type :: string
  ev_Payload :: bytes

record Chan =
  ch_buf :: "Event list"
  ch_cap :: nat
  ch_closed :: bool

record Log =
  lg_parts :: "Event list list"
  lg_commits :: "string \<rightharpoonup> u64"
  lg_subs :: "nat list"
  lg_chans :: "Chan list"
  lg_nextSub :: nat

section \<open>Operations\<close>

definition Log_New :: "int \<Rightarrow> Log" where
  "Log_New n = \<lparr>lg_parts = replicate (nat (max n 1)) [], lg_commits = Map.empty, lg_subs = [],
     lg_chans = [], lg_nextSub = 0\<rparr>"

text \<open>\<^verbatim>\<open>fnv.New32a\<close> after writing the bytes of the key.\<close>

definition fnv32a :: "string \<Rightarrow> u32" where
  "fnv32a key = fold (\<lambda>b h. (h XOR ucast b) * 16777619) (bytes_of key) 2166136261"

definition log_part :: "string \<Rightarrow> Log \<Rightarrow> nat" where
  "log_part key l = unat (fnv32a key mod word_of_nat (length (lg_parts l)))"

text \<open>The non-blocking send of the \<^verbatim>\<open>select\<close>: a full buffer closes the channel.\<close>

definition chan_send :: "Event \<Rightarrow> Chan \<Rightarrow> Chan" where
  "chan_send ev c = (if length (ch_buf c) < ch_cap c then c\<lparr>ch_buf := ch_buf c @ [ev]\<rparr>
     else c\<lparr>ch_closed := True\<rparr>)"

definition chan_room :: "Chan \<Rightarrow> bool" where
  "chan_room c \<longleftrightarrow> length (ch_buf c) < ch_cap c"

definition log_broadcast :: "Event \<Rightarrow> Log \<Rightarrow> Log" where
  "log_broadcast ev l = l\<lparr>
     lg_chans := map (\<lambda>i. let c = lg_chans l ! i in if i \<in> set (lg_subs l) then chan_send ev c else c)
                     [0..<length (lg_chans l)],
     lg_subs := filter (\<lambda>i. chan_room (lg_chans l ! i)) (lg_subs l)\<rparr>"

definition Log_Append :: "string \<Rightarrow> string \<Rightarrow> gerror + bytes \<Rightarrow> Log \<Rightarrow> (gerror + Event) \<times> Log" where
  "Log_Append key typ payload l = (case payload of
     Inl err \<Rightarrow> (Inl err, l)
   | Inr raw \<Rightarrow>
       let p = log_part key l;
           ev = \<lparr>ev_Partition = int p, ev_Offset = word_of_nat (length (lg_parts l ! p)),
                 ev_Key = key, ev_Type = typ, ev_Payload = raw\<rparr>
       in (Inr ev, log_broadcast ev (l\<lparr>lg_parts := (lg_parts l)[p := lg_parts l ! p @ [ev]]\<rparr>)))"

text \<open>The slice expression \<^verbatim>\<open>[from:end]\<close> panics when \<^verbatim>\<open>end < from\<close>.\<close>

definition Log_Read :: "int \<Rightarrow> u64 \<Rightarrow> int \<Rightarrow> Log \<Rightarrow> Event list outcome" where
  "Log_Read part from limit l =
     (if part < 0 \<or> part \<ge> int (length (lg_parts l)) \<or>
         from \<ge> word_of_nat (length (lg_parts l ! nat part)) then Returns []
      else let es = lg_parts l ! nat part;
               last = min (word_of_nat (length es)) (from + word_of_int (max limit 0))
           in if last < from then Panics
              else Returns (take (unat last - unat from) (drop (unat from) es)))"

text \<open>\<^verbatim>\<open>string(rune(x))\<close>: the conversion to 32 bits, then UTF-8; an invalid rune is U+FFFD.\<close>

definition wrap32 :: "int \<Rightarrow> int" where
  "wrap32 x = (x + 2 ^ 31) mod 2 ^ 32 - 2 ^ 31"

definition utf8_rune :: "int \<Rightarrow> string" where
  "utf8_rune r = map (\<lambda>n. char_of (nat n))
     (if 0 \<le> r \<and> r < 128 then [r]
      else if 0 \<le> r \<and> r < 2048 then [192 + r div 64, 128 + r mod 64]
      else if r < 0 \<or> 1114111 < r \<or> (55296 \<le> r \<and> r \<le> 57343) then [239, 191, 189]
      else if r < 65536 then [224 + r div 4096, 128 + r div 64 mod 64, 128 + r mod 64]
      else [240 + r div 262144, 128 + r div 4096 mod 64, 128 + r div 64 mod 64, 128 + r mod 64])"

definition ck :: "string \<Rightarrow> int \<Rightarrow> string" where
  "ck grp part = grp @ ''/'' @ utf8_rune (wrap32 (wrap64 (48 + part)))"

definition Log_Commit :: "string \<Rightarrow> int \<Rightarrow> u64 \<Rightarrow> Log \<Rightarrow> Log" where
  "Log_Commit grp part next l = l\<lparr>lg_commits := (lg_commits l)(ck grp part \<mapsto> next)\<rparr>"

definition Log_Committed :: "string \<Rightarrow> int \<Rightarrow> Log \<Rightarrow> u64" where
  "Log_Committed grp part l = (case lg_commits l (ck grp part) of None \<Rightarrow> 0 | Some n \<Rightarrow> n)"

definition Log_Subscribe :: "int \<Rightarrow> Log \<Rightarrow> nat \<times> Log" where
  "Log_Subscribe buf l =
     (let sid = lg_nextSub l in
      (sid, l\<lparr>lg_nextSub := sid + 1,
             lg_chans := lg_chans l @ [\<lparr>ch_buf = [], ch_cap = nat (max buf 1), ch_closed = False\<rparr>],
             lg_subs := sid # lg_subs l\<rparr>))"

text \<open>The cancel function that \<^verbatim>\<open>Subscribe\<close> returns.\<close>

definition Log_Cancel :: "nat \<Rightarrow> Log \<Rightarrow> Log" where
  "Log_Cancel sid l = (if sid \<in> set (lg_subs l)
     then l\<lparr>lg_chans := (lg_chans l)[sid := (lg_chans l ! sid)\<lparr>ch_closed := True\<rparr>],
            lg_subs := removeAll sid (lg_subs l)\<rparr>
     else l)"

text \<open>The consumer's side of the channel: take the next event, if one is buffered.\<close>

definition Chan_Recv :: "nat \<Rightarrow> Log \<Rightarrow> Event option \<times> Log" where
  "Chan_Recv sid l = (case ch_buf (lg_chans l ! sid) of
     [] \<Rightarrow> (None, l)
   | ev # rest \<Rightarrow> (Some ev, l\<lparr>lg_chans := (lg_chans l)[sid := (lg_chans l ! sid)\<lparr>ch_buf := rest\<rparr>]\<rparr>))"

lemmas log_defs [gw_defs] =
  Log_New_def Log_Append_def log_broadcast_def Log_Commit_def Log_Subscribe_def Log_Cancel_def
  Chan_Recv_def

section \<open>The invariant\<close>

text \<open>
  Event number \<open>i\<close> of partition \<open>p\<close> carries partition \<open>p\<close>, offset \<open>i\<close> and a key that hashes to
  \<open>p\<close>.
\<close>

definition parts_inv :: "Log \<Rightarrow> bool" where
  "parts_inv l \<longleftrightarrow>
     0 < length (lg_parts l) \<and> length (lg_parts l) < 2 ^ 32 \<and>
     (\<forall>p < length (lg_parts l). \<forall>i < length (lg_parts l ! p).
        ev_Partition (lg_parts l ! p ! i) = int p \<and>
        ev_Offset (lg_parts l ! p ! i) = word_of_nat i \<and>
        log_part (ev_Key (lg_parts l ! p ! i)) l = p)"

text \<open>
  The subscriptions are allocated, distinct and open; a channel the log dropped is closed; and a
  channel never holds more than its capacity.
\<close>

definition subs_inv :: "Log \<Rightarrow> bool" where
  "subs_inv l \<longleftrightarrow>
     lg_nextSub l = length (lg_chans l) \<and> distinct (lg_subs l) \<and>
     set (lg_subs l) = {sid. sid < length (lg_chans l) \<and> \<not> ch_closed (lg_chans l ! sid)} \<and>
     (\<forall>sid < length (lg_chans l).
        length (ch_buf (lg_chans l ! sid)) \<le> ch_cap (lg_chans l ! sid) \<and> 1 \<le> ch_cap (lg_chans l ! sid))"

definition log_inv :: "Log \<Rightarrow> bool" where
  "log_inv l \<longleftrightarrow> parts_inv l \<and> subs_inv l"

lemma log_part_cong: "length (lg_parts l') = length (lg_parts l) \<Longrightarrow> log_part k l' = log_part k l"
  by (simp add: log_part_def)

lemma log_part_less:
  assumes "0 < length (lg_parts l)" and "length (lg_parts l) < 2 ^ 32"
  shows "log_part k l < length (lg_parts l)"
proof -
  let ?n = "word_of_nat (length (lg_parts l)) :: u32"
  have n: "unat ?n = length (lg_parts l)"
    using assms(2) by (simp add: unat_of_nat)
  have "unat (fnv32a k mod ?n) = unat (fnv32a k) mod length (lg_parts l)"
    by (simp add: unat_mod n)
  then show ?thesis using assms(1) by (simp add: log_part_def)
qed

lemma parts_inv_part: "parts_inv l \<Longrightarrow> log_part k l < length (lg_parts l)"
  by (simp add: parts_inv_def log_part_less)

lemma log_inv_New [gw_inv]: "n < 2 ^ 32 \<Longrightarrow> log_inv (Log_New n)"
  by (auto simp: log_inv_def parts_inv_def subs_inv_def Log_New_def)

lemma broadcast_parts [simp]: "lg_parts (log_broadcast ev l) = lg_parts l"
  by (simp add: log_broadcast_def)

lemma broadcast_nextSub [simp]: "lg_nextSub (log_broadcast ev l) = lg_nextSub l"
  by (simp add: log_broadcast_def)

lemma broadcast_commits [simp]: "lg_commits (log_broadcast ev l) = lg_commits l"
  by (simp add: log_broadcast_def)

lemma broadcast_length [simp]: "length (lg_chans (log_broadcast ev l)) = length (lg_chans l)"
  by (simp add: log_broadcast_def)

lemma broadcast_nth:
  "i < length (lg_chans l) \<Longrightarrow> lg_chans (log_broadcast ev l) ! i =
     (if i \<in> set (lg_subs l) then chan_send ev (lg_chans l ! i) else lg_chans l ! i)"
  by (simp add: log_broadcast_def Let_def)

lemma broadcast_subs: "lg_subs (log_broadcast ev l) = filter (\<lambda>i. chan_room (lg_chans l ! i)) (lg_subs l)"
  by (simp add: log_broadcast_def)

lemma subs_inv_broadcast: "subs_inv l \<Longrightarrow> subs_inv (log_broadcast ev l)"
  unfolding subs_inv_def
  by (auto simp: broadcast_nth broadcast_subs chan_send_def chan_room_def split: if_splits)

lemma parts_inv_snoc:
  assumes "parts_inv l" and "p = log_part k l" and "ev_Partition ev = int p"
    and "ev_Offset ev = word_of_nat (length (lg_parts l ! p))" and "ev_Key ev = k"
    and "lg_parts l' = (lg_parts l)[p := lg_parts l ! p @ [ev]]"
  shows "parts_inv l'"
proof -
  have p: "p < length (lg_parts l)" using parts_inv_part [OF assms(1)] assms(2) by simp
  have lp: "log_part x l' = log_part x l" for x
    by (rule log_part_cong) (simp add: assms(6))
  show ?thesis
    using assms p unfolding parts_inv_def lp
    by (auto simp: nth_list_update nth_append less_Suc_eq)
qed

lemma parts_inv_chans [simp]: "parts_inv (l\<lparr>lg_chans := cs\<rparr>) = parts_inv l"
  by (simp add: parts_inv_def log_part_def)

lemma subs_inv_parts [simp]: "subs_inv (l\<lparr>lg_parts := ps\<rparr>) = subs_inv l"
  by (simp add: subs_inv_def)

lemma log_inv_Append [gw_inv]:
  assumes "log_inv l"
  shows "log_inv (snd (Log_Append k t pl l))"
proof (cases pl)
  case (Inl err)
  with assms show ?thesis by (simp add: Log_Append_def)
next
  case (Inr raw)
  let ?l = "snd (Log_Append k t pl l)"
  have "parts_inv ?l"
    by (rule parts_inv_snoc [where k = k and l = l, OF _ refl])
       (use assms Inr in \<open>auto simp: log_inv_def Log_Append_def Let_def\<close>)
  moreover have "subs_inv ?l"
    using assms Inr by (simp add: log_inv_def Log_Append_def Let_def subs_inv_broadcast)
  ultimately show ?thesis by (simp add: log_inv_def)
qed

lemma log_inv_Commit [gw_inv]: "log_inv l \<Longrightarrow> log_inv (Log_Commit g p n l)"
  by (simp add: log_inv_def Log_Commit_def parts_inv_def subs_inv_def log_part_def)

lemma log_inv_Subscribe [gw_inv]: "log_inv l \<Longrightarrow> log_inv (snd (Log_Subscribe b l))"
  by (auto simp: log_inv_def Log_Subscribe_def Let_def parts_inv_def subs_inv_def log_part_def
      nth_append less_Suc_eq)

lemma log_inv_Cancel [gw_inv]: "log_inv l \<Longrightarrow> log_inv (Log_Cancel sid l)"
  by (auto simp: log_inv_def Log_Cancel_def parts_inv_def subs_inv_def log_part_def
      nth_list_update distinct_removeAll split: if_splits)

lemma subs_inv_take:
  assumes "subs_inv l" and "ch_buf (lg_chans l ! sid) = ev # rest"
  shows "subs_inv (l\<lparr>lg_chans := (lg_chans l)[sid := (lg_chans l ! sid)\<lparr>ch_buf := rest\<rparr>]\<rparr>)"
proof (cases "sid < length (lg_chans l)")
  case True
  let ?cs = "(lg_chans l)[sid := (lg_chans l ! sid)\<lparr>ch_buf := rest\<rparr>]"
  have closed: "ch_closed (?cs ! i) = ch_closed (lg_chans l ! i)" for i
    using True by (cases "i = sid") simp_all
  have cap: "ch_cap (?cs ! i) = ch_cap (lg_chans l ! i)" for i
    using True by (cases "i = sid") simp_all
  have buf: "length (ch_buf (?cs ! i)) \<le> length (ch_buf (lg_chans l ! i))" for i
    using True assms(2) by (cases "i = sid") simp_all
  show ?thesis
    using assms(1) buf unfolding subs_inv_def by (auto simp: closed cap intro: order_trans)
next
  case False
  with assms(1) show ?thesis by (simp add: list_update_beyond subs_inv_def)
qed

lemma log_inv_Recv [gw_inv]: "log_inv l \<Longrightarrow> log_inv (snd (Chan_Recv sid l))"
  by (simp add: log_inv_def Chan_Recv_def subs_inv_take split: list.split)

section \<open>Runs of the log\<close>

text \<open>What producers, consumers and cancel functions do to the log, one lock section at a time.\<close>

inductive log_step :: "Log \<Rightarrow> Log \<Rightarrow> bool" where
  step_append: "log_step l (snd (Log_Append k t pl l))"
| step_commit: "log_step l (Log_Commit g p n l)"
| step_subscribe: "log_step l (snd (Log_Subscribe b l))"
| step_cancel: "log_step l (Log_Cancel sid l)"
| step_recv: "log_step l (snd (Chan_Recv sid l))"

inductive log_steps :: "Log \<Rightarrow> Log \<Rightarrow> bool" where
  steps_refl: "log_steps l l"
| steps_step: "log_steps l l' \<Longrightarrow> log_step l' l'' \<Longrightarrow> log_steps l l''"

lemma log_step_inv: "log_step l l' \<Longrightarrow> log_inv l \<Longrightarrow> log_inv l'"
  by (induction rule: log_step.induct) (auto intro: gw_inv)

lemma log_steps_inv: "log_steps l l' \<Longrightarrow> log_inv l \<Longrightarrow> log_inv l'"
  by (induction rule: log_steps.induct) (auto intro: log_step_inv)

lemma Cancel_parts [simp]: "lg_parts (Log_Cancel sid l) = lg_parts l"
  by (simp add: Log_Cancel_def)

lemma Recv_parts [simp]: "lg_parts (snd (Chan_Recv sid l)) = lg_parts l"
  by (simp add: Chan_Recv_def split: list.split)

lemma Subscribe_parts [simp]: "lg_parts (snd (Log_Subscribe b l)) = lg_parts l"
  by (simp add: Log_Subscribe_def Let_def)

text \<open>The log only grows: a step extends each partition at its end.\<close>

definition parts_extend :: "Log \<Rightarrow> Log \<Rightarrow> bool" where
  "parts_extend l l' \<longleftrightarrow> length (lg_parts l') = length (lg_parts l) \<and>
     (\<forall>p < length (lg_parts l). \<exists>new. lg_parts l' ! p = lg_parts l ! p @ new)"

lemma parts_extend_refl: "lg_parts l' = lg_parts l \<Longrightarrow> parts_extend l l'"
  by (simp add: parts_extend_def)

lemma parts_extend_trans:
  assumes "parts_extend l l'" and "parts_extend l' l''"
  shows "parts_extend l l''"
  unfolding parts_extend_def
proof (intro conjI allI impI)
  show "length (lg_parts l'') = length (lg_parts l)"
    using assms by (simp add: parts_extend_def)
  fix p assume p: "p < length (lg_parts l)"
  then obtain new where "lg_parts l' ! p = lg_parts l ! p @ new"
    using assms(1) by (auto simp: parts_extend_def)
  moreover obtain new' where "lg_parts l'' ! p = lg_parts l' ! p @ new'"
    using assms p by (auto simp: parts_extend_def)
  ultimately show "\<exists>new. lg_parts l'' ! p = lg_parts l ! p @ new" by simp
qed

lemma nth_snoc_update:
  "p < length ps \<Longrightarrow> \<exists>new. ps[q := ps ! q @ [x]] ! p = ps ! p @ new"
  by (cases "p = q") auto

lemma parts_extend_Append: "parts_extend l (snd (Log_Append k t pl l))"
  by (cases pl) (simp_all add: parts_extend_def Log_Append_def Let_def nth_snoc_update)

lemma log_step_extend: "log_step l l' \<Longrightarrow> parts_extend l l'"
  by (induction rule: log_step.induct)
     (auto intro: parts_extend_Append parts_extend_refl simp: Log_Commit_def)

lemma log_steps_extend: "log_steps l l' \<Longrightarrow> parts_extend l l'"
  by (induction rule: log_steps.induct)
     (auto intro: parts_extend_refl parts_extend_trans log_step_extend)

section \<open>What producers and readers may rely on\<close>

text \<open>The types and payloads appended under a key, oldest first.\<close>

definition log_history :: "string \<Rightarrow> Log \<Rightarrow> (string \<times> bytes) list" where
  "log_history k l = map (\<lambda>e. (ev_Type e, ev_Payload e))
     (filter (\<lambda>e. ev_Key e = k) (lg_parts l ! log_part k l))"

definition log_put :: "string \<Rightarrow> string \<Rightarrow> bytes \<Rightarrow> Log \<Rightarrow> Log" where
  "log_put k t raw l = snd (Log_Append k t (Inr raw) l)"

text \<open>
  The contract of an ordered, keyed sink. Its producer side is all that the indexer uses of the
  log: what is appended under a key is remembered in order, and other keys are not disturbed.
\<close>

locale event_sink =
  fixes put :: "string \<Rightarrow> string \<Rightarrow> bytes \<Rightarrow> 'l \<Rightarrow> 'l"
    and history :: "string \<Rightarrow> 'l \<Rightarrow> (string \<times> bytes) list"
    and sink_inv :: "'l \<Rightarrow> bool"
  assumes inv_put: "sink_inv l \<Longrightarrow> sink_inv (put k t raw l)"
    and history_put: "sink_inv l \<Longrightarrow>
      history k' (put k t raw l) = history k' l @ (if k' = k then [(t, raw)] else [])"
begin

lemma put_all:
  "sink_inv l \<Longrightarrow> sink_inv (fold (\<lambda>(k, t, raw). put k t raw) xs l) \<and>
     history k (fold (\<lambda>(k, t, raw). put k t raw) xs l) =
       history k l @ map snd (filter (\<lambda>x. fst x = k) xs)"
  by (induction xs arbitrary: l) (simp_all add: inv_put history_put split_beta)

lemma put_all_same:
  "sink_inv l \<Longrightarrow>
     history k (fold (\<lambda>(t, raw). put k t raw) xs l) = history k l @ xs \<and>
     sink_inv (fold (\<lambda>(t, raw). put k t raw) xs l)"
  by (induction xs arbitrary: l) (simp_all add: inv_put history_put split_beta)

end

lemma log_inv_put [gw_inv]: "log_inv l \<Longrightarrow> log_inv (log_put k t raw l)"
  by (simp add: log_put_def log_inv_Append)

lemma log_history_put:
  assumes "log_inv l"
  shows "log_history k' (log_put k t raw l) = log_history k' l @ (if k' = k then [(t, raw)] else [])"
proof -
  have p: "log_part k l < length (lg_parts l)"
    using assms by (simp add: log_inv_def parts_inv_part)
  have lp: "log_part x (log_put k t raw l) = log_part x l" for x
    by (rule log_part_cong) (simp add: log_put_def Log_Append_def Let_def)
  show ?thesis
    using p unfolding log_history_def lp
    by (auto simp: log_put_def Log_Append_def Let_def nth_list_update)
qed

interpretation log_sink: event_sink log_put log_history log_inv
  by unfold_locales (simp_all add: log_inv_put log_history_put)

section \<open>Reading\<close>

lemma unat_add_limit:
  assumes "unat from < 2 ^ 63" and "0 \<le> limit" and "limit \<le> maxInt64"
  shows "unat (from + word_of_int limit :: u64) = unat from + nat limit"
proof -
  have "uint (word_of_int limit :: u64) = limit"
    using assms(2,3) by (simp add: uint_word_of_int maxInt64_def)
  then have "unat (word_of_int limit :: u64) = nat limit" by (simp add: unat_eq_nat_uint)
  moreover have "nat limit < 2 ^ 63" using assms(2,3) by (simp add: maxInt64_def nat_less_iff)
  ultimately show ?thesis using assms(1) by (simp add: unat_word_ariths)
qed

lemma Log_Read_eq:
  assumes "limit \<le> maxInt64" and "\<forall>es \<in> set (lg_parts l). length es < 2 ^ 63"
  shows "Log_Read part from limit l = Returns
     (if 0 \<le> part \<and> part < int (length (lg_parts l))
      then take (nat limit) (drop (unat from) (lg_parts l ! nat part)) else [])"
proof (cases "0 \<le> part \<and> part < int (length (lg_parts l))")
  case True
  let ?es = "lg_parts l ! nat part"
  from True have "?es \<in> set (lg_parts l)" by (simp add: nat_less_iff)
  then have len: "length ?es < 2 ^ 63" using assms(2) by blast
  then have u: "unat (word_of_nat (length ?es) :: u64) = length ?es" by (simp add: unat_of_nat)
  show ?thesis
  proof (cases "from \<ge> word_of_nat (length ?es)")
    case True
    then have "length ?es \<le> unat from" using u by (simp add: word_le_nat_alt)
    with True show ?thesis by (simp add: Log_Read_def)
  next
    case False
    then have f: "unat from < length ?es" using u by (simp add: word_le_nat_alt)
    let ?last = "min (word_of_nat (length ?es)) (from + word_of_int (max limit 0)) :: u64"
    have "unat (from + word_of_int (max limit 0) :: u64) = unat from + nat limit"
      using unat_add_limit [of "from" "max limit 0"] f len assms(1)
      by (simp add: maxInt64_def)
    then have last: "unat ?last = min (length ?es) (unat from + nat limit)"
      using u by (auto simp: min_def word_le_nat_alt)
    then have "unat from \<le> unat ?last" using f by linarith
    then have "\<not> ?last < from" by (simp add: word_less_nat_alt)
    moreover have "take (unat ?last - unat from) (drop (unat from) ?es) =
        take (nat limit) (drop (unat from) ?es)"
      unfolding last by (rule take_min_drop)
    ultimately show ?thesis using True False by (simp add: Log_Read_def Let_def)
  qed
qed (auto simp: Log_Read_def)

lemma Append_nth:
  assumes "log_inv l" and "Log_Append k t pl l = (Inr ev, l')"
  shows "ev_Partition ev = int (log_part k l) \<and> log_part k l < length (lg_parts l) \<and>
         ev_Offset ev = word_of_nat (length (lg_parts l ! log_part k l)) \<and>
         lg_parts l' ! log_part k l = lg_parts l ! log_part k l @ [ev] \<and> parts_extend l l'"
  using assms parts_extend_Append [of l k t pl] parts_inv_part [of l k]
  by (auto simp: log_inv_def Log_Append_def Let_def split: sum.splits)

section \<open>A subscriber's view\<close>

text \<open>
  What one consumer and everybody else do between a subscription and some later moment: producers
  append (the payload already marshalled), the consumer with id \<open>sid\<close> receives or cancels, others
  subscribe, receive, cancel and commit.
\<close>

datatype log_op =
    OAppend string string bytes
  | OSubscribe int
  | OCancel nat
  | ORecv nat
  | OCommit string int u64

fun log_exec :: "log_op \<Rightarrow> Log \<Rightarrow> Log" where
  "log_exec (OAppend k t raw) l = log_put k t raw l"
| "log_exec (OSubscribe b) l = snd (Log_Subscribe b l)"
| "log_exec (OCancel i) l = Log_Cancel i l"
| "log_exec (ORecv i) l = snd (Chan_Recv i l)"
| "log_exec (OCommit g p n) l = Log_Commit g p n l"

text \<open>The events an operation appends, and those consumer \<open>sid\<close> receives in it.\<close>

fun op_appended :: "log_op \<Rightarrow> Log \<Rightarrow> Event list" where
  "op_appended (OAppend k t raw) l = (case fst (Log_Append k t (Inr raw) l) of Inl _ \<Rightarrow> [] | Inr ev \<Rightarrow> [ev])"
| "op_appended _ l = []"

fun op_received :: "nat \<Rightarrow> log_op \<Rightarrow> Log \<Rightarrow> Event list" where
  "op_received sid (ORecv i) l =
     (if i = sid then (case fst (Chan_Recv i l) of None \<Rightarrow> [] | Some ev \<Rightarrow> [ev]) else [])"
| "op_received sid _ l = []"

fun sub_run :: "nat \<Rightarrow> log_op list \<Rightarrow> Log \<Rightarrow> Event list \<times> Event list \<times> Log" where
  "sub_run sid [] l = ([], [], l)"
| "sub_run sid (x # xs) l = (case sub_run sid xs (log_exec x l) of
     (app, rec, l') \<Rightarrow> (op_appended x l @ app, op_received sid x l @ rec, l'))"

lemma log_exec_inv: "log_inv l \<Longrightarrow> log_inv (log_exec x l)"
  by (cases x) (simp_all add: gw_inv)

text \<open>
  While subscribed, received and buffered events are all that was appended; once dropped, the
  channel is closed and they are a prefix of it.
\<close>

definition sub_view :: "nat \<Rightarrow> Event list \<Rightarrow> Event list \<Rightarrow> Log \<Rightarrow> bool" where
  "sub_view sid app rec l \<longleftrightarrow> sid < length (lg_chans l) \<and>
     (if sid \<in> set (lg_subs l) then rec @ ch_buf (lg_chans l ! sid) = app
      else \<exists>m \<le> length app. rec @ ch_buf (lg_chans l ! sid) = take m app)"

lemma sub_view_Append:
  assumes "log_inv l" and "sub_view sid app rec l"
  shows "sub_view sid (app @ op_appended (OAppend k t raw) l) rec (log_put k t raw l)"
proof -
  obtain ev where ev: "Log_Append k t (Inr raw) l = (Inr ev, log_put k t raw l)"
    by (simp add: Log_Append_def log_put_def Let_def)
  let ?l = "l\<lparr>lg_parts := (lg_parts l)[log_part k l := lg_parts l ! log_part k l @ [ev]]\<rparr>"
  have eq: "log_put k t raw l = log_broadcast ev ?l"
    using ev by (auto simp: Log_Append_def log_put_def Let_def)
  have sid: "sid < length (lg_chans l)" using assms(2) by (simp add: sub_view_def)
  have nth: "lg_chans (log_put k t raw l) ! sid =
      (if sid \<in> set (lg_subs l) then chan_send ev (lg_chans l ! sid) else lg_chans l ! sid)"
    using sid by (simp add: eq broadcast_nth)
  have mem: "sid \<in> set (lg_subs (log_put k t raw l)) \<longleftrightarrow>
      sid \<in> set (lg_subs l) \<and> chan_room (lg_chans l ! sid)"
    by (simp add: eq broadcast_subs)
  have len: "length (lg_chans (log_put k t raw l)) = length (lg_chans l)"
    by (simp add: eq)
  have app: "op_appended (OAppend k t raw) l = [ev]" using ev by simp
  show ?thesis
  proof (cases "sid \<in> set (lg_subs l)")
    case True
    with assms(2) have "rec @ ch_buf (lg_chans l ! sid) = app" by (simp add: sub_view_def)
    with True sid show ?thesis
      by (auto simp: sub_view_def mem nth len app chan_send_def chan_room_def
          simp del: op_appended.simps intro: exI [of _ "length app"])
  next
    case False
    with assms(2) obtain m where "m \<le> length app" "rec @ ch_buf (lg_chans l ! sid) = take m app"
      by (auto simp: sub_view_def)
    with False sid show ?thesis
      by (auto simp: sub_view_def mem nth len app simp del: op_appended.simps intro!: exI [of _ m])
  qed
qed

lemma sub_view_Recv:
  assumes "sub_view sid app rec l"
  shows "sub_view sid app (rec @ op_received sid (ORecv i) l) (snd (Chan_Recv i l))"
  using assms
  by (cases "ch_buf (lg_chans l ! i)"; cases "i = sid")
     (auto simp: sub_view_def Chan_Recv_def split: if_splits)

lemma sub_view_exec:
  assumes "log_inv l" and "sub_view sid app rec l"
  shows "sub_view sid (app @ op_appended x l) (rec @ op_received sid x l) (log_exec x l)"
proof (cases x)
  case (OAppend k t raw)
  then show ?thesis using sub_view_Append [OF assms] by simp
next
  case (OSubscribe b)
  moreover have "lg_nextSub l = length (lg_chans l)"
    using assms(1) by (simp add: log_inv_def subs_inv_def)
  ultimately show ?thesis using assms(2)
    by (auto simp: sub_view_def Log_Subscribe_def Let_def nth_append)
next
  case (OCancel i)
  then show ?thesis using assms(2)
    by (cases "i = sid") (auto simp: sub_view_def Log_Cancel_def)
next
  case (ORecv i)
  then show ?thesis using sub_view_Recv [OF assms(2), of i] by simp
next
  case (OCommit g p n)
  then show ?thesis using assms(2) by (simp add: sub_view_def Log_Commit_def)
qed

lemma sub_view_run:
  assumes "log_inv l" and "sub_view sid app0 rec0 l" and "sub_run sid xs l = (app, rec, l')"
  shows "sub_view sid (app0 @ app) (rec0 @ rec) l' \<and> log_inv l'"
  using assms
proof (induction xs arbitrary: l app0 rec0 app rec)
  case (Cons x xs)
  obtain app1 rec1 where r: "sub_run sid xs (log_exec x l) = (app1, rec1, l')"
    and "app = op_appended x l @ app1" and "rec = op_received sid x l @ rec1"
    using Cons.prems(3) by (auto split: prod.splits)
  with Cons.IH [OF log_exec_inv [OF Cons.prems(1)] sub_view_exec [OF Cons.prems(1,2)] r]
  show ?case by simp
qed simp

section \<open>Properties\<close>

text \<open>C19: appended events are durable. The partition and offset that \<^verbatim>\<open>Append\<close> returns are where
  \<^verbatim>\<open>Read\<close> finds the event, right away and after anything else happens to the log, as long as
  partitions stay below \<^verbatim>\<open>1<<63\<close> events.\<close>

theorem Append_Read_durable:
  assumes "log_inv l" and "Log_Append k t pl l = (Inr ev, l')" and "log_steps l' l''"
    and "\<forall>es \<in> set (lg_parts l''). length es < 2 ^ 63"
  shows "Log_Read (ev_Partition ev) (ev_Offset ev) 1 l'' = Returns [ev]"
proof -
  let ?p = "log_part k l" and ?n = "length (lg_parts l ! log_part k l)"
  from Append_nth [OF assms(1,2)] have ev: "ev_Partition ev = int ?p" "ev_Offset ev = word_of_nat ?n"
    and p: "?p < length (lg_parts l)" and l': "lg_parts l' ! ?p = lg_parts l ! ?p @ [ev]"
    and ext: "parts_extend l l'" by auto
  from log_steps_extend [OF assms(3)] ext p l' obtain new
    where l'': "lg_parts l'' ! ?p = (lg_parts l ! ?p @ [ev]) @ new"
      and len: "length (lg_parts l'') = length (lg_parts l)"
    by (auto simp: parts_extend_def)
  have "length (lg_parts l'' ! ?p) < 2 ^ 63" using assms(4) p len by simp
  then have "unat (word_of_nat ?n :: u64) = ?n" using l'' by (simp add: unat_of_nat)
  then show ?thesis
    using Log_Read_eq [OF _ assms(4), of 1 "ev_Partition ev" "ev_Offset ev"] ev p len l''
    by (simp add: maxInt64_def)
qed

theorem Append_Read_durable_witness:
  "Log_Read 0 0 1 (Log_Commit ''g'' 0 5 (log_put ''k'' ''t'' [1] (Log_New 1))) =
     Returns [\<lparr>ev_Partition = 0, ev_Offset = 0, ev_Key = ''k'', ev_Type = ''t'', ev_Payload = [1]\<rparr>]"
proof -
  let ?ev = "\<lparr>ev_Partition = 0, ev_Offset = 0, ev_Key = ''k'', ev_Type = ''t'', ev_Payload = [1]\<rparr>"
  have p: "log_part ''k'' (Log_New 1) = 0"
    using log_part_less [of "Log_New 1" "''k''"] by (simp add: Log_New_def)
  have a: "Log_Append ''k'' ''t'' (Inr [1]) (Log_New 1) = (Inr ?ev, log_put ''k'' ''t'' [1] (Log_New 1))"
    using p by (simp add: log_put_def Log_Append_def Let_def) (simp add: Log_New_def)
  have "lg_parts (Log_Commit ''g'' 0 5 (log_put ''k'' ''t'' [1] (Log_New 1))) = [[?ev]]"
    using p by (simp add: log_put_def Log_Append_def Let_def Log_Commit_def) (simp add: Log_New_def)
  then show ?thesis
    using Append_Read_durable [OF log_inv_New a log_steps.steps_step
      [OF log_steps.steps_refl log_step.step_commit [of _ "''g''" 0 5]]] by simp
qed

text \<open>\<^verbatim>\<open>Read\<close> never panics and returns exactly the events from the given offset on, at most
  \<open>limit\<close> of them; an unknown partition or a negative limit gives nothing.\<close>

theorem Log_Read_exact:
  assumes "limit \<le> maxInt64" and "\<forall>es \<in> set (lg_parts l). length es < 2 ^ 63"
  shows "Log_Read part from limit l = Returns
     (if 0 \<le> part \<and> part < int (length (lg_parts l))
      then take (nat limit) (drop (unat from) (lg_parts l ! nat part)) else [])"
  by (rule Log_Read_eq [OF assms])

theorem Log_Read_exact_witness: "Log_Read 1 7 (-3) (Log_New 2) = Returns []"
  by (subst Log_Read_exact) (auto simp: Log_New_def maxInt64_def)

text \<open>C20: per-key ordering. After any sequence of appends to a new log, the events under a key are
  exactly those appended with it, in the order of the appends.\<close>

theorem per_key_order:
  assumes "n < 2 ^ 32"
  shows "log_history k (fold (\<lambda>(key, t, raw). log_put key t raw) xs (Log_New n)) =
           map snd (filter (\<lambda>x. fst x = k) xs)"
proof -
  have "log_history k (Log_New n) = []"
    using log_part_less [of "Log_New n" k] assms by (simp add: log_history_def Log_New_def)
  then show ?thesis
    using log_sink.put_all [OF log_inv_New [OF assms], of xs k] by simp
qed

theorem per_key_order_witness:
  "log_history ''a'' (fold (\<lambda>(key, t, raw). log_put key t raw)
     [(''a'', ''x'', [1]), (''b'', ''y'', [2]), (''a'', ''z'', [3])] (Log_New 4)) = [(''x'', [1]), (''z'', [3])]"
  by (subst per_key_order) simp_all

text \<open>A live subscription has no gaps. What a subscriber has received and still has buffered is
  a prefix, in order, of what was appended since it subscribed; it is all of it while the
  subscription is registered, and a channel that is no longer registered is closed.\<close>

theorem subscription_gap_free:
  assumes "log_inv l" and "Log_Subscribe b l = (sid, l1)" and "sub_run sid xs l1 = (app, rec, l2)"
  shows "(\<exists>m \<le> length app. rec @ ch_buf (lg_chans l2 ! sid) = take m app) \<and>
         (sid \<in> set (lg_subs l2) \<longrightarrow> rec @ ch_buf (lg_chans l2 ! sid) = app) \<and>
         (sid \<notin> set (lg_subs l2) \<longrightarrow> ch_closed (lg_chans l2 ! sid))"
proof -
  have l1: "l1 = snd (Log_Subscribe b l)" and sid: "sid = length (lg_chans l)"
    using assms(1,2) by (auto simp: Log_Subscribe_def Let_def log_inv_def subs_inv_def)
  have "sub_view sid [] [] l1"
    using assms(1) sid l1 by (auto simp: sub_view_def Log_Subscribe_def Let_def log_inv_def subs_inv_def)
  from sub_view_run [OF _ this assms(3)] l1 assms(1)
  have v: "sub_view sid app rec l2" and inv: "log_inv l2" by (auto intro: gw_inv)
  from inv v have "sid \<notin> set (lg_subs l2) \<Longrightarrow> ch_closed (lg_chans l2 ! sid)"
    by (auto simp: log_inv_def subs_inv_def sub_view_def)
  then show ?thesis using v by (auto simp: sub_view_def split: if_splits)
qed

theorem subscription_gap_free_witness:
  "\<exists>m. fst (snd (sub_run 0 [OAppend ''k'' ''t'' [1], ORecv 0] (snd (Log_Subscribe 1 (Log_New 1))))) @
     ch_buf (lg_chans (snd (snd (sub_run 0 [OAppend ''k'' ''t'' [1], ORecv 0]
        (snd (Log_Subscribe 1 (Log_New 1)))))) ! 0) =
     take m (fst (sub_run 0 [OAppend ''k'' ''t'' [1], ORecv 0] (snd (Log_Subscribe 1 (Log_New 1)))))"
proof -
  let ?l = "snd (Log_Subscribe 1 (Log_New 1))" and ?xs = "[OAppend ''k'' ''t'' [1], ORecv 0]"
  have s: "Log_Subscribe 1 (Log_New 1) = (0, ?l)" by (simp add: Log_Subscribe_def Log_New_def Let_def)
  obtain app rec l2 where r: "sub_run 0 ?xs ?l = (app, rec, l2)" by (metis prod_cases3)
  from subscription_gap_free [OF log_inv_New s r] r show ?thesis by auto
qed

lemma ck_single: "0 \<le> p \<Longrightarrow> p < 80 \<Longrightarrow> ck g p = g @ [CHR ''/'', char_of (nat (48 + p))]"
  by (simp add: ck_def utf8_rune_def wrap32_def wrap64_def)

lemma char_of_inj_small: "char_of (a::nat) = char_of b \<Longrightarrow> a < 128 \<Longrightarrow> b < 128 \<Longrightarrow> a = b"
proof -
  assume "char_of a = (char_of b :: char)" and ab: "a < 128" "b < 128"
  then have "(of_char (char_of a :: char) :: nat) = of_char (char_of b :: char)" by simp
  with ab show ?thesis by simp
qed

lemma ck_inj:
  assumes "0 \<le> p" "p < 80" "0 \<le> p'" "p' < 80" and "ck g p = ck g' p'"
  shows "g = g' \<and> p = p'"
proof -
  from assms have "g = g'" and "char_of (nat (48 + p)) = (char_of (nat (48 + p')) :: char)"
    by (auto simp: ck_single)
  moreover from this(2) have "nat (48 + p) = nat (48 + p')"
    by (rule char_of_inj_small) (use assms in simp_all)
  ultimately show ?thesis using assms by simp
qed

text \<open>Consumer-group commits. For the partitions a log of up to 80 partitions has, a commit is
  read back exactly by the same group and partition, and no other group or partition sees it.\<close>

theorem Commit_Committed:
  assumes "0 \<le> p" and "p < 80" and "0 \<le> p'" and "p' < 80"
  shows "Log_Committed g' p' (Log_Commit g p n l) =
           (if g' = g \<and> p' = p then n else Log_Committed g' p' l)"
  using ck_inj [OF assms(3,4,1,2), of g' g] by (auto simp: Log_Committed_def Log_Commit_def)

theorem Commit_Committed_witness:
  "Log_Committed ''a'' 3 (Log_Commit ''a'' 3 9 (Log_New 4)) = 9 \<and>
   Log_Committed ''a/3'' 3 (Log_Commit ''a'' 3 9 (Log_New 4)) = 0"
  by (simp add: Commit_Committed) (simp add: Log_Committed_def Log_New_def)

end
