(* ===== verification/Indexer.thy ===== *)
theory Indexer
  imports Eventlog
begin

text \<open>
  The reorg-aware indexer of \<^verbatim>\<open>internal/indexer/indexer.go\<close>: a bounded window of recent blocks that
  follows a node, unwinds when the stored tip is no longer canonical, and publishes every change to
  the event log. The node is the interface \<^verbatim>\<open>Source\<close>: a pair of functions that may fail and may
  answer differently each time, so they pass the world \<open>'e\<close> along.

  \<^verbatim>\<open>Sync\<close> can run forever: with a head of \<^verbatim>\<open>1<<64 - 1\<close> the loop variable wraps past it. So the
  catch-up loop is a partial function into \<open>option\<close>, and that it returns is a theorem.
\<close>

section \<open>State and operations\<close>

record Block =
  bl_Number :: u64
  bl_Hash :: string
  bl_ParentHash :: string
  bl_Timestamp :: u64
  bl_TxCount :: int

record 'e Source =
  src_Head :: "'e \<Rightarrow> (gerror + u64) \<times> 'e"
  src_Block :: "u64 \<Rightarrow> 'e \<Rightarrow> (gerror + Block) \<times> 'e"

record Indexer =
  ix_window :: nat
  ix_chain :: "Block list"

definition Indexer_New :: "int \<Rightarrow> Indexer" where
  "Indexer_New window = \<lparr>ix_window = nat (max window 1), ix_chain = []\<rparr>"

text \<open>\<^verbatim>\<open>json.Marshal\<close> of a block is the parameter \<open>marshal\<close>: it cannot fail, as the code notes.\<close>

definition Indexer_emit :: "(Block \<Rightarrow> bytes) \<Rightarrow> string \<Rightarrow> Block \<Rightarrow> Log \<Rightarrow> Log" where
  "Indexer_emit marshal typ b l = snd (Log_Append ''chain'' typ (Inr (marshal b)) l)"

text \<open>The first loop of \<^verbatim>\<open>Sync\<close>: unwind until the stored tip is canonical again.\<close>

function sync_unwind ::
  "(Block \<Rightarrow> bytes) \<Rightarrow> 'e Source \<Rightarrow> Block list \<Rightarrow> Log \<Rightarrow> 'e \<Rightarrow> gerror option \<times> Block list \<times> Log \<times> 'e" where
  "sync_unwind marshal src chain l e =
     (if chain = [] then (None, chain, l, e)
      else let tip = last chain in
        (case src_Block src (bl_Number tip) e of
           (Inr b, e') \<Rightarrow>
             if bl_Hash b = bl_Hash tip then (None, chain, l, e')
             else sync_unwind marshal src (butlast chain) (Indexer_emit marshal ''block.reorged'' tip l) e'
         | (Inl err, e') \<Rightarrow>
             if err \<noteq> ErrNotFound then (Some err, chain, l, e')
             else sync_unwind marshal src (butlast chain) (Indexer_emit marshal ''block.reorged'' tip l) e'))"
  by pat_completeness auto
termination
  by (relation "measure (\<lambda>(m, src, chain, l, e). length chain)") auto

declare sync_unwind.simps [simp del]

text \<open>Where the catch-up starts.\<close>

definition sync_next :: "nat \<Rightarrow> u64 \<Rightarrow> Block list \<Rightarrow> u64" where
  "sync_next window head chain =
     (if chain \<noteq> [] then bl_Number (last chain) + 1
      else if head + 1 > word_of_nat window then head + 1 - word_of_nat window
      else 0)"

text \<open>The second loop: \<^verbatim>\<open>for n := next; n <= head; n++\<close>.\<close>

partial_function (option) sync_forward ::
  "(Block \<Rightarrow> bytes) \<Rightarrow> 'e Source \<Rightarrow> nat \<Rightarrow> u64 \<Rightarrow> u64 \<Rightarrow> Block list \<Rightarrow> Log \<Rightarrow> 'e
     \<Rightarrow> (gerror option \<times> Block list \<times> Log \<times> 'e) option" where
  "sync_forward marshal src window head n chain l e =
     (if n \<le> head then
        (case src_Block src n e of
           (Inl err, e') \<Rightarrow> Some (Some err, chain, l, e')
         | (Inr b, e') \<Rightarrow>
             if chain \<noteq> [] \<and> bl_ParentHash b \<noteq> bl_Hash (last chain)
             then Some (Some ErrParentMismatch, chain, l, e')
             else sync_forward marshal src window head (n + 1)
               (if length (chain @ [b]) > window then tl (chain @ [b]) else chain @ [b])
               (Indexer_emit marshal ''block.new'' b l) e')
      else Some (None, chain, l, e))"

text \<open>The deferred store runs on every exit after the head was read, errors included.\<close>

definition Indexer_store :: "Block list \<Rightarrow> Indexer \<Rightarrow> Indexer" where
  [simp]: "Indexer_store c ix = ix\<lparr>ix_chain := c\<rparr>"

definition Indexer_Sync ::
  "(Block \<Rightarrow> bytes) \<Rightarrow> 'e Source \<Rightarrow> Indexer \<Rightarrow> Log \<Rightarrow> 'e \<Rightarrow> (gerror option \<times> Indexer \<times> Log \<times> 'e) option" where
  "Indexer_Sync marshal src ix l e =
     (case src_Head src e of
        (Inl err, e0) \<Rightarrow> Some (Some err, ix, l, e0)
      | (Inr head, e0) \<Rightarrow>
          (case sync_unwind marshal src (ix_chain ix) l e0 of
             (Some err, chain, l1, e1) \<Rightarrow> Some (Some err, Indexer_store chain ix, l1, e1)
           | (None, chain, l1, e1) \<Rightarrow>
               map_option (\<lambda>(err, chain', l2, e2). (err, Indexer_store chain' ix, l2, e2))
                 (sync_forward marshal src (ix_window ix) head
                    (sync_next (ix_window ix) head chain) chain l1 e1)))"

text \<open>\<^verbatim>\<open>Blocks\<close> counts down from the tip; \<^verbatim>\<open>Head\<close> is the tip.\<close>

definition Indexer_Blocks :: "int \<Rightarrow> Indexer \<Rightarrow> Block list" where
  "Indexer_Blocks limit ix =
     (let n = min (max limit 0) (int (length (ix_chain ix)))
      in map (\<lambda>i. ix_chain ix ! (length (ix_chain ix) - 1 - i)) [0..<nat n])"

definition Indexer_Head :: "Indexer \<Rightarrow> Block option" where
  "Indexer_Head ix = (if ix_chain ix = [] then None else Some (last (ix_chain ix)))"

text \<open>
  One turn of \<^verbatim>\<open>Run\<close> is one \<^verbatim>\<open>Sync\<close>; a poll loop of \<open>k\<close> turns keeps the errors it hands to
  \<^verbatim>\<open>onErr\<close>.
\<close>

fun Indexer_Run ::
  "nat \<Rightarrow> (Block \<Rightarrow> bytes) \<Rightarrow> 'e Source \<Rightarrow> Indexer \<Rightarrow> Log \<Rightarrow> 'e \<Rightarrow> (gerror list \<times> Indexer \<times> Log \<times> 'e) option" where
  "Indexer_Run 0 marshal src ix l e = Some ([], ix, l, e)"
| "Indexer_Run (Suc k) marshal src ix l e =
     Option.bind (Indexer_Sync marshal src ix l e) (\<lambda>(err, ix', l', e').
       map_option (\<lambda>(errs, r). ((case err of None \<Rightarrow> [] | Some x \<Rightarrow> [x]) @ errs, r))
         (Indexer_Run k marshal src ix' l' e'))"

section \<open>The window invariant\<close>

text \<open>Consecutive blocks are linked by parent hash.\<close>

fun linked :: "Block list \<Rightarrow> bool" where
  "linked (a # b # bs) \<longleftrightarrow> bl_ParentHash b = bl_Hash a \<and> linked (b # bs)"
| "linked _ \<longleftrightarrow> True"

text \<open>... and have consecutive numbers.\<close>

fun contiguous :: "Block list \<Rightarrow> bool" where
  "contiguous (a # b # bs) \<longleftrightarrow> bl_Number b = bl_Number a + 1 \<and> contiguous (b # bs)"
| "contiguous _ \<longleftrightarrow> True"

definition chain_inv :: "nat \<Rightarrow> Block list \<Rightarrow> bool" where
  "chain_inv window chain \<longleftrightarrow> length chain \<le> window \<and> linked chain \<and> contiguous chain"

lemma linked_snoc: "linked (xs @ [x]) \<longleftrightarrow> linked xs \<and> (xs \<noteq> [] \<longrightarrow> bl_ParentHash x = bl_Hash (last xs))"
  by (induction xs rule: linked.induct) auto

lemma contiguous_snoc:
  "contiguous (xs @ [x]) \<longleftrightarrow> contiguous xs \<and> (xs \<noteq> [] \<longrightarrow> bl_Number x = bl_Number (last xs) + 1)"
  by (induction xs rule: contiguous.induct) auto

lemma linked_tl: "linked xs \<Longrightarrow> linked (tl xs)"
  by (cases xs rule: linked.cases) auto

lemma contiguous_tl: "contiguous xs \<Longrightarrow> contiguous (tl xs)"
  by (cases xs rule: contiguous.cases) auto

lemma linked_butlast: "linked xs \<Longrightarrow> linked (butlast xs)"
  by (cases xs rule: rev_cases) (auto simp: linked_snoc)

lemma contiguous_butlast: "contiguous xs \<Longrightarrow> contiguous (butlast xs)"
  by (cases xs rule: rev_cases) (auto simp: contiguous_snoc)

lemma chain_inv_butlast [gw_inv]: "chain_inv w xs \<Longrightarrow> chain_inv w (butlast xs)"
  by (auto simp: chain_inv_def linked_butlast contiguous_butlast)

text \<open>Appending a block and dropping the oldest one when the window is full.\<close>

definition push_window :: "nat \<Rightarrow> Block list \<Rightarrow> Block \<Rightarrow> Block list" where
  "push_window w chain b = (if length (chain @ [b]) > w then tl (chain @ [b]) else chain @ [b])"

lemma last_push_window: "1 \<le> w \<Longrightarrow> push_window w chain b \<noteq> [] \<and> last (push_window w chain b) = b"
  by (cases chain) (auto simp: push_window_def)

lemma chain_inv_push [gw_inv]:
  assumes "chain_inv w chain" and "chain \<noteq> [] \<longrightarrow> bl_ParentHash b = bl_Hash (last chain)"
    and "chain \<noteq> [] \<longrightarrow> bl_Number b = bl_Number (last chain) + 1" and "1 \<le> w"
  shows "chain_inv w (push_window w chain b)"
proof -
  have "linked (chain @ [b])" "contiguous (chain @ [b])"
    using assms by (auto simp: chain_inv_def linked_snoc contiguous_snoc)
  then show ?thesis
    using assms(1) linked_tl [of "chain @ [b]"] contiguous_tl [of "chain @ [b]"]
    by (auto simp: chain_inv_def push_window_def)
qed

section \<open>Reasoning about the loops\<close>

lemma sync_unwind_Nil [simp]: "sync_unwind m src [] l e = (None, [], l, e)"
  by (simp add: sync_unwind.simps)

lemma sync_unwind_snoc:
  "sync_unwind m src (xs @ [tip]) l e =
     (case src_Block src (bl_Number tip) e of
        (Inr b, e') \<Rightarrow>
          if bl_Hash b = bl_Hash tip then (None, xs @ [tip], l, e')
          else sync_unwind m src xs (Indexer_emit m ''block.reorged'' tip l) e'
      | (Inl err, e') \<Rightarrow>
          if err \<noteq> ErrNotFound then (Some err, xs @ [tip], l, e')
          else sync_unwind m src xs (Indexer_emit m ''block.reorged'' tip l) e')"
  by (simp add: sync_unwind.simps [of m src "xs @ [tip]"] split: prod.split sum.split)

lemma sync_forward_unfold:
  "sync_forward m src w head n chain l e =
     (if n \<le> head then
        (case src_Block src n e of
           (Inl err, e') \<Rightarrow> Some (Some err, chain, l, e')
         | (Inr b, e') \<Rightarrow>
             if chain \<noteq> [] \<and> bl_ParentHash b \<noteq> bl_Hash (last chain)
             then Some (Some ErrParentMismatch, chain, l, e')
             else sync_forward m src w head (n + 1) (push_window w chain b)
               (Indexer_emit m ''block.new'' b l) e')
      else Some (None, chain, l, e))"
  unfolding push_window_def by (rule sync_forward.simps)

text \<open>Rule induction over a catch-up that returned: one case per exit and one for an iteration.\<close>

lemma sync_forward_rule [consumes 1, case_names finish fail mismatch step]:
  assumes "sync_forward m src w head n chain l e = Some r"
    and "\<And>n chain l e. \<not> n \<le> head \<Longrightarrow> P n chain l e (None, chain, l, e)"
    and "\<And>n chain l e err e'. n \<le> head \<Longrightarrow> src_Block src n e = (Inl err, e') \<Longrightarrow>
           P n chain l e (Some err, chain, l, e')"
    and "\<And>n chain l e b e'. n \<le> head \<Longrightarrow> src_Block src n e = (Inr b, e') \<Longrightarrow> chain \<noteq> [] \<Longrightarrow>
           bl_ParentHash b \<noteq> bl_Hash (last chain) \<Longrightarrow> P n chain l e (Some ErrParentMismatch, chain, l, e')"
    and "\<And>n chain l e b e' r. n \<le> head \<Longrightarrow> src_Block src n e = (Inr b, e') \<Longrightarrow>
           (chain \<noteq> [] \<longrightarrow> bl_ParentHash b = bl_Hash (last chain)) \<Longrightarrow>
           P (n + 1) (push_window w chain b) (Indexer_emit m ''block.new'' b l) e' r \<Longrightarrow> P n chain l e r"
  shows "P n chain l e r"
proof -
  let ?Q = "\<lambda>m' src' w' head' n chain l e r.
     m' = m \<and> src' = src \<and> w' = w \<and> head' = head \<longrightarrow> P n chain l e r"
  have "?Q m src w head n chain l e r"
  proof (rule sync_forward.raw_induct [where P = ?Q, OF _ assms(1)])
    fix f m' src' w' head' n chain l e r
    assume IH: "\<And>m' src' w' head' n chain l e r. f m' src' w' head' n chain l e = Some r \<Longrightarrow>
        ?Q m' src' w' head' n chain l e r"
      and eq: "(if n \<le> head' then
        (case src_Block src' n e of
           (Inl err, e') \<Rightarrow> Some (Some err, chain, l, e')
         | (Inr b, e') \<Rightarrow>
             if chain \<noteq> [] \<and> bl_ParentHash b \<noteq> bl_Hash (last chain)
             then Some (Some ErrParentMismatch, chain, l, e')
             else f m' src' w' head' (n + 1)
               (if length (chain @ [b]) > w' then tl (chain @ [b]) else chain @ [b])
               (Indexer_emit m' ''block.new'' b l) e')
      else Some (None, chain, l, e)) = Some r"
    obtain res e' where b: "src_Block src' n e = (res, e')" by fastforce
    show "?Q m' src' w' head' n chain l e r"
    proof (cases "n \<le> head'")
      case False
      then show ?thesis using eq assms(2) by auto
    next
      case True
      show ?thesis
      proof (cases res)
        case (Inl err)
        then show ?thesis using eq True b assms(3) by auto
      next
        case (Inr blk)
        show ?thesis
        proof (cases "chain \<noteq> [] \<and> bl_ParentHash blk \<noteq> bl_Hash (last chain)")
          case mism: True
          then show ?thesis using eq True b Inr assms(4) by auto
        next
          case False
          with eq True b Inr
          have "f m' src' w' head' (n + 1) (push_window w' chain blk)
              (Indexer_emit m' ''block.new'' blk l) e' = Some r"
            by (simp add: push_window_def)
          from IH [OF this] show ?thesis using True b Inr False assms(5) by blast
        qed
      qed
    qed
  qed
  then show ?thesis by simp
qed

text \<open>The catch-up returns unless the head is the last number there is.\<close>

lemma sync_forward_returns:
  assumes "head \<noteq> -1"
  shows "\<exists>r. sync_forward m src w head n chain l e = Some r"
proof (induction "unat head + 1 - unat n" arbitrary: n chain l e rule: less_induct)
  case less
  show ?case
  proof (cases "n \<le> head")
    case True
    then have "n \<noteq> -1" using assms by (metis word_order.extremum_uniqueI)
    then have n1: "unat (n + 1) = unat n + 1" by (rule unat_inc)
    with True have "unat head + 1 - unat (n + 1) < unat head + 1 - unat n"
      by (simp add: word_le_nat_alt)
    from less [OF this] True show ?thesis
      by (subst sync_forward_unfold) (auto split: prod.split sum.split)
  next
    case False
    then show ?thesis by (subst sync_forward_unfold) simp
  qed
qed

lemma Indexer_Sync_returns:
  assumes "\<And>h e'. src_Head src e = (Inr h, e') \<Longrightarrow> h \<noteq> -1"
  shows "\<exists>err ix' l' e'. Indexer_Sync m src ix l e = Some (err, ix', l', e')"
proof -
  obtain hd e0 where h: "src_Head src e = (hd, e0)" by fastforce
  show ?thesis
  proof (cases hd)
    case (Inl err)
    with h show ?thesis by (simp add: Indexer_Sync_def)
  next
    case (Inr head)
    obtain err c l1 e1 where u: "sync_unwind m src (ix_chain ix) l e0 = (err, c, l1, e1)"
      by (metis prod_cases4)
    have "head \<noteq> -1" using assms h Inr by blast
    from sync_forward_returns [OF this] obtain er c2 l2 e2 where
      "sync_forward m src (ix_window ix) head (sync_next (ix_window ix) head c) c l1 e1 = Some (er, c2, l2, e2)"
      by fastforce
    with h Inr u show ?thesis by (cases err) (simp_all add: Indexer_Sync_def)
  qed
qed

section \<open>Consumers of the event stream\<close>

text \<open>
  A strict consumer keeps its own copy of the window: it takes a new block only if it extends its
  tip, and drops its tip only if that is the block reported as reorged. Anything else is a protocol
  violation (\<open>None\<close>).
\<close>

definition consume :: "nat \<Rightarrow> string \<times> Block \<Rightarrow> Block list \<Rightarrow> Block list option" where
  "consume w ev view = (case ev of (typ, b) \<Rightarrow>
     if typ = ''block.new'' then
       (if view \<noteq> [] \<and> bl_ParentHash b \<noteq> bl_Hash (last view) then None else Some (push_window w view b))
     else if typ = ''block.reorged'' then
       (if view \<noteq> [] \<and> last view = b then Some (butlast view) else None)
     else None)"

fun replay :: "nat \<Rightarrow> (string \<times> Block) list \<Rightarrow> Block list \<Rightarrow> Block list option" where
  "replay w [] view = Some view"
| "replay w (ev # evs) view = Option.bind (consume w ev view) (replay w evs)"

lemma replay_append: "replay w (xs @ ys) v = Option.bind (replay w xs v) (replay w ys)"
  by (induction xs arbitrary: v) (auto split: Option.bind_split)

abbreviation encode_events :: "(Block \<Rightarrow> bytes) \<Rightarrow> (string \<times> Block) list \<Rightarrow> (string \<times> bytes) list" where
  "encode_events m evs \<equiv> map (\<lambda>(t, b). (t, m b)) evs"

text \<open>A block that the source returned at some point.\<close>

definition served :: "'e Source \<Rightarrow> Block \<Rightarrow> bool" where
  "served src b \<longleftrightarrow> (\<exists>n e e'. src_Block src n e = (Inr b, e'))"

lemma servedI: "src_Block src n e = (Inr b, e') \<Longrightarrow> served src b"
  by (auto simp: served_def)

text \<open>
  \<open>published\<close>: the log grew by events that take a strict consumer from one window to the other, and
  every new block among them satisfies \<open>S\<close>.
\<close>

definition published :: "(Block \<Rightarrow> bool) \<Rightarrow> (Block \<Rightarrow> bytes) \<Rightarrow> nat \<Rightarrow> Block list \<Rightarrow> Log \<Rightarrow> Block list \<Rightarrow> Log \<Rightarrow> bool" where
  "published S m w chain l chain' l' \<longleftrightarrow> log_inv l' \<and>
     (\<exists>evs. log_history ''chain'' l' = log_history ''chain'' l @ encode_events m evs \<and>
            replay w evs chain = Some chain' \<and> (\<forall>b. (''block.new'', b) \<in> set evs \<longrightarrow> S b))"

text \<open>A strict consumer drops only blocks it took before, so all blocks it sees satisfy what the new ones do.\<close>

lemma consume_blocks:
  assumes "consume w (t, b) view = Some view'" and "t = ''block.new'' \<longrightarrow> S b" and "\<forall>x \<in> set view. S x"
  shows "S b \<and> (\<forall>x \<in> set view'. S x)"
  using assms by (auto simp: consume_def push_window_def tl_append split: if_splits list.splits dest: in_set_butlastD)

lemma replay_blocks:
  assumes "replay w evs view = Some view'" and "\<forall>b. (''block.new'', b) \<in> set evs \<longrightarrow> S b" and "\<forall>x \<in> set view. S x"
  shows "(\<forall>(t, b) \<in> set evs. S b) \<and> (\<forall>x \<in> set view'. S x)"
  using assms
proof (induction evs arbitrary: view)
  case (Cons ev evs)
  obtain t b where ev: "ev = (t, b)" by fastforce
  from Cons.prems(1) ev obtain v where v: "consume w (t, b) view = Some v" "replay w evs v = Some view'"
    by (auto simp: Option.bind_eq_Some_conv)
  have "S b \<and> (\<forall>x \<in> set v. S x)" using consume_blocks [OF v(1)] Cons.prems(2,3) ev by auto
  with Cons.IH [OF v(2)] Cons.prems(2) ev show ?case by auto
qed simp

lemma emit_put: "Indexer_emit m t b l = log_put ''chain'' t (m b) l"
  by (simp add: Indexer_emit_def log_put_def)

lemma published_refl: "log_inv l \<Longrightarrow> published S m w chain l chain l"
  unfolding published_def by (auto intro: exI [of _ "[]"])

lemma published_trans:
  assumes "published S m w c0 l0 c1 l1" and "published S m w c1 l1 c2 l2"
  shows "published S m w c0 l0 c2 l2"
proof -
  from assms obtain xs ys where
    "log_history ''chain'' l1 = log_history ''chain'' l0 @ encode_events m xs" "replay w xs c0 = Some c1"
    "\<forall>b. (''block.new'', b) \<in> set xs \<longrightarrow> S b" "\<forall>b. (''block.new'', b) \<in> set ys \<longrightarrow> S b"
    "log_history ''chain'' l2 = log_history ''chain'' l1 @ encode_events m ys" "replay w ys c1 = Some c2"
    by (auto simp: published_def)
  then show ?thesis
    using assms(2) unfolding published_def by (auto simp: replay_append intro!: exI [of _ "xs @ ys"])
qed

lemma published_emit:
  assumes "log_inv l" and "consume w (t, b) chain = Some chain'" and "t = ''block.new'' \<longrightarrow> S b"
  shows "published S m w chain l chain' (Indexer_emit m t b l)"
  using assms log_sink.history_put [OF assms(1)] log_sink.inv_put [OF assms(1)]
  unfolding published_def emit_put by (auto intro!: exI [of _ "[(t, b)]"])

lemma unwind_published:
  assumes "log_inv l" and "sync_unwind m src chain l e = (err, chain', l', e')"
  shows "published S m w chain l chain' l'"
  using assms
proof (induction chain arbitrary: l e rule: rev_induct)
  case Nil
  then show ?case by (auto simp: published_refl)
next
  case (snoc tip xs)
  let ?l = "Indexer_emit m ''block.reorged'' tip l"
  have p: "published S m w (xs @ [tip]) l xs ?l"
    by (intro published_emit snoc.prems) (simp_all add: consume_def)
  then have inv: "log_inv ?l" by (simp add: published_def)
  from snoc.prems(2) consider "chain' = xs @ [tip]" "l' = l"
    | e1 where "sync_unwind m src xs ?l e1 = (err, chain', l', e')"
    by (auto simp: sync_unwind_snoc split: prod.splits sum.splits if_splits)
  then show ?case
  proof cases
    case 1
    with snoc.prems(1) show ?thesis by (simp add: published_refl)
  next
    case 2
    from published_trans [OF p snoc.IH [OF inv 2]] show ?thesis .
  qed
qed

lemma forward_published:
  assumes "sync_forward m src w head n chain l e = Some r" and "log_inv l"
  shows "published (served src) m w chain l (fst (snd r)) (fst (snd (snd r)))"
  using assms
proof (induction rule: sync_forward_rule)
  case (step n chain l e b e' r)
  have p: "published (served src) m w chain l (push_window w chain b) (Indexer_emit m ''block.new'' b l)"
    using step.hyps step.prems by (intro published_emit) (auto simp: consume_def intro: servedI)
  moreover from p have "log_inv (Indexer_emit m ''block.new'' b l)" by (simp add: published_def)
  ultimately show ?case using step.IH published_trans by blast
qed (simp_all add: published_refl)

lemma Indexer_Sync_cases:
  assumes "Indexer_Sync m src ix l e = Some (err, ix', l', e')"
  obtains (head_error) x where "src_Head src e = (Inl x, e')" "err = Some x" "ix' = ix" "l' = l"
  | (unwind_error) head e0 c x where "src_Head src e = (Inr head, e0)"
      "sync_unwind m src (ix_chain ix) l e0 = (Some x, c, l', e')" "err = Some x" "ix' = ix\<lparr>ix_chain := c\<rparr>"
  | (forward) head e0 c l1 e1 chain' where "src_Head src e = (Inr head, e0)"
      "sync_unwind m src (ix_chain ix) l e0 = (None, c, l1, e1)"
      "sync_forward m src (ix_window ix) head (sync_next (ix_window ix) head c) c l1 e1
         = Some (err, chain', l', e')" "ix' = ix\<lparr>ix_chain := chain'\<rparr>"
proof -
  obtain hd e0 where h: "src_Head src e = (hd, e0)" by fastforce
  obtain er c l1 e1 where u: "sync_unwind m src (ix_chain ix) l e0 = (er, c, l1, e1)"
    by (metis prod_cases4)
  show thesis
  proof (cases hd)
    case (Inl x)
    then show thesis using assms h head_error by (simp add: Indexer_Sync_def)
  next
    case (Inr head)
    show thesis
    proof (cases er)
      case (Some x)
      then show thesis using assms h u Inr by (intro unwind_error) (auto simp: Indexer_Sync_def)
    next
      case None
      then show thesis using assms h u Inr forward
        by (simp add: Indexer_Sync_def) (metis (no_types, lifting) case_prodE prod.inject)
    qed
  qed
qed

lemma unwind_prefix: "sync_unwind m src chain l e = (err, c, l1, e1) \<Longrightarrow> \<exists>k. c = take k chain"
proof (induction chain arbitrary: l e rule: rev_induct)
  case (snoc tip xs)
  then consider "c = xs @ [tip]"
    | l0 e0 where "sync_unwind m src xs l0 e0 = (err, c, l1, e1)"
    by (auto simp: sync_unwind_snoc split: prod.splits sum.splits if_splits)
  then show ?case
  proof cases
    case 1
    then show ?thesis by (intro exI [of _ "length (xs @ [tip])"]) simp
  next
    case 2
    from snoc.IH [OF this] obtain k where "c = take k xs" ..
    then have "c = take (min k (length xs)) (xs @ [tip])" by (simp add: min_def)
    then show ?thesis ..
  qed
qed simp

lemma chain_inv_take: "chain_inv w xs \<Longrightarrow> chain_inv w (take k xs)"
proof (induction xs arbitrary: k rule: rev_induct)
  case (snoc x xs)
  have "chain_inv w xs" using chain_inv_butlast [OF snoc.prems] by simp
  with snoc.IH [of k] snoc.prems show ?case by (cases "k \<le> length xs") simp_all
qed simp

lemma Sync_published:
  assumes "log_inv l" and "Indexer_Sync m src ix l e = Some (err, ix', l', e')"
  shows "published (served src) m (ix_window ix) (ix_chain ix) l (ix_chain ix') l' \<and> ix_window ix' = ix_window ix"
  using assms(2)
proof (cases rule: Indexer_Sync_cases)
  case head_error
  then show ?thesis using assms(1) by (simp add: published_refl)
next
  case unwind_error
  then show ?thesis using unwind_published [OF assms(1)] by simp
next
  case (forward head e0 c l1 e1 chain')
  have p: "published (served src) m (ix_window ix) (ix_chain ix) l c l1"
    by (rule unwind_published [OF assms(1) forward(2)])
  then have "log_inv l1" by (simp add: published_def)
  from forward_published [OF forward(3) this] published_trans [OF p] forward(4) show ?thesis by simp
qed

lemma Run_published:
  assumes "log_inv l" and "Indexer_Run k m src ix l e = Some (errs, ix', l', e')"
  shows "published (served src) m (ix_window ix) (ix_chain ix) l (ix_chain ix') l' \<and> ix_window ix' = ix_window ix"
  using assms
proof (induction k arbitrary: ix l e errs)
  case (Suc k)
  from Suc.prems(2) obtain err ix1 l1 e1 errs1
    where s: "Indexer_Sync m src ix l e = Some (err, ix1, l1, e1)"
      and r: "Indexer_Run k m src ix1 l1 e1 = Some (errs1, ix', l', e')"
    by (auto simp: Option.bind_eq_Some_conv)
  from Sync_published [OF Suc.prems(1) s]
  have p: "published (served src) m (ix_window ix) (ix_chain ix) l (ix_chain ix1) l1" and w: "ix_window ix1 = ix_window ix"
    by auto
  then have "log_inv l1" by (simp add: published_def)
  from Suc.IH [OF this r] p w show ?case using published_trans by metis
qed (simp add: published_refl)

section \<open>The window over any source\<close>

text \<open>The bound and the hash links do not depend on what the node answers.\<close>

definition window_linked :: "nat \<Rightarrow> Block list \<Rightarrow> bool" where
  "window_linked w chain \<longleftrightarrow> length chain \<le> w \<and> linked chain"

lemma linked_prefix: "linked (xs @ ys) \<Longrightarrow> linked xs"
  by (induction ys rule: rev_induct) (simp_all add: linked_snoc flip: append_assoc)

lemma window_linked_take: "window_linked w chain \<Longrightarrow> window_linked w (take k chain)"
  using linked_prefix [of "take k chain" "drop k chain"] by (auto simp: window_linked_def)

lemma window_linked_push:
  assumes "window_linked w chain" and "chain \<noteq> [] \<longrightarrow> bl_ParentHash b = bl_Hash (last chain)" and "1 \<le> w"
  shows "window_linked w (push_window w chain b)"
  using assms linked_tl [of "chain @ [b]"] by (auto simp: window_linked_def push_window_def linked_snoc)

lemma forward_linked:
  assumes "sync_forward m src w head n chain l e = Some r" and "window_linked w chain" and "1 \<le> w"
  shows "window_linked w (fst (snd r))"
  using assms(1,2)
proof (induction rule: sync_forward_rule)
  case (step n chain l e b e' r)
  then show ?case using window_linked_push [OF _ _ assms(3)] by blast
qed simp_all

lemma Sync_linked:
  assumes "Indexer_Sync m src ix l e = Some (err, ix', l', e')" and "window_linked (ix_window ix) (ix_chain ix)" and "1 \<le> ix_window ix"
  shows "window_linked (ix_window ix) (ix_chain ix')"
  using assms(1)
proof (cases rule: Indexer_Sync_cases)
  case unwind_error
  then show ?thesis using unwind_prefix window_linked_take [OF assms(2)] by fastforce
next
  case (forward head e0 c l1 e1 chain')
  have "window_linked (ix_window ix) c" using unwind_prefix [OF forward(2)] window_linked_take [OF assms(2)] by auto
  from forward_linked [OF forward(3) this assms(3)] forward(4) show ?thesis by simp
qed (use assms in simp)

section \<open>What the indexer relies on of its source\<close>

text \<open>
  The window invariant needs one thing of the node: a block that is asked for by number has that
  number. The hash links are checked by the indexer itself.
\<close>

locale numbered_source =
  fixes src :: "'e Source"
  assumes block_number: "src_Block src n e = (Inr b, e') \<Longrightarrow> bl_Number b = n"
begin

lemma forward_inv:
  assumes "sync_forward m src w head n chain l e = Some r" and "chain_inv w chain" and "1 \<le> w"
    and "chain \<noteq> [] \<longrightarrow> n = bl_Number (last chain) + 1"
  shows "chain_inv w (fst (snd r))"
  using assms
proof (induction rule: sync_forward_rule)
  case (step n chain l e b e' r)
  have b: "bl_Number b = n" using block_number [OF step.hyps(2)] .
  have "chain_inv w (push_window w chain b)"
    using step.hyps step.prems b by (intro chain_inv_push) auto
  then show ?case using step.IH step.prems(2) last_push_window [OF step.prems(2)] b by auto
qed simp_all

lemma Sync_inv:
  assumes "Indexer_Sync m src ix l e = Some (err, ix', l', e')"
    and "chain_inv (ix_window ix) (ix_chain ix)" and "1 \<le> ix_window ix"
  shows "chain_inv (ix_window ix') (ix_chain ix') \<and> ix_window ix' = ix_window ix"
  using assms(1)
proof (cases rule: Indexer_Sync_cases)
  case unwind_error
  then show ?thesis using unwind_prefix chain_inv_take [OF assms(2)] by fastforce
next
  case (forward head e0 c l1 e1 chain')
  have "chain_inv (ix_window ix) c"
    using unwind_prefix [OF forward(2)] chain_inv_take [OF assms(2)] by auto
  from forward_inv [OF forward(3) this assms(3)] forward(4) show ?thesis
    by (simp add: sync_next_def)
qed (use assms in simp)

end

section \<open>A node that stands still\<close>

text \<open>
  A node whose canonical chain does not change during one \<^verbatim>\<open>Sync\<close>: it has the blocks
  \<open>blk 0, \<dots>, blk h\<close>, numbered and linked.
\<close>

definition static_source :: "u64 \<Rightarrow> (u64 \<Rightarrow> Block) \<Rightarrow> 'e Source" where
  "static_source h blk = \<lparr>src_Head = (\<lambda>e. (Inr h, e)),
     src_Block = (\<lambda>n e. (if n \<le> h then Inr (blk n) else Inl ErrNotFound, e))\<rparr>"

definition canonical :: "u64 \<Rightarrow> (u64 \<Rightarrow> Block) \<Rightarrow> bool" where
  "canonical h blk \<longleftrightarrow> (\<forall>n \<le> h. bl_Number (blk n) = n \<and>
     (n < h \<longrightarrow> bl_ParentHash (blk (n + 1)) = bl_Hash (blk n)))"

text \<open>All blocks of a list are blocks of the node.\<close>

definition on_chain :: "u64 \<Rightarrow> (u64 \<Rightarrow> Block) \<Rightarrow> Block list \<Rightarrow> bool" where
  "on_chain h blk bs \<longleftrightarrow> (\<forall>b \<in> set bs. bl_Number b \<le> h \<and> b = blk (bl_Number b))"

text \<open>No stored block shares its hash with another block of the node.\<close>

definition no_collision :: "u64 \<Rightarrow> (u64 \<Rightarrow> Block) \<Rightarrow> Block list \<Rightarrow> bool" where
  "no_collision h blk bs \<longleftrightarrow> (\<forall>b \<in> set bs. \<forall>n \<le> h. bl_Hash b = bl_Hash (blk n) \<longrightarrow> b = blk n)"

lemma linked_contiguous_on_chain:
  assumes "canonical h blk" and "linked xs" and "contiguous xs" and "no_collision h blk xs"
    and "\<forall>b \<in> set xs. bl_Number b \<noteq> -1"
    and "xs \<noteq> [] \<longrightarrow> bl_Number (last xs) \<le> h \<and> bl_Hash (last xs) = bl_Hash (blk (bl_Number (last xs)))"
  shows "on_chain h blk xs"
  using assms(2-)
proof (induction xs rule: rev_induct)
  case (snoc tip xs)
  have tip: "bl_Number tip \<le> h" "tip = blk (bl_Number tip)"
    using snoc.prems by (auto simp: no_collision_def)
  have "on_chain h blk xs"
  proof (rule snoc.IH)
    show "linked xs" "contiguous xs" using snoc.prems by (auto simp: linked_snoc contiguous_snoc)
    show "no_collision h blk xs" "\<forall>b \<in> set xs. bl_Number b \<noteq> -1"
      using snoc.prems by (auto simp: no_collision_def)
    show "xs \<noteq> [] \<longrightarrow> bl_Number (last xs) \<le> h \<and> bl_Hash (last xs) = bl_Hash (blk (bl_Number (last xs)))"
    proof
      assume ne: "xs \<noteq> []"
      let ?n = "bl_Number (last xs)"
      have n: "bl_Number tip = ?n + 1" "?n \<noteq> -1" "bl_ParentHash tip = bl_Hash (last xs)"
        using ne snoc.prems by (auto simp: linked_snoc contiguous_snoc)
      then have "unat (?n + 1) = unat ?n + 1" by (intro unat_inc)
      then have lt: "?n < ?n + 1" by (simp add: word_less_nat_alt)
      with n(1) tip(1) have "?n < h" by simp
      then show "?n \<le> h \<and> bl_Hash (last xs) = bl_Hash (blk ?n)"
        using assms(1) n tip(2) by (auto simp: canonical_def)
    qed
  qed
  with tip show ?case by (simp add: on_chain_def)
qed (simp add: on_chain_def)

lemma unwind_static:
  assumes "sync_unwind m (static_source h blk) chain l e = (err, c, l1, e1)"
  shows "err = None \<and>
    (c \<noteq> [] \<longrightarrow> bl_Number (last c) \<le> h \<and> bl_Hash (last c) = bl_Hash (blk (bl_Number (last c))))"
  using assms
proof (induction chain arbitrary: l e rule: rev_induct)
  case (snoc tip xs)
  then consider "err = None" "c = xs @ [tip]" "bl_Number tip \<le> h" "bl_Hash (blk (bl_Number tip)) = bl_Hash tip"
    | l0 e0 where "sync_unwind m (static_source h blk) xs l0 e0 = (err, c, l1, e1)"
    by (auto simp: sync_unwind_snoc static_source_def split: if_splits)
  then show ?case using snoc.IH by cases auto
qed simp

lemma set_push_window: "set (push_window w chain b) \<subseteq> set (chain @ [b])"
  by (cases chain) (auto simp: push_window_def)

lemma on_chain_push: "on_chain h blk chain \<Longrightarrow> on_chain h blk [b] \<Longrightarrow> on_chain h blk (push_window w chain b)"
  using set_push_window [of w chain b] unfolding on_chain_def by fastforce

lemma length_push: "1 \<le> w \<Longrightarrow> length chain \<le> w \<Longrightarrow>
    length (push_window w chain b) = min w (length chain + 1)"
  by (auto simp: push_window_def)

lemma tip_next:
  assumes "on_chain h blk chain" and "chain \<noteq> []" and "h \<noteq> -1" and "n = bl_Number (last chain) + 1"
  shows "bl_Number (last chain) \<le> h" and "last chain = blk (bl_Number (last chain))" and "unat n = unat (bl_Number (last chain)) + 1"
proof -
  show k: "bl_Number (last chain) \<le> h" "last chain = blk (bl_Number (last chain))" using assms(1,2) by (auto simp: on_chain_def)
  then have "bl_Number (last chain) \<noteq> -1" using assms(3) by (metis word_order.extremum_uniqueI)
  then show "unat n = unat (bl_Number (last chain)) + 1" using assms(4) unat_inc by simp
qed

lemma forward_static:
  assumes "sync_forward m (static_source h blk) w h n chain l e = Some r"
    and "canonical h blk" and "h \<noteq> -1" and "1 \<le> w"
    and "length chain \<le> w" and "on_chain h blk chain"
    and "if chain = [] then n \<le> h else n = bl_Number (last chain) + 1"
  shows "fst r = None \<and> on_chain h blk (fst (snd r)) \<and> fst (snd r) \<noteq> [] \<and>
         last (fst (snd r)) = blk h \<and>
         length (fst (snd r)) = min w (length chain + (unat h + 1 - unat n))"
  using assms
proof (induction rule: sync_forward_rule)
  case (finish n chain l e)
  then have ne: "chain \<noteq> []" and n: "n = bl_Number (last chain) + 1" by (auto split: if_splits)
  let ?k = "bl_Number (last chain)"
  have k: "?k \<le> h" "last chain = blk ?k" and u: "unat n = unat ?k + 1"
    using tip_next [OF _ ne _ n] finish.prems by blast+
  have "\<not> unat n \<le> unat h" using finish.hyps by (simp add: word_le_nat_alt)
  with u k(1) have "unat ?k = unat h" "unat h + 1 - unat n = 0" by (simp_all add: word_le_nat_alt)
  then have "?k = h" by (simp add: word_unat_eq_iff)
  with k show ?case using ne finish.prems \<open>unat h + 1 - unat n = 0\<close> by (simp add: min_def)
next
  case (fail n chain l e err e')
  then show ?case by (simp add: static_source_def)
next
  case (mismatch n chain l e b e')
  let ?k = "bl_Number (last chain)"
  have n: "n = ?k + 1" using mismatch.hyps mismatch.prems by simp
  have k: "last chain = blk ?k" and "unat n = unat ?k + 1" using tip_next [OF _ mismatch.hyps(3) _ n] mismatch.prems by blast+
  then have "?k < h" using mismatch.hyps(1) by (simp add: word_le_nat_alt word_less_nat_alt)
  then have "bl_ParentHash (blk n) = bl_Hash (blk ?k)" using mismatch.prems(1) n by (simp add: canonical_def)
  moreover have "b = blk n" using mismatch.hyps(1,2) by (simp add: static_source_def)
  ultimately show ?case using mismatch.hyps(4) k by simp
next
  case (step n chain l e b e' r)
  have b: "b = blk n" using step.hyps(1,2) by (simp add: static_source_def)
  then have num: "bl_Number b = n" using step.prems(1) step.hyps(1) by (simp add: canonical_def)
  have "n \<noteq> -1" using step.hyps(1) step.prems(2) by (metis word_order.extremum_uniqueI)
  then have n: "unat (n + 1) = unat n + 1" "unat n \<le> unat h"
    using step.hyps(1) unat_inc [of n] by (simp_all add: word_le_nat_alt)
  have "fst r = None \<and> on_chain h blk (fst (snd r)) \<and> fst (snd r) \<noteq> [] \<and> last (fst (snd r)) = blk h \<and>
      length (fst (snd r)) = min w (length (push_window w chain b) + (unat h + 1 - unat (n + 1)))"
  proof (rule step.IH)
    show "on_chain h blk (push_window w chain b)"
      using step.prems(5) step.hyps(1) b num by (intro on_chain_push) (simp_all add: on_chain_def)
    show "length (push_window w chain b) \<le> w" using length_push step.prems by simp
    show "if push_window w chain b = [] then n + 1 \<le> h else n + 1 = bl_Number (last (push_window w chain b)) + 1"
      using last_push_window [OF step.prems(3), of chain b] num by simp
  qed (use step.prems in auto)
  then show ?case using n length_push [OF step.prems(3,4), of b] by (auto simp: min_def)
qed

lemma sync_next_le:
  assumes "h \<noteq> -1" and "1 \<le> w" and "w < 2 ^ 63"
  shows "sync_next w h [] \<le> h \<and> unat h + 1 - unat (sync_next w h []) = min w (unat h + 1)"
proof -
  have w: "unat (word_of_nat w :: u64) = w" using assms(3) by (simp add: unat_of_nat)
  have h: "unat (h + 1) = unat h + 1" using assms(1) by (rule unat_inc)
  show ?thesis
  proof (cases "h + 1 > word_of_nat w")
    case True
    then have "w < unat h + 1" using w h by (simp add: word_less_nat_alt)
    moreover have "unat (h + 1 - word_of_nat w) = unat h + 1 - w"
      using True w h by (simp add: unat_sub)
    ultimately show ?thesis using True assms(2)
      by (simp add: sync_next_def word_le_nat_alt)
  next
    case False
    then have "unat h + 1 \<le> w" using w h by (simp add: word_less_nat_alt not_less)
    then show ?thesis using False by (simp add: sync_next_def)
  qed
qed

lemma Sync_static:
  assumes "canonical h blk" and "h \<noteq> -1" and "1 \<le> ix_window ix" and "ix_window ix < 2 ^ 63"
    and "chain_inv (ix_window ix) (ix_chain ix)" and "no_collision h blk (ix_chain ix)"
    and "\<forall>b \<in> set (ix_chain ix). bl_Number b \<noteq> -1"
    and "Indexer_Sync m (static_source h blk) ix l e = Some (err, ix', l', e')"
  shows "err = None \<and> on_chain h blk (ix_chain ix') \<and> ix_chain ix' \<noteq> [] \<and> last (ix_chain ix') = blk h \<and>
         (ix_chain ix = [] \<longrightarrow> length (ix_chain ix') = min (ix_window ix) (unat h + 1))"
  using assms(8)
proof (cases rule: Indexer_Sync_cases)
  case head_error
  then show ?thesis by (simp add: static_source_def)
next
  case unwind_error
  then show ?thesis using unwind_static by fastforce
next
  case (forward head e0 c l1 e1 chain')
  have head: "head = h" using forward(1) by (simp add: static_source_def)
  obtain k where k: "c = take k (ix_chain ix)" using unwind_prefix [OF forward(2)] by blast
  have cinv: "chain_inv (ix_window ix) c" using chain_inv_take [OF assms(5)] k by simp
  have "on_chain h blk c"
  proof (rule linked_contiguous_on_chain [OF assms(1)])
    show "linked c" "contiguous c" using cinv by (simp_all add: chain_inv_def)
    show "no_collision h blk c" "\<forall>b \<in> set c. bl_Number b \<noteq> -1"
      using assms(6,7) k by (auto simp: no_collision_def dest: in_set_takeD)
    show "c \<noteq> [] \<longrightarrow> bl_Number (last c) \<le> h \<and> bl_Hash (last c) = bl_Hash (blk (bl_Number (last c)))"
      using unwind_static [OF forward(2)] by blast
  qed
  moreover have "if c = [] then sync_next (ix_window ix) h c \<le> h
      else sync_next (ix_window ix) h c = bl_Number (last c) + 1"
    using sync_next_le [OF assms(2-4)] by (auto simp: sync_next_def)
  ultimately show ?thesis
    using forward_static [OF forward(3) [unfolded head] assms(1-3)] cinv forward(4) k
      sync_next_le [OF assms(2-4)] by (auto simp: chain_inv_def)
qed

lemma static_Sync_returns:
  "h \<noteq> -1 \<Longrightarrow> \<exists>err ix' l' e'. Indexer_Sync m (static_source h blk) ix l e = Some (err, ix', l', e')"
  by (rule Indexer_Sync_returns) (simp add: static_source_def)

section \<open>Properties\<close>

definition demo_blk :: "u64 \<Rightarrow> Block" where
  "demo_blk n = \<lparr>bl_Number = n, bl_Hash = replicate (unat n) CHR ''a'',
     bl_ParentHash = replicate (unat n - 1) CHR ''a'', bl_Timestamp = 0, bl_TxCount = 0\<rparr>"

lemma demo_canonical: "canonical h demo_blk"
proof -
  have "unat (n + 1) = unat n + 1" if "n < h" for n
    using that unat_inc [of n] by (metis word_order.not_eq_extremum word_order.extremum_strict)
  then show ?thesis by (auto simp: canonical_def demo_blk_def)
qed

text \<open>C5: the event stream is a faithful record of the index. After any number of polls, against any
  node, with errors and reorgs on the way, the \<^verbatim>\<open>chain\<close> events in the log, replayed from nothing by
  a consumer that checks every parent link and every reorged tip, give exactly the window the
  indexer holds; and every block in these events is one the node returned.\<close>

theorem index_replay:
  assumes "n < 2 ^ 32" and "Indexer_Run k m src (Indexer_New w) (Log_New n) e = Some (errs, ix', l', e')"
  shows "\<exists>evs. log_history ''chain'' l' = encode_events m evs \<and>
               replay (nat (max w 1)) evs [] = Some (ix_chain ix') \<and> (\<forall>(t, b) \<in> set evs. served src b)"
proof -
  have "log_history ''chain'' (Log_New n) = []"
    using log_part_less [of "Log_New n" "''chain''"] assms(1) by (simp add: log_history_def Log_New_def)
  then obtain evs where "log_history ''chain'' l' = encode_events m evs" "replay (nat (max w 1)) evs [] = Some (ix_chain ix')"
    "\<forall>b. (''block.new'', b) \<in> set evs \<longrightarrow> served src b"
    using Run_published [OF log_inv_New [OF assms(1)] assms(2)] by (auto simp: published_def Indexer_New_def)
  with replay_blocks [OF this(2,3)] show ?thesis by auto
qed

theorem index_replay_witness:
  "\<exists>errs ix' l' e' evs. Indexer_Run 2 (\<lambda>b. []) (static_source 3 demo_blk) (Indexer_New 4) (Log_New 4) () =
      Some (errs, ix', l', e') \<and>
      log_history ''chain'' l' = encode_events (\<lambda>b. []) evs \<and> replay 4 evs [] = Some (ix_chain ix')"
proof -
  let ?s = "static_source 3 demo_blk :: unit Source"
  obtain e1 i1 l1 w1 where 1: "Indexer_Sync (\<lambda>b. []) ?s (Indexer_New 4) (Log_New 4) () = Some (e1, i1, l1, w1)"
    using static_Sync_returns [of 3 "\<lambda>b. []" demo_blk "Indexer_New 4" "Log_New 4" "()"] by auto
  obtain e2 i2 l2 w2 where 2: "Indexer_Sync (\<lambda>b. []) ?s i1 l1 w1 = Some (e2, i2, l2, w2)"
    using static_Sync_returns [of 3 "\<lambda>b. []" demo_blk i1 l1 w1] by auto
  have r: "\<exists>errs. Indexer_Run 2 (\<lambda>b. []) ?s (Indexer_New 4) (Log_New 4) () = Some (errs, i2, l2, w2)"
    using 1 2 by (simp add: numeral_2_eq_2)
  then obtain errs where
    r: "Indexer_Run 2 (\<lambda>b. []) ?s (Indexer_New 4) (Log_New 4) () = Some (errs, i2, l2, w2)" ..
  from index_replay [OF _ r] r show ?thesis by auto
qed

text \<open>C10: the window invariant. Against any node, whatever it answers and even if it reorganises while \<^verbatim>\<open>Sync\<close> runs, a
  \<^verbatim>\<open>Sync\<close> that returns, with an error or without, leaves a window of at most \<open>window\<close> blocks, each with its
  predecessor's hash as its parent hash, if the window was so before. It is numbered without
  gaps too, if it was so before and the node answers a request for number \<open>n\<close> with a block numbered \<open>n\<close>; \<^verbatim>\<open>Sync\<close> does
  not check that itself.\<close>

theorem Sync_keeps_window:
  assumes "Indexer_Sync m src ix l e = Some (err, ix', l', e')" and "1 \<le> ix_window ix"
    and "length (ix_chain ix) \<le> ix_window ix" and "linked (ix_chain ix)"
  shows "ix_window ix' = ix_window ix \<and> length (ix_chain ix') \<le> ix_window ix \<and> linked (ix_chain ix') \<and>
    ((\<forall>n e b e'. src_Block src n e = (Inr b, e') \<longrightarrow> bl_Number b = n) \<longrightarrow> contiguous (ix_chain ix) \<longrightarrow> contiguous (ix_chain ix'))"
proof -
  have "ix_window ix' = ix_window ix" using assms(1) by (cases rule: Indexer_Sync_cases) simp_all
  moreover have "window_linked (ix_window ix) (ix_chain ix')"
    using Sync_linked [OF assms(1) _ assms(2)] assms(3,4) by (simp add: window_linked_def)
  moreover have "contiguous (ix_chain ix')"
    if "\<forall>n e b e'. src_Block src n e = (Inr b, e') \<longrightarrow> bl_Number b = n" "contiguous (ix_chain ix)"
  proof -
    have "numbered_source src" using that(1) by unfold_locales blast
    from numbered_source.Sync_inv [OF this assms(1) _ assms(2)] assms(3,4) that(2) show ?thesis by (simp add: chain_inv_def)
  qed
  ultimately show ?thesis by (simp add: window_linked_def)
qed

theorem Sync_keeps_window_witness:
  "\<exists>err ix' l' e'. Indexer_Sync (\<lambda>b. []) (static_source 3 demo_blk) (Indexer_New 2) (Log_New 1) () =
      Some (err, ix', l', e') \<and> length (ix_chain ix') \<le> 2 \<and> linked (ix_chain ix') \<and> contiguous (ix_chain ix')"
proof -
  let ?s = "static_source 3 demo_blk :: unit Source"
  obtain err ix' l' e' where
    s: "Indexer_Sync (\<lambda>b. []) ?s (Indexer_New 2) (Log_New 1) () = Some (err, ix', l', e')"
    using static_Sync_returns [of 3 "\<lambda>b. []" demo_blk "Indexer_New 2" "Log_New 1" "()"] by auto
  have "\<forall>n e b e'. src_Block ?s n e = (Inr b, e') \<longrightarrow> bl_Number b = n" by (auto simp: static_source_def demo_blk_def split: if_splits)
  with Sync_keeps_window [OF s] s show ?thesis by (auto simp: Indexer_New_def)
qed

text \<open>C9: convergence. Against a node that does not change during the call, with heights below the
  last 64-bit number and no hash collisions with the stored window, \<^verbatim>\<open>Sync\<close> returns, without an
  error, and then every block of the window is a canonical block of the node and the newest one is
  the node's head, whatever stale fork the window held before. From an empty window it is full.\<close>

theorem Sync_converges:
  assumes "canonical h blk" and "h \<noteq> -1" and "1 \<le> ix_window ix" and "ix_window ix < 2 ^ 63"
    and "chain_inv (ix_window ix) (ix_chain ix)" and "no_collision h blk (ix_chain ix)"
    and "\<forall>b \<in> set (ix_chain ix). bl_Number b \<noteq> -1"
  shows "\<exists>ix' l' e'. Indexer_Sync m (static_source h blk) ix l e = Some (None, ix', l', e') \<and>
           on_chain h blk (ix_chain ix') \<and> Indexer_Head ix' = Some (blk h) \<and>
           (ix_chain ix = [] \<longrightarrow> length (ix_chain ix') = min (ix_window ix) (unat h + 1))"
proof -
  obtain err ix' l' e' where s: "Indexer_Sync m (static_source h blk) ix l e = Some (err, ix', l', e')"
    using static_Sync_returns [OF assms(2), of m blk ix l e] by blast
  from Sync_static [OF assms s] s show ?thesis by (auto simp: Indexer_Head_def)
qed

theorem Sync_converges_witness:
  "\<exists>ix' l' e'. Indexer_Sync (\<lambda>b. []) (static_source 3 demo_blk)
       \<lparr>ix_window = 4, ix_chain = [(demo_blk 2)\<lparr>bl_Hash := ''stale''\<rparr>]\<rparr> (Log_New 1) () = Some (None, ix', l', e') \<and>
     Indexer_Head ix' = Some (demo_blk 3)"
proof -
  let ?ix = "\<lparr>ix_window = 4, ix_chain = [(demo_blk 2)\<lparr>bl_Hash := ''stale''\<rparr>]\<rparr>"
  have "replicate k CHR ''a'' \<noteq> ''stale''" for k
  proof
    assume "replicate k CHR ''a'' = ''stale''"
    then have "CHR ''s'' \<in> set (replicate k CHR ''a'')" by simp
    then show False by simp
  qed
  then have "no_collision 3 demo_blk (ix_chain ?ix)"
    by (auto simp: no_collision_def demo_blk_def dest: sym)
  then show ?thesis
    using Sync_converges [OF demo_canonical, of 3 ?ix "\<lambda>b. []" "Log_New 1" "()"]
    by (auto simp: chain_inv_def demo_blk_def)
qed

text \<open>C11: termination. \<^verbatim>\<open>Sync\<close> returns against any node, however its answers change, unless the
  node reports the largest 64-bit number as its head.\<close>

theorem Sync_terminates:
  assumes "\<And>h e'. src_Head src e = (Inr h, e') \<Longrightarrow> h \<noteq> -1"
  shows "\<exists>err ix' l' e'. Indexer_Sync m src ix l e = Some (err, ix', l', e')"
  by (rule Indexer_Sync_returns [OF assms])

theorem Sync_terminates_witness:
  "\<exists>err ix' l' e'. Indexer_Sync (\<lambda>b. []) (static_source 9 demo_blk) (Indexer_New 2) (Log_New 1) () =
      Some (err, ix', l', e')"
  by (rule Sync_terminates) (simp add: static_source_def)

text \<open>And there it can hang. Against a node whose head is the largest 64-bit number and that
  answers every number with a linked block, \<^verbatim>\<open>Sync\<close> of an empty indexer does not return: the loop
  variable wraps around to zero.\<close>

theorem Sync_diverges_at_max_head:
  assumes "\<And>n. bl_ParentHash (blk n) = hash \<and> bl_Hash (blk n) = hash" and "1 \<le> w"
  shows "Indexer_Sync m (static_source (-1) blk) \<lparr>ix_window = w, ix_chain = []\<rparr> l e = None"
proof (rule ccontr)
  let ?s = "static_source (-1) blk"
  assume "\<not> ?thesis"
  then obtain r n where "sync_forward m ?s w (-1) n [] l e = Some r"
    by (auto simp: Indexer_Sync_def static_source_def)
  then have "(\<forall>b \<in> set ([]::Block list). bl_Hash b = hash) \<longrightarrow> False"
  proof (induction rule: sync_forward_rule
      [where P = "\<lambda>n chain l e r. (\<forall>b \<in> set chain. bl_Hash b = hash) \<longrightarrow> False"])
    case (step n chain l e b e' r)
    moreover have "bl_Hash b = hash" using step.hyps(2) assms(1) by (auto simp: static_source_def)
    ultimately show ?case using set_push_window [of w chain b] by auto
  next
    case (mismatch n chain l e b e')
    then show ?case using assms(1) by (auto simp: static_source_def intro!: bexI [of _ "last chain"])
  qed (auto simp: static_source_def)
  then show False by simp
qed

theorem Sync_diverges_at_max_head_witness:
  "Indexer_Sync (\<lambda>b. []) (static_source (-1) (\<lambda>n. \<lparr>bl_Number = n, bl_Hash = ''x'', bl_ParentHash = ''x'',
      bl_Timestamp = 0, bl_TxCount = 0\<rparr>)) \<lparr>ix_window = 1, ix_chain = []\<rparr> (Log_New 1) () = None"
  by (rule Sync_diverges_at_max_head) simp_all

text \<open>\<^verbatim>\<open>Blocks\<close> returns the newest blocks, newest first, at most \<open>limit\<close> of them, and none for a
  negative limit.\<close>

theorem Blocks_newest_first:
  "Indexer_Blocks limit ix = take (nat limit) (rev (ix_chain ix))"
proof (rule nth_equalityI)
  show "length (Indexer_Blocks limit ix) = length (take (nat limit) (rev (ix_chain ix)))"
    by (auto simp: Indexer_Blocks_def Let_def min_def)
  fix i assume "i < length (Indexer_Blocks limit ix)"
  then have "i < length (ix_chain ix)" "i < nat limit"
    by (auto simp: Indexer_Blocks_def Let_def min_def split: if_splits)
  then show "Indexer_Blocks limit ix ! i = take (nat limit) (rev (ix_chain ix)) ! i"
    by (auto simp: Indexer_Blocks_def Let_def rev_nth min_def)
qed

end
