(* ===== verification/Rpcx.thy ===== *)
theory Rpcx
  imports Json
begin

text \<open>
  The JSON-RPC client of \<^verbatim>\<open>internal/rpcx/rpcx.go\<close>: one call through a \<^verbatim>\<open>Caller\<close>, with the envelope
  of the answer taken apart. The caller (in the gateway the endpoint pool) is an argument, and so is
  the decoder of the result, which stands for the type of \<^verbatim>\<open>out\<close>.
\<close>

type_synonym 'e Caller = "bytes \<Rightarrow> 'e \<Rightarrow> (gerror + bytes) \<times> 'e"

text \<open>A Go map is marshalled with its keys sorted.\<close>

definition rpc_request :: "string \<Rightarrow> json \<Rightarrow> json" where
  "rpc_request method params =
     JObj [(''id'', JNum ''1''), (''jsonrpc'', JStr ''2.0''), (''method'', JStr method), (''params'', params)]"

definition dec_rpc_error :: "json \<Rightarrow> gerror + int \<times> string" where
  "dec_rpc_error j = ebind (dec_object j) (\<lambda>fs. ebind (dec_field ''code'' dec_int fs) (\<lambda>c.
     ebind (dec_field ''message'' dec_string fs) (\<lambda>m. Inr (c, m))))"

definition dec_envelope :: "json \<Rightarrow> gerror + json option \<times> (int \<times> string) option" where
  "dec_envelope j = ebind (dec_object j) (\<lambda>fs.
     ebind (dec_ptr dec_rpc_error (json_field ''error'' fs)) (\<lambda>err. Inr (json_field ''result'' fs, err)))"

definition rpc_result :: "JsonText \<Rightarrow> bytes \<Rightarrow> gerror + json" where
  "rpc_result T raw = (case js_parse T raw of
     None \<Rightarrow> Inl (OtherErr ''rpcx: malformed response'')
   | Some j \<Rightarrow> (case dec_envelope j of
       Inl err \<Rightarrow> Inl (OtherErr ''rpcx: malformed response'')
     | Inr (result, Some (c, m)) \<Rightarrow> Inl (RpcError c m)
     | Inr (None, None) \<Rightarrow> Inl (OtherErr ''unexpected end of JSON input'')
     | Inr (Some r, None) \<Rightarrow> if r = JNull then Inl ErrNull else Inr r))"

definition Rpcx_Call ::
  "JsonText \<Rightarrow> 'e Caller \<Rightarrow> string \<Rightarrow> json \<Rightarrow> (json \<Rightarrow> gerror + 'a) \<Rightarrow> 'e \<Rightarrow> (gerror + 'a) \<times> 'e" where
  "Rpcx_Call T c method params dec e =
     (case c (js_print T (rpc_request method params)) e of
        (Inl err, e') \<Rightarrow> (Inl err, e')
      | (Inr raw, e') \<Rightarrow> (ebind (rpc_result T raw) dec, e'))"

end
