(* ===== verification/Rpcsource.thy ===== *)
theory Rpcsource
  imports Indexer Rpcx Gojson
begin

text \<open>
  The two nodes the indexer can follow: \<^verbatim>\<open>RPCSource\<close> of \<^verbatim>\<open>internal/indexer/indexer.go\<close> over Ethereum
  JSON-RPC, and \<^verbatim>\<open>Source\<close> of \<^verbatim>\<open>internal/solana/solana.go\<close>, which finds a block height among the
  slots that produced a block. Both make their calls through a caller on the world \<open>'e\<close>.

  The Solana source checks the height of the block it was given and so meets the indexer's contract
  \<open>numbered_source\<close> whatever the node answers. The Ethereum source passes on the number in the answer.
\<close>

section \<open>Ethereum\<close>

definition dec_src_error :: "json \<Rightarrow> gerror + string" where
  "dec_src_error j = ebind (dec_object j) (dec_field ''message'' dec_string)"

definition dec_src_envelope :: "json \<Rightarrow> gerror + json option \<times> string option" where
  "dec_src_envelope j = ebind (dec_object j) (\<lambda>fs.
     ebind (dec_ptr dec_src_error (json_field ''error'' fs)) (\<lambda>err. Inr (json_field ''result'' fs, err)))"

definition src_result :: "JsonText \<Rightarrow> bytes \<Rightarrow> gerror + json" where
  "src_result T raw = (case js_parse T raw of
     None \<Rightarrow> Inl (OtherErr ''json: syntax error'')
   | Some j \<Rightarrow> ebind (dec_src_envelope j) (\<lambda>(result, err). case err of
       Some m \<Rightarrow> Inl (OtherErr m)
     | None \<Rightarrow> (case result of
         None \<Rightarrow> Inl (OtherErr ''unexpected end of JSON input'')
       | Some r \<Rightarrow> if r = JNull then Inl ErrNotFound else Inr r)))"

definition RPCSource_call ::
  "JsonText \<Rightarrow> 'e Caller \<Rightarrow> string \<Rightarrow> json \<Rightarrow> (json \<Rightarrow> gerror + 'a) \<Rightarrow> ('e, 'a) call" where
  "RPCSource_call T c method params dec e =
     (case c (js_print T (rpc_request method params)) e of
        (Inl err, e') \<Rightarrow> (Inl err, e')
      | (Inr raw, e') \<Rightarrow> (ebind (src_result T raw) dec, e'))"

definition parseQty :: "string \<Rightarrow> gerror + u64" where
  "parseQty s = (if \<not> HasPrefix s ''0x'' then Inl (OtherErr ''indexer: quantity missing 0x prefix'')
     else ParseUint16 (drop 2 s))"

definition RPCSource_Head :: "JsonText \<Rightarrow> 'e Caller \<Rightarrow> ('e, u64) call" where
  "RPCSource_Head T c = rbind (RPCSource_call T c ''eth_blockNumber'' (JArr []) dec_string) (\<lambda>h. rlift (parseQty h))"

record RawBlock =
  rb_Number :: string
  rb_Hash :: string
  rb_ParentHash :: string
  rb_Timestamp :: string
  rb_Transactions :: "string list"

definition dec_raw_block :: "json \<Rightarrow> gerror + RawBlock" where
  "dec_raw_block j = ebind (dec_object j) (\<lambda>fs.
     ebind (dec_field ''Number'' dec_string fs) (\<lambda>n.
     ebind (dec_field ''Hash'' dec_string fs) (\<lambda>h.
     ebind (dec_field ''ParentHash'' dec_string fs) (\<lambda>p.
     ebind (dec_field ''Timestamp'' dec_string fs) (\<lambda>t.
     ebind (dec_field ''Transactions'' (dec_list dec_string) fs) (\<lambda>txs.
     Inr \<lparr>rb_Number = n, rb_Hash = h, rb_ParentHash = p, rb_Timestamp = t, rb_Transactions = txs\<rparr>))))))"

definition block_of_raw :: "RawBlock \<Rightarrow> gerror + Block" where
  "block_of_raw raw = ebind (parseQty (rb_Number raw)) (\<lambda>num. ebind (parseQty (rb_Timestamp raw)) (\<lambda>ts.
     Inr \<lparr>bl_Number = num, bl_Hash = rb_Hash raw, bl_ParentHash = rb_ParentHash raw, bl_Timestamp = ts,
          bl_TxCount = int (length (rb_Transactions raw))\<rparr>))"

definition RPCSource_Block :: "JsonText \<Rightarrow> 'e Caller \<Rightarrow> u64 \<Rightarrow> ('e, Block) call" where
  "RPCSource_Block T c n =
     rbind (RPCSource_call T c ''eth_getBlockByNumber'' (JArr [JStr (''0x'' @ FormatUint16 n), JBool False]) dec_raw_block)
       (\<lambda>raw. rlift (block_of_raw raw))"

definition RPCSource :: "JsonText \<Rightarrow> 'e Caller \<Rightarrow> 'e Source" where
  "RPCSource T c = \<lparr>src_Head = RPCSource_Head T c, src_Block = RPCSource_Block T c\<rparr>"

section \<open>Solana\<close>

definition DefaultLookback :: u64 where
  "DefaultLookback = 512"

definition confirmed :: json where
  "confirmed = JObj [(''commitment'', JStr ''confirmed'')]"

definition Solana_Head :: "JsonText \<Rightarrow> 'e Caller \<Rightarrow> ('e, u64) call" where
  "Solana_Head T c = Rpcx_Call T c ''getBlockHeight'' (JArr [confirmed]) dec_uint64"

record RawSolBlock =
  sb_Blockhash :: string
  sb_PreviousBlockhash :: string
  sb_BlockHeight :: "u64 option"
  sb_BlockTime :: "u64 option"
  sb_Signatures :: "string list"

definition dec_sol_block :: "json \<Rightarrow> gerror + RawSolBlock" where
  "dec_sol_block j = ebind (dec_object j) (\<lambda>fs.
     ebind (dec_field ''blockhash'' dec_string fs) (\<lambda>h.
     ebind (dec_field ''previousBlockhash'' dec_string fs) (\<lambda>p.
     ebind (dec_ptr dec_uint64 (json_field ''blockHeight'' fs)) (\<lambda>bh.
     ebind (dec_ptr dec_uint64 (json_field ''blockTime'' fs)) (\<lambda>bt.
     ebind (dec_field ''signatures'' (dec_list dec_string) fs) (\<lambda>sigs.
     Inr \<lparr>sb_Blockhash = h, sb_PreviousBlockhash = p, sb_BlockHeight = bh, sb_BlockTime = bt, sb_Signatures = sigs\<rparr>))))))"

definition sol_config :: json where
  "sol_config = JObj [(''commitment'', JStr ''confirmed''), (''encoding'', JStr ''json''),
     (''maxSupportedTransactionVersion'', JNum ''0''), (''rewards'', JBool False), (''transactionDetails'', JStr ''signatures'')]"

definition sol_from :: "u64 \<Rightarrow> u64 \<Rightarrow> u64" where
  "sol_from lookback slot = (let look = (if lookback = 0 then DefaultLookback else lookback)
     in if slot > look then slot - look else 0)"

definition sol_block :: "u64 \<Rightarrow> RawSolBlock \<Rightarrow> gerror + Block" where
  "sol_block height raw =
     (if sb_BlockHeight raw \<noteq> Some height then Inl ErrParentMismatch
      else Inr \<lparr>bl_Number = height, bl_Hash = sb_Blockhash raw, bl_ParentHash = sb_PreviousBlockhash raw,
                bl_Timestamp = (case sb_BlockTime raw of None \<Rightarrow> 0 | Some t \<Rightarrow> t),
                bl_TxCount = int (length (sb_Signatures raw))\<rparr>)"

definition Solana_Block :: "JsonText \<Rightarrow> 'e Caller \<Rightarrow> u64 \<Rightarrow> u64 \<Rightarrow> ('e, Block) call" where
  "Solana_Block T c lookback height =
     rbind (Solana_Head T c) (\<lambda>head.
       if height > head then rlift (Inl ErrNotFound)
       else rbind (Rpcx_Call T c ''getSlot'' (JArr [confirmed]) dec_uint64) (\<lambda>slot.
         rbind (Rpcx_Call T c ''getBlocks''
             (JArr [JNum (FormatUint10 (sol_from lookback slot)), JNum (FormatUint10 slot), confirmed]) (dec_list dec_uint64)) (\<lambda>slots.
           let back = head - height in
           if back \<ge> word_of_nat (length slots) then rlift (Inl (OtherErr ''solana: height outside the lookback window''))
           else rbind (Rpcx_Call T c ''getBlock''
               (JArr [JNum (FormatUint10 (slots ! unat (word_of_nat (length slots) - 1 - back))), sol_config]) dec_sol_block)
             (\<lambda>raw. rlift (sol_block height raw)))))"

definition Solana_Source :: "JsonText \<Rightarrow> 'e Caller \<Rightarrow> u64 \<Rightarrow> 'e Source" where
  "Solana_Source T c lookback = \<lparr>src_Head = Solana_Head T c, src_Block = Solana_Block T c lookback\<rparr>"

section \<open>The contract of the indexer\<close>

lemma sol_block_number: "sol_block h raw = Inr b \<Longrightarrow> bl_Number b = h"
  by (auto simp: sol_block_def split: if_splits)

interpretation solana: numbered_source "Solana_Source T c lookback" for T c lookback
proof
  fix n e b e'
  assume "src_Block (Solana_Source T c lookback) n e = (Inr b, e')"
  then show "bl_Number b = n"
    by (auto simp: Solana_Source_def Solana_Block_def early_return Let_def dest: sol_block_number [OF sym])
qed

text \<open>Quantities round trip.\<close>

lemma parseQty_Format [simp]: "parseQty (''0x'' @ FormatUint16 v) = Inr v"
  using HasPrefix_append [of "''0x''" "FormatUint16 v"] by (simp add: parseQty_def)

section \<open>Heights and slots\<close>

text \<open>A node that gives one answer to a request, and does not change.\<close>

definition answers :: "JsonText \<Rightarrow> 'e Caller \<Rightarrow> string \<Rightarrow> json \<Rightarrow> json \<Rightarrow> bool" where
  "answers T c m ps v \<longleftrightarrow> (\<forall>e. \<exists>raw. c (js_print T (rpc_request m ps)) e = (Inr raw, e) \<and> rpc_result T raw = Inr v)"

lemma answers_Call: "answers T c m ps v \<Longrightarrow> Rpcx_Call T c m ps dec e = (dec v, e)"
  unfolding answers_def Rpcx_Call_def by (metis (mono_tags, lifting) case_prod_conv ebind.simps(2) sum.case(2))

text \<open>
  A chain as a Solana node knows it: the blocks of the last heights, oldest first, each with the slot
  that produced it; \<open>head\<close> is the height of the newest one and \<open>tip\<close> the current slot.
\<close>

record SolEntry =
  se_slot :: u64
  se_hash :: string
  se_prev :: string
  se_time :: "u64 option"
  se_sigs :: "string list"

definition entry_json :: "u64 \<Rightarrow> SolEntry \<Rightarrow> json" where
  "entry_json height x = JObj ([(''blockhash'', JStr (se_hash x)), (''previousBlockhash'', JStr (se_prev x)),
     (''blockHeight'', JNum (FormatUint10 height)), (''signatures'', JArr (map JStr (se_sigs x)))] @
     (case se_time x of None \<Rightarrow> [] | Some t \<Rightarrow> [(''blockTime'', JNum (FormatUint10 t))]))"

definition entry_block :: "u64 \<Rightarrow> SolEntry \<Rightarrow> Block" where
  "entry_block height x = \<lparr>bl_Number = height, bl_Hash = se_hash x, bl_ParentHash = se_prev x,
     bl_Timestamp = (case se_time x of None \<Rightarrow> 0 | Some t \<Rightarrow> t), bl_TxCount = int (length (se_sigs x))\<rparr>"

text \<open>The \<open>i\<close>-th of \<open>k\<close> entries has height \<open>head - (k - 1 - i)\<close>.\<close>

definition serves_chain :: "JsonText \<Rightarrow> 'e Caller \<Rightarrow> u64 \<Rightarrow> u64 \<Rightarrow> u64 \<Rightarrow> SolEntry list \<Rightarrow> bool" where
  "serves_chain T c lookback head tip xs \<longleftrightarrow>
     answers T c ''getBlockHeight'' (JArr [confirmed]) (JNum (FormatUint10 head)) \<and>
     answers T c ''getSlot'' (JArr [confirmed]) (JNum (FormatUint10 tip)) \<and>
     answers T c ''getBlocks'' (JArr [JNum (FormatUint10 (sol_from lookback tip)), JNum (FormatUint10 tip), confirmed])
       (JArr (map (\<lambda>x. JNum (FormatUint10 (se_slot x))) xs)) \<and>
     (\<forall>i < length xs. answers T c ''getBlock'' (JArr [JNum (FormatUint10 (se_slot (xs ! i))), sol_config])
       (entry_json (head - word_of_nat (length xs - 1 - i)) (xs ! i)))"

lemma sol_field_names:
  "strings_ToLower ''blockhash'' = ''blockhash''" "strings_ToLower ''previousBlockhash'' = ''previousblockhash''"
  "strings_ToLower ''blockHeight'' = ''blockheight''" "strings_ToLower ''signatures'' = ''signatures''"
  "strings_ToLower ''blockTime'' = ''blocktime''"
  by code_simp+

lemma dec_entry: "ebind (dec_sol_block (entry_json n x)) (sol_block n) = Inr (entry_block n x)"
proof -
  have "emap dec_string (map JStr ss) = Inr ss" for ss by (induction ss) simp_all
  then show ?thesis
    by (cases "se_time x") (simp_all add: dec_sol_block_def entry_json_def entry_block_def sol_block_def dec_field_def json_field_def
        sol_field_names)
qed

lemma dec_slots: "dec_list dec_uint64 (JArr (map (\<lambda>x. JNum (FormatUint10 (se_slot x))) xs)) = Inr (map se_slot xs)"
  by (induction xs) simp_all

section \<open>Properties\<close>

text \<open>The three calls that locate a height among the slots.\<close>

lemma Solana_located:
  fixes bk :: u64
  assumes "serves_chain T c lookback head tip xs" and "bk = head - n"
  shows "Solana_Block T c lookback n e =
      (if n > head then rlift (Inl ErrNotFound)
       else if bk \<ge> word_of_nat (length xs) then rlift (Inl (OtherErr ''solana: height outside the lookback window''))
       else rbind (Rpcx_Call T c ''getBlock'' (JArr [JNum (FormatUint10 (map se_slot xs ! unat (word_of_nat (length xs) - 1 - bk))), sol_config])
             dec_sol_block) (\<lambda>raw. rlift (sol_block n raw))) e"
proof -
  have hd: "Rpcx_Call T c ''getBlockHeight'' (JArr [confirmed]) dec_uint64 e = (Inr head, e)"
    using assms(1) by (subst answers_Call [where v = "JNum (FormatUint10 head)"]) (simp_all add: serves_chain_def)
  have slot: "Rpcx_Call T c ''getSlot'' (JArr [confirmed]) dec_uint64 e = (Inr tip, e)"
    using assms(1) by (subst answers_Call [where v = "JNum (FormatUint10 tip)"]) (simp_all add: serves_chain_def)
  have slots: "Rpcx_Call T c ''getBlocks'' (JArr [JNum (FormatUint10 (sol_from lookback tip)), JNum (FormatUint10 tip), confirmed])
      (dec_list dec_uint64) e = (Inr (map se_slot xs), e)"
    using assms(1) dec_slots [of xs]
    by (subst answers_Call [where v = "JArr (map (\<lambda>x. JNum (FormatUint10 (se_slot x))) xs)"]) (simp_all add: serves_chain_def del: dec_list.simps)
  show ?thesis by (simp add: Solana_Block_def Solana_Head_def hd slot slots rbind_def Let_def assms(2))
qed

text \<open>Counting back from the last slot does not wrap.\<close>

lemma word_index_back:
  fixes bk :: u64
  assumes "n < 2 ^ 64" and "unat bk < n"
  shows "\<not> word_of_nat n \<le> bk" and "unat (word_of_nat n - 1 - bk) = n - 1 - unat bk"
proof -
  have len: "unat (word_of_nat n :: u64) = n" using assms(1) by (simp add: unat_of_nat)
  then show "\<not> word_of_nat n \<le> bk" using assms(2) by (simp add: word_le_nat_alt)
  have "unat (word_of_nat n - 1 :: u64) = n - 1" using len assms(2) by (subst unat_minus_one) auto
  moreover from this have "bk \<le> word_of_nat n - 1" using assms(2) by (simp add: word_le_nat_alt)
  ultimately show "unat (word_of_nat n - 1 - bk) = n - 1 - unat bk" by (simp add: unat_sub)
qed

text \<open>C38: the Solana source finds heights among slots. Against a node that serves a chain of any length, with
  any slots skipped, the block at a height is the block of the entry that many places before the
  newest one; a height above the head is not found, and a height whose slot is older than the listed
  ones is an error of its own, so the indexer does not take it for a reorganisation.\<close>

theorem Solana_finds_height:
  assumes "serves_chain T c lookback head tip xs" and "length xs < 2 ^ 64"
  shows "Solana_Block T c lookback n e =
    (if n > head then Inl ErrNotFound
     else if unat (head - n) < length xs then Inr (entry_block n (xs ! (length xs - 1 - unat (head - n))))
     else Inl (OtherErr ''solana: height outside the lookback window''), e)"
proof (cases "unat (head - n) < length xs")
  case True
  define i where "i = length xs - 1 - unat (head - n)"
  have i: "i < length xs" "length xs - 1 - i = unat (head - n)" using True by (auto simp: i_def)
  have "answers T c ''getBlock'' (JArr [JNum (FormatUint10 (se_slot (xs ! i))), sol_config])
      (entry_json (head - word_of_nat (length xs - 1 - i)) (xs ! i))"
    using assms(1) i(1) unfolding serves_chain_def by blast
  then have "answers T c ''getBlock'' (JArr [JNum (FormatUint10 (se_slot (xs ! i))), sol_config]) (entry_json n (xs ! i))"
    unfolding i(2) by simp
  from answers_Call [OF this, of dec_sol_block e] show ?thesis
    using True i(1) word_index_back [OF assms(2) True] dec_entry [of n "xs ! i"]
    unfolding Solana_located [OF assms(1) refl] i_def by (auto simp: rbind_def rlift_def ebind_eq_Inr)
next
  case False
  then have "word_of_nat (length xs) \<le> head - n" using assms(2) by (simp add: word_le_nat_alt unat_of_nat)
  with False show ?thesis unfolding Solana_located [OF assms(1) refl] by (simp add: rlift_def)
qed

definition demo_entry :: SolEntry where
  "demo_entry = \<lparr>se_slot = 9, se_hash = ''H5'', se_prev = ''H4'', se_time = None, se_sigs = [''a'', ''b'']\<rparr>"

text \<open>A node that answers by the method it is asked for.\<close>

definition demo_answer :: "string \<Rightarrow> json" where
  "demo_answer m = (if m = ''getBlockHeight'' then JNum ''5'' else if m = ''getSlot'' then JNum ''9''
     else if m = ''getBlocks'' then JArr [JNum ''9''] else entry_json 5 demo_entry)"

definition demo_caller :: "unit Caller" where
  "demo_caller body e = (case js_parse go_text body of
     Some (JObj [a, b, (k, JStr m), ps]) \<Rightarrow> (Inr (js_print go_text (JObj [(''result'', demo_answer m)])), e)
   | _ \<Rightarrow> (Inl ErrNoUpstream, e))"

lemma demo_answers:
  assumes "utf8_valid m" and "valid_json (max_depth - 1) ps"
  shows "answers go_text demo_caller m ps (demo_answer m)"
proof -
  have "FormatUint10 5 = ''5''" "number_valid ''5''" "number_valid ''9''" by code_simp+
  then have v: "valid_json (max_depth - 1) (demo_answer m)" "demo_answer m \<noteq> JNull"
    by (auto simp: demo_answer_def entry_json_def demo_entry_def max_depth_def)
  have "js_parse go_text (js_print go_text (rpc_request m ps)) = Some (rpc_request m ps)"
    by (rule go_json.parse_print) (use assms in \<open>simp add: rpc_request_def max_depth_def number_valid_def parse_num_def num_int_def
        num_frac_def num_exp_def is_digit_def\<close>)
  moreover have "js_parse go_text (js_print go_text (JObj [(''result'', demo_answer m)])) = Some (JObj [(''result'', demo_answer m)])"
    by (rule go_json.parse_print) (use v in \<open>simp add: max_depth_def\<close>)
  ultimately show ?thesis
    using v(2) by (simp add: answers_def demo_caller_def rpc_request_def rpc_result_def dec_envelope_def json_field_def
        strings_ToLower_def lower_char_def)
qed

theorem Solana_finds_height_witness:
  "Solana_Block go_text demo_caller 0 5 () = (Inr (entry_block 5 demo_entry), ())"
proof -
  have f: "FormatUint10 5 = ''5''" "FormatUint10 9 = ''9''" "FormatUint10 0 = ''0''" by code_simp+
  have n: "number_valid ''0''" "number_valid ''9''" by code_simp+
  have "serves_chain go_text demo_caller 0 5 9 [demo_entry]"
    unfolding serves_chain_def
  proof (intro conjI allI impI)
    show "answers go_text demo_caller ''getBlockHeight'' (JArr [confirmed]) (JNum (FormatUint10 5))"
      using demo_answers [of "''getBlockHeight''" "JArr [confirmed]"] by (simp add: demo_answer_def f confirmed_def max_depth_def)
    show "answers go_text demo_caller ''getSlot'' (JArr [confirmed]) (JNum (FormatUint10 9))"
      using demo_answers [of "''getSlot''" "JArr [confirmed]"] by (simp add: demo_answer_def f confirmed_def max_depth_def)
    show "answers go_text demo_caller ''getBlocks'' (JArr [JNum (FormatUint10 (sol_from 0 9)), JNum (FormatUint10 9), confirmed])
       (JArr (map (\<lambda>x. JNum (FormatUint10 (se_slot x))) [demo_entry]))"
      using demo_answers [of "''getBlocks''" "JArr [JNum ''0'', JNum ''9'', confirmed]"] n
      by (simp add: demo_answer_def demo_entry_def f sol_from_def DefaultLookback_def confirmed_def max_depth_def)
    show "answers go_text demo_caller ''getBlock'' (JArr [JNum (FormatUint10 (se_slot ([demo_entry] ! i))), sol_config])
       (entry_json (5 - word_of_nat (length [demo_entry] - 1 - i)) ([demo_entry] ! i))" if "i < length [demo_entry]" for i
      using that demo_answers [of "''getBlock''" "JArr [JNum ''9'', sol_config]"] n
      by (simp add: demo_answer_def demo_entry_def f sol_config_def max_depth_def)
  qed
  from Solana_finds_height [OF this] show ?thesis by simp
qed

end
