(* ===== verification/Chainsim.thy ===== *)
theory Chainsim
  imports Keccak Jsonrpc Gojson Rpcsource
begin

text \<open>
  The simulated node of \<^verbatim>\<open>internal/chainsim/chainsim.go\<close>: a chain of blocks whose hashes are Keccak
  digests, mining, forced reorganisations and the JSON-RPC methods the gateway calls.

  The lemmas show that a node that was made and changed only by its operations holds one linked chain,
  numbered from zero, and that the indexer's JSON-RPC source, talking to the node through its text
  protocol, sees exactly that chain.
\<close>

section \<open>State\<close>

record blk =
  bk_num :: u64
  bk_hash :: bytes
  bk_parent :: bytes
  bk_ts :: u64
  bk_txs :: nat

record Node =
  nd_chainID :: u64
  nd_salt :: u64
  nd_blocks :: "blk list"

definition blockTime :: u64 where "blockTime = 12"
definition genesisTime :: u64 where "genesisTime = 1700000000"

definition node_mine :: "Node \<Rightarrow> Node" where
  "node_mine n =
     (let num = word_of_nat (length (nd_blocks n)) :: u64;
          parent = (if num > 0 then bk_hash (nd_blocks n ! unat (num - 1)) else replicate 32 0);
          h = Sum256 (parent @ be_PutUint64 num @ be_PutUint64 (nd_salt n))
      in n\<lparr>nd_blocks := nd_blocks n @ [\<lparr>bk_num = num, bk_hash = h, bk_parent = parent,
            bk_ts = genesisTime + num * blockTime, bk_txs = unat (h ! 0) mod 8\<rparr>]\<rparr>)"

definition Node_New :: "u64 \<Rightarrow> Node" where
  "Node_New chainID = node_mine \<lparr>nd_chainID = chainID, nd_salt = 0, nd_blocks = []\<rparr>"

definition Node_Mine :: "Node \<Rightarrow> Node" where
  "Node_Mine n = node_mine n"

text \<open>A negative depth slices past the end of the list, which panics unless the backing array has room for
  more: then the slice shows what it holds. So that case is left out: \<open>None\<close>.\<close>

definition Node_Reorg :: "int \<Rightarrow> Node \<Rightarrow> Node option" where
  "Node_Reorg depth n =
     (let d = (if depth \<ge> int (length (nd_blocks n)) then int (length (nd_blocks n)) - 1 else depth) in
      if d < 0 then None
      else let n1 = n\<lparr>nd_blocks := take (length (nd_blocks n) - nat d) (nd_blocks n), nd_salt := nd_salt n + 1\<rparr>
           in Some ((node_mine ^^ nat (d + 1)) n1))"

section \<open>Answers\<close>

definition node_hx :: "bytes \<Rightarrow> string" where
  "node_hx b = ''0x'' @ hex_EncodeToString b"

definition node_qty :: "u64 \<Rightarrow> string" where
  "node_qty v = ''0x'' @ FormatUint16 v"

definition blk_tx :: "blk \<Rightarrow> nat \<Rightarrow> string" where
  "blk_tx b i = node_hx (Sum256 (bk_hash b @ be_PutUint64 (word_of_nat i)))"

text \<open>A Go map is marshalled with its keys sorted.\<close>

definition blk_json :: "blk \<Rightarrow> json" where
  "blk_json b = JObj [(''hash'', JStr (node_hx (bk_hash b))), (''number'', JStr (node_qty (bk_num b))),
     (''parentHash'', JStr (node_hx (bk_parent b))), (''timestamp'', JStr (node_qty (bk_ts b))),
     (''transactions'', JArr (map (\<lambda>i. JStr (blk_tx b i)) [0..<bk_txs b]))]"

definition node_resolve :: "string \<Rightarrow> Node \<Rightarrow> blk option" where
  "node_resolve tag n =
     (let head = word_of_nat (length (nd_blocks n) - 1) :: u64 in
      if tag \<in> set [''latest'', ''finalized'', ''safe'', ''pending''] then Some (nd_blocks n ! unat head)
      else if tag = ''earliest'' then Some (nd_blocks n ! 0)
      else case ParseUint16 (TrimPrefix tag ''0x'') of
        Inl err \<Rightarrow> None
      | Inr v \<Rightarrow> if \<not> HasPrefix tag ''0x'' \<or> v > head then None else Some (nd_blocks n ! unat v))"

text \<open>A parameter that is not a string keeps its text: here the text that \<^verbatim>\<open>json.Marshal\<close> gives its value, so without the
  white space of the original.\<close>

definition param_string :: "JsonText \<Rightarrow> json \<Rightarrow> string" where
  "param_string T j = (case dec_string j of Inr s \<Rightarrow> s | Inl err \<Rightarrow> string_of (js_print T j))"

definition node_params :: "JsonText \<Rightarrow> json option \<Rightarrow> nat \<Rightarrow> string list option" where
  "node_params T raw want = (case raw of
     None \<Rightarrow> None
   | Some j \<Rightarrow> (case dec_list Inr j of
       Inl err \<Rightarrow> None
     | Inr mixed \<Rightarrow> if length mixed < want then None else Some (map (param_string T) mixed)))"

text \<open>\<^verbatim>\<open>ps[:min(1, len(ps))]\<close> joined.\<close>

definition first_param :: "string list option \<Rightarrow> string" where
  "first_param ps = (case ps of Some (s # ss) \<Rightarrow> s | _ \<Rightarrow> [])"

definition node_balance :: "bytes \<Rightarrow> u64" where
  "node_balance a = be_Uint64 (take 8 (Sum256 a)) mod 1000000 * 1000000000000"

definition node_raw_tx :: "string \<Rightarrow> bytes option" where
  "node_raw_tx s = (case hex_DecodeString (TrimPrefix s ''0x'') of
     Inl err \<Rightarrow> None
   | Inr raw \<Rightarrow> if \<not> HasPrefix s ''0x'' \<or> length raw = 0 then None else Some raw)"

definition Node_Handle :: "JsonText \<Rightarrow> Request \<Rightarrow> Node \<Rightarrow> Response" where
  "Node_Handle T q n =
     (let head = word_of_nat (length (nd_blocks n) - 1) :: u64; m = rq_Method q; i = rq_ID q;
          ps = node_params T (rq_Params q) 1;
          bad = (\<lambda>msg. Fail i CodeInvalidParams msg)
      in
      if m = ''eth_chainId'' then OK i (JStr (node_qty (nd_chainID n)))
      else if m = ''eth_blockNumber'' then OK i (JStr (node_qty head))
      else if m = ''eth_gasPrice'' then OK i (JStr (node_qty (20000000000 + (head mod 10) * 1000000000)))
      else if m = ''eth_getBalance'' then
        (case ps of
           None \<Rightarrow> bad ''expected [address, tag]''
         | Some ss \<Rightarrow> (case ParseAddress (ss ! 0) of
             Inl err \<Rightarrow> bad ''keccak: invalid address''
           | Inr a \<Rightarrow> OK i (JStr (node_qty (node_balance a)))))
      else if m = ''eth_getTransactionCount'' then
        (if ps = None \<or> isl (ParseAddress (first_param ps)) then bad ''expected [address, tag]''
         else OK i (JStr (node_qty 0)))
      else if m = ''eth_getCode'' then
        (if ps = None \<or> isl (ParseAddress (first_param ps)) then bad ''expected [address, tag]''
         else OK i (JStr ''0x''))
      else if m = ''eth_sendRawTransaction'' then
        (case ps of
           None \<Rightarrow> bad ''expected [rawTx]''
         | Some ss \<Rightarrow> (case node_raw_tx (ss ! 0) of
             None \<Rightarrow> bad ''rawTx must be non-empty 0x hex''
           | Some raw \<Rightarrow> OK i (JStr (node_hx (Sum256 raw)))))
      else if m = ''eth_getBlockByNumber'' then
        (case ps of
           None \<Rightarrow> bad ''expected [tag, fullTx]''
         | Some ss \<Rightarrow> (case node_resolve (ss ! 0) n of Some b \<Rightarrow> OK i (blk_json b) | None \<Rightarrow> OK i JNull))
      else if m = ''eth_getBlockByHash'' then
        (case ps of
           None \<Rightarrow> bad ''expected [hash, fullTx]''
         | Some ss \<Rightarrow> (case find (\<lambda>b. node_hx (bk_hash b) = ss ! 0) (nd_blocks n) of
             Some b \<Rightarrow> OK i (blk_json b) | None \<Rightarrow> OK i JNull))
      else Fail i CodeMethodNotFound (''method '' @ m @ '' not found''))"

text \<open>\<^verbatim>\<open>ServeHTTP\<close>: the node behind a request body. Handling a request does not change the node.\<close>

definition Node_ServeHTTP :: "JsonText \<Rightarrow> bytes \<times> gerror option \<Rightarrow> Node \<Rightarrow> bytes" where
  "Node_ServeHTTP T body n = fst (Serve T body (\<lambda>q s. (Node_Handle T q s, s)) n)"

section \<open>The chain of a node\<close>

inductive node_reach :: "Node \<Rightarrow> bool" where
  node_new: "node_reach (Node_New c)"
| node_mined: "node_reach n \<Longrightarrow> node_reach (Node_Mine n)"
| node_reorg: "node_reach n \<Longrightarrow> Node_Reorg d n = Some n' \<Longrightarrow> node_reach n'"

text \<open>Every block is numbered by its position, has a 32-byte hash and names the hash of the block before it.\<close>

definition parent_at :: "blk list \<Rightarrow> nat \<Rightarrow> bytes" where
  "parent_at bs i = (if i = 0 then replicate 32 0 else bk_hash (bs ! (i - 1)))"

definition blocks_inv :: "blk list \<Rightarrow> bool" where
  "blocks_inv bs \<longleftrightarrow> (\<forall>i < length bs. bk_num (bs ! i) = word_of_nat i \<and> length (bk_hash (bs ! i)) = 32 \<and>
     bk_parent (bs ! i) = parent_at bs i \<and> bk_ts (bs ! i) = genesisTime + word_of_nat i * blockTime \<and> bk_txs (bs ! i) < 8)"

definition node_inv :: "Node \<Rightarrow> bool" where
  "node_inv n \<longleftrightarrow> nd_blocks n \<noteq> [] \<and> blocks_inv (nd_blocks n)"

lemma length_Sum256 [simp]: "length (Sum256 b) = 32"
  by (simp add: Sum256_def Let_def le_PutUint64_def upt_conv_Cons)

lemma blocks_inv_take: "blocks_inv bs \<Longrightarrow> blocks_inv (take k bs)"
  by (auto simp: blocks_inv_def parent_at_def)

lemma blocks_inv_snoc:
  assumes "blocks_inv bs" and "bk_num b = word_of_nat (length bs)" and "length (bk_hash b) = 32"
    and "bk_parent b = parent_at bs (length bs)" and "bk_ts b = genesisTime + word_of_nat (length bs) * blockTime" and "bk_txs b < 8"
  shows "blocks_inv (bs @ [b])"
  using assms by (auto simp: blocks_inv_def parent_at_def nth_append less_Suc_eq)

lemma mine_blocks:
  assumes "length (nd_blocks n) < 2 ^ 64"
  shows "\<exists>b. nd_blocks (node_mine n) = nd_blocks n @ [b] \<and> bk_num b = word_of_nat (length (nd_blocks n)) \<and>
    length (bk_hash b) = 32 \<and> bk_parent b = parent_at (nd_blocks n) (length (nd_blocks n)) \<and>
    bk_ts b = genesisTime + word_of_nat (length (nd_blocks n)) * blockTime \<and> bk_txs b < 8"
proof -
  let ?k = "length (nd_blocks n)" and ?num = "word_of_nat (length (nd_blocks n)) :: u64"
  have k: "unat ?num = ?k" using assms by (simp add: unat_of_nat)
  then have "0 < ?num \<longleftrightarrow> 0 < ?k" by (simp add: word_less_nat_alt)
  moreover have "0 < ?k \<Longrightarrow> unat (?num - 1) = ?k - 1" using k calculation by (simp add: unat_minus_one)
  ultimately have "(if ?num > 0 then bk_hash (nd_blocks n ! unat (?num - 1)) else replicate 32 0) = parent_at (nd_blocks n) ?k"
    by (simp add: parent_at_def)
  then show ?thesis by (simp add: node_mine_def Let_def)
qed

lemma node_inv_mine [gw_inv]:
  "length (nd_blocks n) < 2 ^ 64 \<Longrightarrow> blocks_inv (nd_blocks n) \<Longrightarrow> node_inv (node_mine n)"
  using mine_blocks [of n] blocks_inv_snoc by (auto simp: node_inv_def)

lemma length_mine [simp]: "length (nd_blocks (node_mine n)) = Suc (length (nd_blocks n))"
  by (simp add: node_mine_def Let_def)

lemma mine_many:
  "length (nd_blocks ((node_mine ^^ k) n)) = length (nd_blocks n) + k \<and>
   (length (nd_blocks n) + k \<le> 2 ^ 64 \<longrightarrow> blocks_inv (nd_blocks n) \<longrightarrow> blocks_inv (nd_blocks ((node_mine ^^ k) n)))"
proof (induction k)
  case (Suc k)
  then show ?case using node_inv_mine [of "(node_mine ^^ k) n"] by (auto simp: node_inv_def)
qed simp

lemma Reorg_length:
  assumes "Node_Reorg d n = Some n'" and "nd_blocks n \<noteq> []"
  shows "length (nd_blocks n') = Suc (length (nd_blocks n))"
  using assms mine_many by (auto simp: Node_Reorg_def Let_def neq_Nil_conv split: if_splits)

lemma Reorg_inv:
  assumes "Node_Reorg d n = Some n'" and "node_inv n" and "length (nd_blocks n') \<le> 2 ^ 64"
  shows "node_inv n'"
proof -
  have len: "length (nd_blocks n') = Suc (length (nd_blocks n))" using Reorg_length assms by (auto simp: node_inv_def)
  let ?d = "if d \<ge> int (length (nd_blocks n)) then int (length (nd_blocks n)) - 1 else d"
  let ?n1 = "n\<lparr>nd_blocks := take (length (nd_blocks n) - nat ?d) (nd_blocks n), nd_salt := nd_salt n + 1\<rparr>"
  have n': "n' = (node_mine ^^ nat (?d + 1)) ?n1"
    using assms(1) by (auto simp: Node_Reorg_def Let_def split: if_splits)
  have "blocks_inv (nd_blocks ?n1)" using assms(2) by (simp add: node_inv_def blocks_inv_take)
  with mine_many [of "nat (?d + 1)" ?n1] n' assms(3) have "blocks_inv (nd_blocks n')" by presburger
  with len show ?thesis by (auto simp: node_inv_def)
qed

lemma reach_nonempty: "node_reach n \<Longrightarrow> nd_blocks n \<noteq> []"
proof (induction rule: node_reach.induct)
  case (node_reorg n d n')
  then show ?case using Reorg_length by fastforce
qed (simp_all add: Node_New_def Node_Mine_def node_mine_def Let_def)

lemma reach_inv: "node_reach n \<Longrightarrow> length (nd_blocks n) \<le> 2 ^ 64 \<Longrightarrow> node_inv n"
proof (induction rule: node_reach.induct)
  case (node_new c)
  show ?case unfolding Node_New_def by (rule node_inv_mine) (simp_all add: blocks_inv_def)
next
  case (node_mined n)
  then show ?case unfolding Node_Mine_def by (intro node_inv_mine) (simp_all add: node_inv_def)
next
  case (node_reorg n d n')
  then show ?case using Reorg_length [OF node_reorg.hyps(2) reach_nonempty [OF node_reorg.hyps(1)]] Reorg_inv by simp
qed

section \<open>The node as the indexer sees it\<close>

definition block_of_blk :: "blk \<Rightarrow> Block" where
  "block_of_blk b = \<lparr>bl_Number = bk_num b, bl_Hash = node_hx (bk_hash b), bl_ParentHash = node_hx (bk_parent b),
     bl_Timestamp = bk_ts b, bl_TxCount = int (bk_txs b)\<rparr>"

definition node_head :: "Node \<Rightarrow> u64" where
  "node_head n = word_of_nat (length (nd_blocks n) - 1)"

definition node_block :: "Node \<Rightarrow> u64 \<Rightarrow> Block" where
  "node_block n k = block_of_blk (nd_blocks n ! unat k)"

lemma unat_head: "length (nd_blocks n) \<le> 2 ^ 64 \<Longrightarrow> unat (node_head n) = length (nd_blocks n) - 1"
  by (simp add: node_head_def unat_of_nat)

lemma node_canonical:
  assumes "node_inv n" and "length (nd_blocks n) \<le> 2 ^ 64"
  shows "canonical (node_head n) (node_block n)"
proof -
  have b: "blocks_inv (nd_blocks n)" "0 < length (nd_blocks n)" using assms(1) by (auto simp: node_inv_def)
  have in_range: "unat k < length (nd_blocks n)" if "k \<le> node_head n" for k
    using that unat_head [OF assms(2)] b(2) unfolding word_le_nat_alt by linarith
  have "bl_ParentHash (node_block n (k + 1)) = bl_Hash (node_block n k)" if "k < node_head n" for k
  proof -
    have "k \<noteq> -1" using that by (metis word_order.extremum_strict)
    then have "unat (k + 1) = unat k + 1" by (rule unat_inc)
    moreover have "unat k + 1 < length (nd_blocks n)"
      using that unat_head [OF assms(2)] b(2) by (simp add: word_less_nat_alt)
    ultimately show ?thesis using b(1) by (simp add: blocks_inv_def node_block_def block_of_blk_def parent_at_def)
  qed
  moreover have "bl_Number (node_block n k) = k" if "k \<le> node_head n" for k
    using b(1) in_range [OF that] by (simp add: blocks_inv_def node_block_def block_of_blk_def)
  ultimately show ?thesis by (simp add: canonical_def)
qed

text \<open>A caller connected to the node.\<close>

definition node_caller :: "Node \<Rightarrow> 'e Caller" where
  "node_caller n body e = (Inr (Node_ServeHTTP go_text (body, None) n), e)"

section \<open>Through the text protocol\<close>

lemma utf8_ascii: "\<forall>c \<in> set s. (of_char c :: nat) < 128 \<Longrightarrow> utf8_valid s"
  by (induction s) simp_all

lemma hex_digit_ascii: "n < 16 \<Longrightarrow> (of_char (hex_digit n) :: nat) < 128"
  by (simp add: of_char_hex_digit)

lemma hex_Encode_ascii: "\<forall>c \<in> set (hex_EncodeToString b). (of_char c :: nat) < 128"
proof (induction b)
  case (Cons w b)
  have "unat w div 16 < 16" "unat w mod 16 < 16" using unat_byte_less [of w] by simp_all
  with Cons show ?case by (simp add: hex_digit_ascii)
qed simp

lemma hex_digits_ascii: "\<forall>c \<in> set (hex_digits n). (of_char c :: nat) < 128"
proof (induction n rule: hex_digits.induct)
  case (1 n)
  then show ?case by (cases "n < 16") (auto simp: hex_digits.simps [of n] hex_digit_ascii)
qed

lemma utf8_hx [simp]: "utf8_valid (node_hx b)" and utf8_qty [simp]: "utf8_valid (node_qty v)"
  unfolding node_hx_def node_qty_def FormatUint16_def
  by (rule utf8_ascii, use hex_Encode_ascii hex_digits_ascii in auto)+

lemma hex_digits_length: "n < 16 ^ k \<Longrightarrow> 0 < k \<Longrightarrow> length (hex_digits n) \<le> k"
proof (induction k arbitrary: n)
  case (Suc k)
  show ?case
  proof (cases "n < 16")
    case False
    then have "0 < k" using Suc.prems by (cases k) auto
    moreover have "n div 16 < 16 ^ k" using Suc.prems by (simp add: less_mult_imp_div_less)
    ultimately show ?thesis using Suc.IH [of "n div 16"] False by (simp add: hex_digits.simps [of n])
  qed (simp add: hex_digits.simps [of n])
qed simp

lemma length_qty: "length (node_qty v) \<le> 18"
  using hex_digits_length [of "unat v" 16] unsigned_less [of v, where 'a = nat] by (simp add: node_qty_def FormatUint16_def)

lemma escape_length: "length (escape_str s) \<le> 6 * length s"
proof (induction s rule: escape_str.induct)
  case (2 c s)
  let ?n = "rune_len (c # s)"
  have "length (escape_char c) \<le> 6" by (simp add: escape_char_def Let_def)
  moreover have n: "?n \<le> Suc (length s)" using rune_len_bound [of "c # s"] by simp
  moreover have "length (escape_rune (c # take (?n - 1) s)) \<le> 6 * ?n" if "?n \<noteq> 0"
    using that n by (cases ?n) (auto simp: escape_rune_def)
  ultimately show ?case using 2 by (cases ?n) (auto simp: algebra_simps)
qed simp

text \<open>Texts that start and end with a brace have no white space to trim.\<close>

lemma trim_prefixes_none:
  assumes "\<forall>p \<in> set ps. p \<noteq> [] \<longrightarrow> hd p \<noteq> hd b" and "b \<noteq> []"
  shows "trim_prefixes ps b = b"
proof -
  have "\<not> starts_with b p" if "p \<in> set ps" "p \<noteq> []" for p
    using assms that by (cases p; cases b) (auto simp: starts_with_def)
  then have "find (starts_with b) (filter (\<lambda>p. 0 < length p) ps) = None" by (auto simp: find_None_iff)
  then show ?thesis by (simp add: trim_prefixes.simps [of ps b])
qed

lemma TrimSpace_braces: "bytes_TrimSpace (0x7B # b @ [0x7D]) = 0x7B # b @ [0x7D]"
proof -
  have l: "trim_prefixes space_encodings (0x7B # b @ [0x7D]) = 0x7B # b @ [0x7D]"
    by (rule trim_prefixes_none) (auto simp: space_encodings_def)
  have r: "trim_prefixes (map rev space_encodings) (rev (0x7B # b @ [0x7D])) = rev (0x7B # b @ [0x7D])"
    by (rule trim_prefixes_none) (auto simp: space_encodings_def)
  show ?thesis unfolding bytes_TrimSpace_def l r by simp
qed

text \<open>A JSON-RPC request of the gateway, as the node decodes it from the gateway's text.\<close>

lemma utf8_lits [simp]: "utf8_valid ''id''" "utf8_valid ''jsonrpc''" "utf8_valid ''method''" "utf8_valid ''params''"
  "utf8_valid ''2.0''" "utf8_valid ''result''"
  by (rule utf8_ascii, simp)+

lemma number_one [simp]: "number_valid ''1''"
  by (simp add: number_valid_def parse_num_def num_int_def num_frac_def num_exp_def is_digit_def)

lemma valid_request: "utf8_valid m \<Longrightarrow> valid_json (max_depth - 1) ps \<Longrightarrow> valid_json max_depth (rpc_request m ps)"
  by (simp add: rpc_request_def max_depth_def)

lemma decode_request:
  "dec_request t (rpc_request m ps) =
     Inr \<lparr>rq_JSONRPC = ''2.0'', rq_Method = m, rq_Params = Some ps, rq_ParamsText = t, rq_ID = Some (JNum ''1'')\<rparr>"
  by (simp add: rpc_request_def dec_request_def dec_field_def json_field_def strings_ToLower_def lower_char_def)

lemma Decode_request:
  assumes "utf8_valid m" and "valid_json (max_depth - 1) ps"
  shows "\<exists>t. Jsonrpc.Decode go_text (js_print go_text (rpc_request m ps)) =
    Inr ([\<lparr>rq_JSONRPC = ''2.0'', rq_Method = m, rq_Params = Some ps, rq_ParamsText = t, rq_ID = Some (JNum ''1'')\<rparr>], False)"
proof -
  let ?b = "js_print go_text (rpc_request m ps)"
  have "\<exists>u. ?b = 0x7B # u @ [0x7D]" by (simp add: go_text_def rpc_request_def bytes_of_def)
  then obtain u where u: "?b = 0x7B # u @ [0x7D]" ..
  have parse: "js_parse go_text ?b = Some (rpc_request m ps)" by (rule go_json.parse_print [OF valid_request [OF assms]])
  show ?thesis
    using parse unfolding Jsonrpc.Decode_def u TrimSpace_braces by (simp add: Let_def decode_request)
qed

text \<open>... and the node's answer, as the indexer's source takes it apart.\<close>

lemma source_result:
  assumes "valid_json (max_depth - 1) v"
  shows "src_result go_text (js_print go_text (json_response (OK (Some (JNum ''1'')) v)) @ [10]) =
    (if v = JNull then Inl ErrNotFound else Inr v)"
proof -
  let ?j = "json_response (OK (Some (JNum ''1'')) v)"
  have "valid_json max_depth ?j" using assms by (simp add: json_response_def OK_def normID_def max_depth_def)
  moreover have nl: "string_of [10] = [CHR 0x0A]" by (simp add: string_of_def char_of_controls)
  ultimately have "js_parse go_text (js_print go_text ?j @ [10]) = Some ?j"
    using parse_print_text [of ?j "[CHR 0x0A]"] by (simp add: go_text_def skip_space_def is_space_def string_of_append)
  then show ?thesis
    by (simp add: src_result_def dec_src_envelope_def json_response_def OK_def normID_def json_field_def strings_ToLower_def lower_char_def)
qed

lemma node_call:
  assumes "utf8_valid m" and "m \<noteq> []" and "valid_json (max_depth - 1) ps"
    and "length (js_print go_text (rpc_request m ps)) \<le> 2 ^ 20"
    and "\<And>t. Node_Handle go_text \<lparr>rq_JSONRPC = ''2.0'', rq_Method = m, rq_Params = Some ps, rq_ParamsText = t,
           rq_ID = Some (JNum ''1'')\<rparr> n = OK (Some (JNum ''1'')) v"
    and "valid_json (max_depth - 1) v"
  shows "RPCSource_call go_text (node_caller n) m ps dec e = (if v = JNull then Inl ErrNotFound else dec v, e)"
proof -
  obtain t where t: "Jsonrpc.Decode go_text (js_print go_text (rpc_request m ps)) =
    Inr ([\<lparr>rq_JSONRPC = ''2.0'', rq_Method = m, rq_Params = Some ps, rq_ParamsText = t, rq_ID = Some (JNum ''1'')\<rparr>], False)"
    using Decode_request [OF assms(1,3)] by blast
  have "Node_ServeHTTP go_text (js_print go_text (rpc_request m ps), None) n =
      js_print go_text (json_response (OK (Some (JNum ''1'')) v)) @ [10]"
    using assms(2,4,5) t by (simp add: Node_ServeHTTP_def Serve_def Serve_reply_def read_body_def)
  then show ?thesis
    using source_result [OF assms(6)] by (simp add: RPCSource_call_def node_caller_def)
qed

lemma small_body:
  assumes "length m \<le> 100" and "length (print_text ps) \<le> 1000"
  shows "length (js_print go_text (rpc_request m ps)) \<le> 2 ^ 20"
proof -
  have "escape_str ''2.0'' = ''2.0''" "escape_str ''id'' = ''id''" "escape_str ''jsonrpc'' = ''jsonrpc''"
    "escape_str ''method'' = ''method''" "escape_str ''params'' = ''params''"
    by (simp_all add: escape_char_def)
  then show ?thesis using escape_length [of m] assms by (simp add: go_text_def rpc_request_def quote_str_def)
qed

lemma parseQty_qty [simp]: "parseQty (node_qty v) = Inr v"
  unfolding node_qty_def by (rule parseQty_Format)

lemma node_Head: "RPCSource_Head go_text (node_caller n) e = (Inr (node_head n), e)"
proof -
  have "RPCSource_call go_text (node_caller n) ''eth_blockNumber'' (JArr []) dec_string e =
      (if JStr (node_qty (node_head n)) = JNull then Inl ErrNotFound else dec_string (JStr (node_qty (node_head n))), e)"
  proof (rule node_call)
    show "length (js_print go_text (rpc_request ''eth_blockNumber'' (JArr []))) \<le> 2 ^ 20" by (rule small_body) simp_all
  qed (auto intro: utf8_ascii simp: max_depth_def Node_Handle_def node_head_def Let_def)
  then show ?thesis
    unfolding RPCSource_Head_def rbind_def by (simp add: rlift_def)
qed

lemma block_field_names:
  "strings_ToLower ''Number'' = ''number''" "strings_ToLower ''Hash'' = ''hash''" "strings_ToLower ''ParentHash'' = ''parenthash''"
  "strings_ToLower ''Timestamp'' = ''timestamp''" "strings_ToLower ''Transactions'' = ''transactions''"
  "strings_ToLower ''number'' = ''number''" "strings_ToLower ''hash'' = ''hash''" "strings_ToLower ''parentHash'' = ''parenthash''"
  "strings_ToLower ''timestamp'' = ''timestamp''" "strings_ToLower ''transactions'' = ''transactions''"
  by code_simp+

lemma raw_block:
  "ebind (dec_raw_block (blk_json b)) block_of_raw = Inr (block_of_blk b)"
proof -
  have "emap dec_string (map (\<lambda>i. JStr (blk_tx b i)) is) = Inr (map (blk_tx b) is)" for "is"
    by (induction "is") simp_all
  then show ?thesis
    by (simp add: dec_raw_block_def blk_json_def dec_field_def json_field_def block_field_names block_of_raw_def block_of_blk_def)
qed

lemma valid_blk_json: "valid_json (max_depth - 1) (blk_json b)"
  by (auto simp: blk_json_def max_depth_def blk_tx_def intro: utf8_ascii)

lemma resolve_number:
  "node_resolve (node_qty k) n = (if k > node_head n then None else Some (nd_blocks n ! unat k))"
  using TrimPrefix_append [of "''0x''" "FormatUint16 k"] HasPrefix_append [of "''0x''" "FormatUint16 k"]
  by (simp add: node_resolve_def node_qty_def node_head_def Let_def)

lemma node_Block:
  "RPCSource_Block go_text (node_caller n) k e = (if k \<le> node_head n then Inr (node_block n k) else Inl ErrNotFound, e)"
proof -
  let ?v = "if k > node_head n then JNull else blk_json (nd_blocks n ! unat k)"
  let ?ps = "JArr [JStr (node_qty k), JBool False]"
  have params: "node_params go_text (Some ?ps) 1 = Some [node_qty k, string_of (js_print go_text (JBool False))]"
    by (simp add: node_params_def param_string_def)
  have "RPCSource_call go_text (node_caller n) ''eth_getBlockByNumber'' ?ps dec_raw_block e =
      (if ?v = JNull then Inl ErrNotFound else dec_raw_block ?v, e)"
  proof (rule node_call)
    show "valid_json (max_depth - 1) ?v" using valid_blk_json by simp
    show "length (js_print go_text (rpc_request ''eth_getBlockByNumber'' ?ps)) \<le> 2 ^ 20"
      using length_qty [of k] escape_length [of "node_qty k"] by (intro small_body) (simp_all add: quote_str_def)
    show "Node_Handle go_text \<lparr>rq_JSONRPC = ''2.0'', rq_Method = ''eth_getBlockByNumber'', rq_Params = Some ?ps,
        rq_ParamsText = t, rq_ID = Some (JNum ''1'')\<rparr> n = OK (Some (JNum ''1'')) ?v" for t
      using params by (simp add: Node_Handle_def Let_def resolve_number)
  qed (auto intro: utf8_ascii simp: max_depth_def)
  moreover have "blk_json b \<noteq> JNull" for b by (simp add: blk_json_def)
  ultimately show ?thesis
    using raw_block [of "nd_blocks n ! unat k"] unfolding RPCSource_Block_def rbind_def node_block_def node_qty_def [symmetric]
    by (auto simp: ebind_eq_Inr rlift_def)
qed

text \<open>So the source is the chain of the node.\<close>

lemma node_source: "RPCSource go_text (node_caller n) = static_source (node_head n) (node_block n)"
proof -
  have "RPCSource_Head go_text (node_caller n) = (\<lambda>e. (Inr (node_head n), e))"
    "RPCSource_Block go_text (node_caller n) = (\<lambda>k e. (if k \<le> node_head n then Inr (node_block n k) else Inl ErrNotFound, e))"
    by (intro ext, simp add: node_Head node_Block)+
  then show ?thesis by (simp add: RPCSource_def static_source_def)
qed

section \<open>An indexer that follows the node\<close>

text \<open>The indexer polls while the node changes between the polls: one \<^verbatim>\<open>Sync\<close> against each of its states.\<close>

fun follow :: "(Block \<Rightarrow> bytes) \<Rightarrow> Node list \<Rightarrow> Indexer \<Rightarrow> Log \<Rightarrow> (gerror option list \<times> Indexer \<times> Log) option" where
  "follow m [] ix l = Some ([], ix, l)"
| "follow m (n # ns) ix l =
     Option.bind (Indexer_Sync m (RPCSource go_text (node_caller n)) ix l ()) (\<lambda>(err, ix', l', e).
       map_option (\<lambda>(errs, r). (err # errs, r)) (follow m ns ix' l'))"

definition no_hash_collision :: "Node list \<Rightarrow> bool" where
  "no_hash_collision ns \<longleftrightarrow> (\<forall>n \<in> set ns. \<forall>n' \<in> set ns. \<forall>b \<in> set (nd_blocks n). \<forall>b' \<in> set (nd_blocks n').
     bk_hash b = bk_hash b' \<longrightarrow> b = b')"

lemma node_hx_inject [simp]: "node_hx a = node_hx b \<longleftrightarrow> a = b"
proof -
  have "a = b" if "hex_EncodeToString a = hex_EncodeToString b"
    using hex_decode_encode [of a] unfolding that by simp
  then show ?thesis by (auto simp: node_hx_def)
qed

lemma max_u64: "unat (-1 :: u64) = 2 ^ 64 - 1"
  by (simp add: unsigned_minus_1_eq_mask mask_eq_exp_minus_1)

lemma static_numbered: "canonical h blk \<Longrightarrow> numbered_source (static_source h blk)"
  by unfold_locales (auto simp: static_source_def canonical_def split: if_splits)

lemma node_block_member: "node_inv n \<Longrightarrow> length (nd_blocks n) \<le> 2 ^ 63 \<Longrightarrow> k \<le> node_head n \<Longrightarrow> nd_blocks n ! unat k \<in> set (nd_blocks n)"
  using unat_head [of n] by (intro nth_mem) (auto simp: word_le_nat_alt node_inv_def Suc_le_eq dest: le_imp_less_Suc)

text \<open>One poll, from a window of blocks of an earlier state of the node.\<close>

lemma follow_step:
  assumes "node_inv n" and "length (nd_blocks n) \<le> 2 ^ 63" and "1 \<le> ix_window ix" and "ix_window ix < 2 ^ 63"
    and "chain_inv (ix_window ix) (ix_chain ix)"
    and "\<forall>b \<in> set (ix_chain ix). bl_Number b \<noteq> -1 \<and> (\<exists>c. b = block_of_blk c \<and> (\<forall>c' \<in> set (nd_blocks n). bk_hash c = bk_hash c' \<longrightarrow> c = c'))"
  shows "\<exists>ix' l'. Indexer_Sync m (RPCSource go_text (node_caller n)) ix l () = Some (None, ix', l', ()) \<and>
    ix_window ix' = ix_window ix \<and> chain_inv (ix_window ix) (ix_chain ix') \<and> on_chain (node_head n) (node_block n) (ix_chain ix') \<and>
    Indexer_Head ix' = Some (node_block n (node_head n))"
proof -
  have canon: "canonical (node_head n) (node_block n)" using assms(1,2) by (intro node_canonical) simp_all
  have "unat (node_head n) < 2 ^ 63" using unat_head [of n] assms(1,2) by (auto simp: node_inv_def)
  then have h: "node_head n \<noteq> -1" using max_u64 by auto
  have col: "no_collision (node_head n) (node_block n) (ix_chain ix)"
    unfolding no_collision_def
  proof (intro ballI allI impI)
    fix b k assume b: "b \<in> set (ix_chain ix)" "k \<le> node_head n" "bl_Hash b = bl_Hash (node_block n k)"
    with assms(6) obtain c where "b = block_of_blk c" "\<forall>c' \<in> set (nd_blocks n). bk_hash c = bk_hash c' \<longrightarrow> c = c'" by blast
    then show "b = node_block n k" using b node_block_member [OF assms(1,2) b(2)] by (auto simp: node_block_def block_of_blk_def)
  qed
  obtain err ix' l' e where s: "Indexer_Sync m (static_source (node_head n) (node_block n)) ix l () = Some (err, ix', l', e)"
    using static_Sync_returns [OF h, of m "node_block n" ix l "()"] by auto
  from Sync_static [OF canon h assms(3-5) col _ s] assms(6)
  have "err = None" "on_chain (node_head n) (node_block n) (ix_chain ix')" "ix_chain ix' \<noteq> []" "last (ix_chain ix') = node_block n (node_head n)"
    by auto
  moreover have "chain_inv (ix_window ix') (ix_chain ix') \<and> ix_window ix' = ix_window ix"
    by (rule numbered_source.Sync_inv [OF static_numbered [OF canon] s assms(5,3)])
  ultimately show ?thesis using s unfolding node_source by (auto simp: Indexer_Head_def)
qed

lemma on_chain_blocks:
  assumes "on_chain (node_head n) (node_block n) bs" and "node_inv n" and "length (nd_blocks n) \<le> 2 ^ 63" and "b \<in> set bs"
  shows "bl_Number b \<noteq> -1 \<and> (\<exists>c \<in> set (nd_blocks n). b = block_of_blk c)"
proof -
  have b: "bl_Number b \<le> node_head n" "b = node_block n (bl_Number b)" using assms(1,4) by (auto simp: on_chain_def)
  have "unat (node_head n) < 2 ^ 63" using unat_head [of n] assms(2,3) by (auto simp: node_inv_def)
  with b(1) have "bl_Number b \<noteq> -1" using max_u64 by (auto simp: word_le_nat_alt)
  moreover have "\<exists>c \<in> set (nd_blocks n). b = block_of_blk c"
    using node_block_member [OF assms(2,3) b(1)] b(2) by (auto simp: node_block_def)
  ultimately show ?thesis ..
qed

lemma follow_from:
  assumes "\<forall>n \<in> set ns. node_inv n \<and> length (nd_blocks n) \<le> 2 ^ 63" and "ns \<noteq> []" and "1 \<le> ix_window ix" and "ix_window ix < 2 ^ 63"
    and "chain_inv (ix_window ix) (ix_chain ix)" and "no_hash_collision ns"
    and "\<forall>b \<in> set (ix_chain ix). bl_Number b \<noteq> -1 \<and>
      (\<exists>c. b = block_of_blk c \<and> (\<forall>n \<in> set ns. \<forall>c' \<in> set (nd_blocks n). bk_hash c = bk_hash c' \<longrightarrow> c = c'))"
  shows "\<exists>ix' l'. follow m ns ix l = Some (replicate (length ns) None, ix', l') \<and>
    chain_inv (ix_window ix) (ix_chain ix') \<and> on_chain (node_head (last ns)) (node_block (last ns)) (ix_chain ix') \<and>
    Indexer_Head ix' = Some (node_block (last ns) (node_head (last ns)))"
  using assms
proof (induction ns arbitrary: ix l)
  case (Cons n ns)
  have n: "node_inv n" "length (nd_blocks n) \<le> 2 ^ 63" using Cons.prems(1) by simp_all
  obtain ix1 l1 where s: "Indexer_Sync m (RPCSource go_text (node_caller n)) ix l () = Some (None, ix1, l1, ())"
      "ix_window ix1 = ix_window ix" "chain_inv (ix_window ix) (ix_chain ix1)" "on_chain (node_head n) (node_block n) (ix_chain ix1)"
      "Indexer_Head ix1 = Some (node_block n (node_head n))"
    using follow_step [OF n Cons.prems(3-5), of m l] Cons.prems(7) by fastforce
  show ?case
  proof (cases "ns = []")
    case True
    with s show ?thesis by simp
  next
    case False
    have "\<forall>b \<in> set (ix_chain ix1). bl_Number b \<noteq> -1 \<and>
      (\<exists>c. b = block_of_blk c \<and> (\<forall>n \<in> set ns. \<forall>c' \<in> set (nd_blocks n). bk_hash c = bk_hash c' \<longrightarrow> c = c'))"
    proof
      fix b assume "b \<in> set (ix_chain ix1)"
      from on_chain_blocks [OF s(4) n this] obtain c where "bl_Number b \<noteq> -1" "c \<in> set (nd_blocks n)" "b = block_of_blk c" by blast
      with Cons.prems(6) show "bl_Number b \<noteq> -1 \<and>
          (\<exists>c. b = block_of_blk c \<and> (\<forall>n \<in> set ns. \<forall>c' \<in> set (nd_blocks n). bk_hash c = bk_hash c' \<longrightarrow> c = c'))"
        unfolding no_hash_collision_def by (intro conjI exI [of _ c]) auto
    qed
    moreover have "no_hash_collision ns" using Cons.prems(6) by (simp add: no_hash_collision_def)
    ultimately have "\<exists>ix' l'. follow m ns ix1 l1 = Some (replicate (length ns) None, ix', l') \<and>
        chain_inv (ix_window ix1) (ix_chain ix') \<and> on_chain (node_head (last ns)) (node_block (last ns)) (ix_chain ix') \<and>
        Indexer_Head ix' = Some (node_block (last ns) (node_head (last ns)))"
      using Cons.prems(1,3,4) s(2,3) False by (intro Cons.IH) simp_all
    then show ?thesis using s(1,2) False by auto
  qed
qed simp

section \<open>Properties\<close>

text \<open>C39: the simulated chain. After any mining and any forced reorganisations, a node (of at most \<open>2^64\<close>
  blocks) holds at least the genesis block; every block is numbered by its position, has a hash of 32
  bytes, names the hash of its predecessor as its parent (the genesis block: zeros), is stamped twelve
  seconds after it, and lists fewer than eight transactions.\<close>

theorem node_chain_wellformed:
  assumes "node_reach n" and "length (nd_blocks n) \<le> 2 ^ 64"
  shows "nd_blocks n \<noteq> [] \<and> (\<forall>i < length (nd_blocks n).
     bk_num (nd_blocks n ! i) = word_of_nat i \<and> length (bk_hash (nd_blocks n ! i)) = 32 \<and>
     bk_parent (nd_blocks n ! i) = (if i = 0 then replicate 32 0 else bk_hash (nd_blocks n ! (i - 1))) \<and>
     bk_ts (nd_blocks n ! i) = genesisTime + word_of_nat i * blockTime \<and> bk_txs (nd_blocks n ! i) < 8)"
  using reach_inv [OF assms] by (simp add: node_inv_def blocks_inv_def parent_at_def)

theorem node_chain_wellformed_witness:
  "bk_parent (nd_blocks (Node_Mine (Node_New 1337)) ! 1) = bk_hash (nd_blocks (Node_Mine (Node_New 1337)) ! 0)"
proof -
  have "length (nd_blocks (Node_Mine (Node_New 1337))) = 2" by (simp add: Node_Mine_def Node_New_def)
  with node_chain_wellformed [OF node_mined [OF node_new], of 1337] show ?thesis by simp
qed

text \<open>C8: the gateway's index follows the simulated node through reorganisations. Poll after poll, over
  JSON-RPC texts, against any sequence of reachable states of nodes of at most \<open>2^63\<close> blocks whose
  hashes do not collide: every \<^verbatim>\<open>Sync\<close> returns without an error, and after the last one the window
  is a linked stretch of the last state's chain that ends in its newest block, whatever forks were
  indexed before.\<close>

theorem index_follows_node:
  assumes "\<forall>n \<in> set ns. node_reach n \<and> length (nd_blocks n) \<le> 2 ^ 63" and "ns \<noteq> []" and "no_hash_collision ns" and "w < 2 ^ 63"
  shows "\<exists>ix l'. follow m ns (Indexer_New w) l = Some (replicate (length ns) None, ix, l') \<and>
    chain_inv (nat (max w 1)) (ix_chain ix) \<and> on_chain (node_head (last ns)) (node_block (last ns)) (ix_chain ix) \<and>
    Indexer_Head ix = Some (node_block (last ns) (node_head (last ns)))"
proof -
  have "\<forall>n \<in> set ns. node_inv n \<and> length (nd_blocks n) \<le> 2 ^ 63" using assms(1) reach_inv by fastforce
  then show ?thesis
    using follow_from [of ns "Indexer_New w" m l] assms(2-4) by (auto simp: Indexer_New_def chain_inv_def)
qed

theorem index_follows_node_witness:
  "\<exists>ix l'. follow (\<lambda>b. []) [Node_New 1, Node_New 1] (Indexer_New 256) (Log_New 4) = Some ([None, None], ix, l') \<and>
    Indexer_Head ix = Some (node_block (Node_New 1) (node_head (Node_New 1)))"
proof -
  let ?ns = "[Node_New 1, Node_New 1]"
  have "length (nd_blocks (Node_New 1)) = 1" by (simp add: Node_New_def)
  then obtain b where b: "nd_blocks (Node_New 1) = [b]" by (auto simp: length_Suc_conv)
  have "no_hash_collision ?ns" by (simp add: no_hash_collision_def b)
  with index_follows_node [of ?ns 256 "\<lambda>b. []" "Log_New 4"] b show ?thesis by (auto simp: node_new numeral_2_eq_2)
qed

end
