(* ===== verification/Intent.thy ===== *)
theory Intent
  imports Engineclient Rpcx
begin

text \<open>
  The intent service of \<^verbatim>\<open>internal/intent/intent.go\<close>: it validates what the user asks for, loads the
  accounts involved from the node, has the engine simulate the transaction and returns the exact
  transaction to sign with the predicted outcome. The node's \<^verbatim>\<open>Caller\<close> and the simulator are
  arguments; both act on the world \<open>'e\<close>.

  The lemmas tie the returned transaction to the simulated one.
\<close>

section \<open>Data\<close>

type_synonym 'e Simulator = "SimRequest \<Rightarrow> ('e, SimResult) call"

record 'e Service =
  sv_RPC :: "'e Caller"
  sv_Sim :: "'e Simulator option"
  sv_MaxGas :: u64

record EVMRequest =
  ev_ChainID :: u64
  ev_From :: string
  ev_To :: string
  ev_Value :: string
  ev_Data :: string
  ev_GasLimit :: u64
  ev_GasPrice :: string

record Tx =
  tx_ChainID :: u64
  tx_Nonce :: u64
  tx_GasPrice :: string
  tx_GasLimit :: u64
  tx_To :: string
  tx_Value :: string
  tx_Data :: string

record LogView =
  lv_Address :: string
  lv_Topics :: "string list"
  lv_Data :: string

record ChangeView =
  cv_Address :: string
  cv_Before :: string
  cv_After :: string
  cv_Delta :: string

record Simulation =
  sn_Outcome :: string
  sn_GasUsed :: u64
  sn_Output :: string
  sn_Reason :: string
  sn_Logs :: "LogView list"
  sn_BalanceChanges :: "ChangeView list"
  sn_ElapsedUS :: u64
  sn_Created :: string

record Prepared =
  pr_Tx :: Tx
  pr_Simulation :: Simulation

section \<open>Helpers\<close>

definition hexAddr :: "string \<Rightarrow> string \<Rightarrow> gerror + Address" where
  "hexAddr s field = (case hex_DecodeString (TrimPrefix s ''0x'') of
     Inl err \<Rightarrow> Inl (InvalidError (field @ '' must be a 0x-prefixed 20-byte address''))
   | Inr b \<Rightarrow> if \<not> HasPrefix s ''0x'' \<or> length b \<noteq> 20
              then Inl (InvalidError (field @ '' must be a 0x-prefixed 20-byte address'')) else Inr b)"

definition decimal :: "string \<Rightarrow> string \<Rightarrow> gerror + int" where
  "decimal s field = (if s = [] then Inr 0 else case big_SetString dec_value s of
     None \<Rightarrow> Inl (InvalidError (field @ '' must be a non-negative decimal integer''))
   | Some v \<Rightarrow> if v < 0 \<or> \<bar>v\<bar> \<ge> 2 ^ 256
              then Inl (InvalidError (field @ '' must be a non-negative decimal integer'')) else Inr v)"

definition qty :: "JsonText \<Rightarrow> 'e Caller \<Rightarrow> string \<Rightarrow> json \<Rightarrow> ('e, int) call" where
  "qty T c method params = rbind (Rpcx_Call T c method params dec_string) (\<lambda>s.
     case big_SetString hex_value (TrimPrefix s ''0x'') of
       None \<Rightarrow> rlift (Inl (OtherErr ''intent: malformed quantity''))
     | Some v \<Rightarrow> if \<not> HasPrefix s ''0x'' then rlift (Inl (OtherErr ''intent: malformed quantity''))
                else rlift (Inr v))"

text \<open>\<^verbatim>\<open>big.Int.Uint64\<close>: the low 64 bits of the absolute value.\<close>

definition big_Uint64 :: "int \<Rightarrow> u64" where
  "big_Uint64 v = word_of_int \<bar>v\<bar>"

definition hx :: "bytes \<Rightarrow> string" where
  "hx b = ''0x'' @ hex_EncodeToString b"

definition Service_account :: "JsonText \<Rightarrow> 'e Service \<Rightarrow> Address \<Rightarrow> ('e, Account) call" where
  "Service_account T s a =
     (let h = hx a in
      rbind (qty T (sv_RPC s) ''eth_getBalance'' (JArr [JStr h, JStr ''latest''])) (\<lambda>bal.
      rbind (qty T (sv_RPC s) ''eth_getTransactionCount'' (JArr [JStr h, JStr ''latest''])) (\<lambda>nonce.
      rbind (Rpcx_Call T (sv_RPC s) ''eth_getCode'' (JArr [JStr h, JStr ''latest'']) dec_string) (\<lambda>code.
      case hex_DecodeString (TrimPrefix code ''0x'') of
        Inl err \<Rightarrow> rlift (Inl (OtherErr ''intent: eth_getCode returned malformed code''))
      | Inr cb \<Rightarrow> rlift (Inr \<lparr>ac_Address = a, ac_Balance = Some bal, ac_Nonce = big_Uint64 nonce, ac_Code = cb,
                               ac_Storage = []\<rparr>)))))"

fun Outcome_string :: "Outcome \<Rightarrow> string" where
  "Outcome_string NoOutcome = []"
| "Outcome_string Success = ''success''"
| "Outcome_string Revert = ''revert''"
| "Outcome_string Halt = ''halt''"

definition sim_view :: "SimResult \<Rightarrow> Simulation" where
  "sim_view r = \<lparr>sn_Outcome = Outcome_string (sm_Outcome r), sn_GasUsed = sm_GasUsed r, sn_Output = hx (sm_Output r),
     sn_Reason = sm_Reason r,
     sn_Logs = map (\<lambda>l. \<lparr>lv_Address = hx (el_Address l), lv_Topics = map hx (el_Topics l), lv_Data = hx (el_Data l)\<rparr>) (sm_Logs r),
     sn_BalanceChanges = map (\<lambda>c. \<lparr>cv_Address = hx (bc_Address c), cv_Before = big_String (bc_Before c),
       cv_After = big_String (bc_After c), cv_Delta = big_String (bc_After c - bc_Before c)\<rparr>) (sm_BalanceChanges r),
     sn_ElapsedUS = sm_ElapsedUS r,
     sn_Created = (case sm_Created r of None \<Rightarrow> [] | Some a \<Rightarrow> hx a)\<rparr>"

section \<open>Preparing a transaction\<close>

text \<open>The validated parts of a request: everything before the first call to the node.\<close>

record Checked =
  ck_from :: Address
  ck_to :: "Address option"
  ck_value :: int
  ck_data :: bytes
  ck_gas :: u64

definition max_gas :: "u64 \<Rightarrow> u64" where
  "max_gas m = (if m = 0 then 30000000 else m)"

definition check_request :: "u64 \<Rightarrow> EVMRequest \<Rightarrow> gerror + Checked" where
  "check_request maxGas r =
     (if ev_ChainID r = 0 then Inl (InvalidError ''chain_id is required'')
      else ebind (hexAddr (ev_From r) ''from'') (\<lambda>from.
        ebind (if ev_To r \<noteq> [] then ebind (hexAddr (ev_To r) ''to'') (\<lambda>a. Inr (Some a)) else Inr None) (\<lambda>to.
        ebind (decimal (ev_Value r) ''value'') (\<lambda>value.
        case hex_DecodeString (TrimPrefix (ev_Data r) ''0x'') of
          Inl err \<Rightarrow> Inl (InvalidError ''data must be 0x-prefixed hex'')
        | Inr data \<Rightarrow>
            if ev_Data r \<noteq> [] \<and> \<not> HasPrefix (ev_Data r) ''0x'' then Inl (InvalidError ''data must be 0x-prefixed hex'')
            else let gasLimit = (if ev_GasLimit r = 0 then min 1000000 maxGas else ev_GasLimit r) in
              if gasLimit > maxGas then Inl (InvalidError ''gas_limit exceeds the ceiling'')
              else Inr \<lparr>ck_from = from, ck_to = to, ck_value = value, ck_data = data, ck_gas = gasLimit\<rparr>))))"

definition gas_price :: "JsonText \<Rightarrow> 'e Service \<Rightarrow> EVMRequest \<Rightarrow> ('e, int) call" where
  "gas_price T s r = (if ev_GasPrice r = [] then qty T (sv_RPC s) ''eth_gasPrice'' JNull
     else rlift (decimal (ev_GasPrice r) ''gas_price''))"

definition dec_head :: "json \<Rightarrow> gerror + string \<times> string" where
  "dec_head j = ebind (dec_object j) (\<lambda>fs. ebind (dec_field ''Number'' dec_string fs) (\<lambda>n.
     ebind (dec_field ''Timestamp'' dec_string fs) (\<lambda>t. Inr (n, t))))"

definition latest_block :: "JsonText \<Rightarrow> 'e Service \<Rightarrow> ('e, int \<times> int) call" where
  "latest_block T s =
     rbind (Rpcx_Call T (sv_RPC s) ''eth_getBlockByNumber'' (JArr [JStr ''latest'', JBool False]) dec_head) (\<lambda>(n, t).
       case (big_SetString hex_value (TrimPrefix n ''0x''), big_SetString hex_value (TrimPrefix t ''0x'')) of
         (Some number, Some stamp) \<Rightarrow> rlift (Inr (number, stamp))
       | _ \<Rightarrow> rlift (Inl (OtherErr ''intent: malformed latest block'')))"

definition load_state :: "JsonText \<Rightarrow> 'e Service \<Rightarrow> Checked \<Rightarrow> ('e, Account list) call" where
  "load_state T s k = rbind (Service_account T s (ck_from k)) (\<lambda>fromAcct.
     case ck_to k of
       None \<Rightarrow> rlift (Inr [fromAcct])
     | Some a \<Rightarrow> if a \<noteq> ck_from k then rbind (Service_account T s a) (\<lambda>acct. rlift (Inr [fromAcct, acct]))
                 else rlift (Inr [fromAcct]))"

definition final_tx :: "EVMRequest \<Rightarrow> Checked \<Rightarrow> int \<Rightarrow> u64 \<Rightarrow> SimResult \<Rightarrow> Tx" where
  "final_tx r k price nonce res =
     (let tx = \<lparr>tx_ChainID = ev_ChainID r, tx_Nonce = nonce, tx_GasPrice = big_String price, tx_GasLimit = ck_gas k,
                tx_To = (case ck_to k of None \<Rightarrow> [] | Some a \<Rightarrow> hx a),
                tx_Value = big_String (ck_value k), tx_Data = hx (ck_data k)\<rparr>
      in if sm_Outcome res = Success then tx\<lparr>tx_GasLimit := max 21000 (sm_GasUsed res * 12 div 10)\<rparr> else tx)"

definition PrepareEVM :: "JsonText \<Rightarrow> 'e Service \<Rightarrow> EVMRequest \<Rightarrow> ('e, Prepared) call" where
  "PrepareEVM T s r = (case sv_Sim s of
     None \<Rightarrow> rlift (Inl (InvalidError ''EVM simulation is not configured on this gateway''))
   | Some sim \<Rightarrow>
       rbind (rlift (check_request (max_gas (sv_MaxGas s)) r)) (\<lambda>k.
       rbind (gas_price T s r) (\<lambda>price.
       rbind (latest_block T s) (\<lambda>(number, stamp).
       rbind (load_state T s k) (\<lambda>state.
       rbind (sim \<lparr>sr_ChainID = ev_ChainID r, sr_From = ck_from k, sr_To = ck_to k, sr_Value = Some (ck_value k),
                   sr_Data = ck_data k, sr_GasLimit = ck_gas k, sr_GasPrice = Some 0, sr_State = state,
                   sr_BlockNumber = big_Uint64 number, sr_Timestamp = big_Uint64 stamp\<rparr>) (\<lambda>res.
       rlift (Inr \<lparr>pr_Tx = final_tx r k price (ac_Nonce (hd state)) res, pr_Simulation = sim_view res\<rparr>)))))))"

section \<open>Simulating on Solana\<close>

text \<open>\<^verbatim>\<open>base64.StdEncoding.DecodeString\<close>: line breaks are skipped, the last group is padded.\<close>

definition b64_val :: "char \<Rightarrow> nat option" where
  "b64_val c = (let n = of_char c :: nat in
     if 65 \<le> n \<and> n \<le> 90 then Some (n - 65)
     else if 97 \<le> n \<and> n \<le> 122 then Some (n - 71)
     else if 48 \<le> n \<and> n \<le> 57 then Some (n + 4)
     else if c = CHR ''+'' then Some 62
     else if c = CHR ''/'' then Some 63
     else None)"

fun b64_decode :: "string \<Rightarrow> bytes option" where
  "b64_decode [] = Some []"
| "b64_decode [a, b, c, d] =
     (if d = CHR ''='' then
        (if c = CHR ''='' then
           (case (b64_val a, b64_val b) of
              (Some x, Some y) \<Rightarrow> Some [word_of_nat ((x * 64 + y) div 16)]
            | _ \<Rightarrow> None)
         else (case (b64_val a, b64_val b, b64_val c) of
              (Some x, Some y, Some z) \<Rightarrow>
                let n = (x * 64 + y) * 64 + z in Some [word_of_nat (n div 1024), word_of_nat (n div 4)]
            | _ \<Rightarrow> None))
      else (case (b64_val a, b64_val b, b64_val c, b64_val d) of
              (Some x, Some y, Some z, Some w) \<Rightarrow>
                let n = ((x * 64 + y) * 64 + z) * 64 + w
                in Some [word_of_nat (n div 65536), word_of_nat (n div 256), word_of_nat n]
            | _ \<Rightarrow> None))"
| "b64_decode (a # b # c # d # e # s) =
     (case (b64_val a, b64_val b, b64_val c, b64_val d) of
        (Some x, Some y, Some z, Some w) \<Rightarrow>
          let n = ((x * 64 + y) * 64 + z) * 64 + w
          in map_option (\<lambda>bs. [word_of_nat (n div 65536), word_of_nat (n div 256), word_of_nat n] @ bs) (b64_decode (e # s))
      | _ \<Rightarrow> None)"
| "b64_decode _ = None"

definition base64_DecodeString :: "string \<Rightarrow> bytes option" where
  "base64_DecodeString s = b64_decode (filter (\<lambda>c. (of_char c :: nat) \<noteq> 10 \<and> (of_char c :: nat) \<noteq> 13) s)"

record SolanaSim =
  so_Success :: bool
  so_Err :: "json option"
  so_Logs :: "string list"
  so_UnitsConsumed :: u64

definition dec_solana_sim :: "json \<Rightarrow> gerror + json option \<times> string list \<times> u64" where
  "dec_solana_sim j = ebind (dec_object j) (\<lambda>top. ebind (dec_field ''value'' dec_object top) (\<lambda>fs.
     ebind (dec_field ''logs'' (dec_list dec_string) fs) (\<lambda>logs.
     ebind (dec_field ''unitsConsumed'' dec_uint64 fs) (\<lambda>units. Inr (json_field ''err'' fs, logs, units)))))"

definition SimulateSolana :: "JsonText \<Rightarrow> 'e Service \<Rightarrow> string \<Rightarrow> ('e, SolanaSim) call" where
  "SimulateSolana T s txB64 = (case base64_DecodeString txB64 of
     None \<Rightarrow> rlift (Inl (InvalidError ''tx must be base64''))
   | Some b \<Rightarrow> if length b = 0 then rlift (Inl (InvalidError ''tx must be base64'')) else
       rbind (Rpcx_Call T (sv_RPC s) ''simulateTransaction''
           (JArr [JStr txB64, JObj [(''commitment'', JStr ''confirmed''), (''encoding'', JStr ''base64''),
              (''replaceRecentBlockhash'', JBool True), (''sigVerify'', JBool False)]]) dec_solana_sim)
         (\<lambda>(err, logs, units).
            let ok = (err = None \<or> err = Some JNull) in
            rlift (Inr \<lparr>so_Success = ok, so_Err = (if ok then None else err), so_Logs = logs, so_UnitsConsumed = units\<rparr>)))"

section \<open>What the transaction and the simulation have in common\<close>

text \<open>
  The transaction says the same as the simulated request: the same chain, the recipient, value and
  data that its text fields denote, and the nonce of the sender's account as it was simulated.
\<close>

definition same_tx :: "Tx \<Rightarrow> SimRequest \<Rightarrow> bool" where
  "same_tx t q \<longleftrightarrow> tx_ChainID t = sr_ChainID q \<and>
     (case sr_To q of None \<Rightarrow> tx_To t = [] | Some a \<Rightarrow> hexAddr (tx_To t) ''to'' = Inr a) \<and>
     big_SetString dec_value (tx_Value t) = sr_Value q \<and>
     HasPrefix (tx_Data t) ''0x'' \<and> hex_DecodeString (drop 2 (tx_Data t)) = Inr (sr_Data q) \<and>
     (case sr_State q of [] \<Rightarrow> False | a # as \<Rightarrow> ac_Address a = sr_From q \<and> ac_Nonce a = tx_Nonce t)"

lemma hexAddr_hx: "length a = 20 \<Longrightarrow> hexAddr (hx a) f = Inr a"
  using TrimPrefix_append [of "''0x''" "hex_EncodeToString a"] HasPrefix_append [of "''0x''" "hex_EncodeToString a"]
  by (simp add: hexAddr_def hx_def)

lemma hexAddr_length: "hexAddr s f = Inr a \<Longrightarrow> length a = 20"
  by (auto simp: hexAddr_def split: sum.splits if_splits)

lemma check_request_ok:
  assumes "check_request m r = Inr k"
  shows "ck_gas k \<le> m" and "\<forall>a. ck_to k = Some a \<longrightarrow> length a = 20" and "0 \<le> ck_value k" and "length (ck_from k) = 20"
proof -
  from assms obtain to where
    "(if ev_To r \<noteq> [] then ebind (hexAddr (ev_To r) ''to'') (\<lambda>a. Inr (Some a)) else Inr None) = Inr to"
    "ck_to k = to" "hexAddr (ev_From r) ''from'' = Inr (ck_from k)" "decimal (ev_Value r) ''value'' = Inr (ck_value k)"
    "ck_gas k \<le> m"
    by (auto simp: check_request_def early_return Let_def not_less simp del: if_split)
  then show "ck_gas k \<le> m" and "\<forall>a. ck_to k = Some a \<longrightarrow> length a = 20" and "0 \<le> ck_value k" and "length (ck_from k) = 20"
    by (auto simp: early_return hexAddr_length decimal_def split: if_splits)
qed

lemma check_request_gas:
  "check_request m r = Inr k \<Longrightarrow> ck_gas k = (if ev_GasLimit r = 0 then min 1000000 m else ev_GasLimit r)"
  by (auto simp: check_request_def early_return Let_def simp del: if_split)

lemma account_address: "Service_account T s a e = (Inr acct, e') \<Longrightarrow> ac_Address acct = a"
  by (auto simp: Service_account_def Let_def early_return)

lemma load_state_head:
  assumes "load_state T s k e = (Inr state, e')"
  obtains a as where "state = a # as" and "ac_Address a = ck_from k"
proof -
  from assms obtain acct e1 where acct: "Service_account T s (ck_from k) e = (Inr acct, e1)"
    by (auto simp: load_state_def rbind_eq_Inr)
  then have "\<exists>as. state = acct # as"
    using assms by (cases "ck_to k") (auto simp: load_state_def rbind_eq_Inr split: if_splits)
  with that account_address [OF acct] show thesis by blast
qed

lemma PrepareEVM_cases:
  assumes "PrepareEVM T s r e = (Inr p, e')"
  obtains sim k price number stamp e1 state e2 res where
    "sv_Sim s = Some sim" "check_request (max_gas (sv_MaxGas s)) r = Inr k" "load_state T s k e1 = (Inr state, e2)"
    "sim \<lparr>sr_ChainID = ev_ChainID r, sr_From = ck_from k, sr_To = ck_to k, sr_Value = Some (ck_value k),
          sr_Data = ck_data k, sr_GasLimit = ck_gas k, sr_GasPrice = Some 0, sr_State = state,
          sr_BlockNumber = big_Uint64 number, sr_Timestamp = big_Uint64 stamp\<rparr> e2 = (Inr res, e')"
    "p = \<lparr>pr_Tx = final_tx r k price (ac_Nonce (hd state)) res, pr_Simulation = sim_view res\<rparr>"
proof -
  from assms obtain sim where sim: "sv_Sim s = Some sim" by (auto simp: PrepareEVM_def split: option.splits)
  obtain k where k: "check_request (max_gas (sv_MaxGas s)) r = Inr k"
    using assms sim by (cases "check_request (max_gas (sv_MaxGas s)) r") (auto simp: PrepareEVM_def)
  show thesis
    using assms sim k that unfolding PrepareEVM_def by (auto simp: rbind_eq_Inr split_beta)
qed

lemma prepare_simulated_gas:
  assumes "PrepareEVM T s r e = (Inr p, e')"
  shows "\<exists>sim q e2 res. sv_Sim s = Some sim \<and> sim q e2 = (Inr res, e') \<and> same_tx (pr_Tx p) q \<and>
     pr_Simulation p = sim_view res \<and> 
     tx_GasLimit (pr_Tx p) = (if sm_Outcome res = Success then max 21000 (sm_GasUsed res * 12 div 10) else sr_GasLimit q)"
  using assms
proof (cases rule: PrepareEVM_cases)
  case (1 sim k price number stamp e1 state e2 res)
  obtain a as where st: "state = a # as" "ac_Address a = ck_from k" using load_state_head [OF 1(3)] by blast
  have hex: "HasPrefix (hx b) ''0x''" "hex_DecodeString (drop 2 (hx b)) = Inr b" for b
    using HasPrefix_append [of "''0x''" "hex_EncodeToString b"] by (simp_all add: hx_def)
  let ?q = "\<lparr>sr_ChainID = ev_ChainID r, sr_From = ck_from k, sr_To = ck_to k, sr_Value = Some (ck_value k),
          sr_Data = ck_data k, sr_GasLimit = ck_gas k, sr_GasPrice = Some 0, sr_State = state,
          sr_BlockNumber = big_Uint64 number, sr_Timestamp = big_Uint64 stamp\<rparr>"
  have "same_tx (pr_Tx p) ?q"
    using 1(5) st check_request_ok [OF 1(2)] hex hexAddr_hx
    by (auto simp: same_tx_def final_tx_def Let_def split: option.split)
  moreover have "tx_GasLimit (pr_Tx p) = (if sm_Outcome res = Success then max 21000 (sm_GasUsed res * 12 div 10) else ck_gas k)"
    using 1(5) by (simp add: final_tx_def Let_def)
  ultimately show ?thesis using 1 by (intro exI [of _ sim] exI [of _ ?q] exI [of _ e2] exI [of _ res]) simp
qed

lemma prepare_simulated:
  assumes "PrepareEVM T s r e = (Inr p, e')"
  shows "\<exists>sim q e2 res. sv_Sim s = Some sim \<and> sim q e2 = (Inr res, e') \<and> same_tx (pr_Tx p) q \<and>
     pr_Simulation p = sim_view res \<and> (sm_Outcome res \<noteq> Success \<longrightarrow> tx_GasLimit (pr_Tx p) = sr_GasLimit q)"
  using prepare_simulated_gas [OF assms] by metis

section \<open>Properties\<close>

text \<open>A small node and engine for the examples: the node's \<open>n\<close>-th answer is scripted.\<close>

definition demo_text :: JsonText where
  "demo_text = \<lparr>js_print = (\<lambda>j. []), js_parse = (\<lambda>b. if b = [1]
     then Some (JObj [(''result'', JObj [(''number'', JStr ''0x10''), (''timestamp'', JStr ''0x20'')])])
     else Some (JObj [(''result'', JStr ''0x05'')])), js_spans = (\<lambda>b i. []), js_first = (\<lambda>b. None)\<rparr>"

definition demo_service :: "byte Service" where
  "demo_service = \<lparr>sv_RPC = (\<lambda>body n. (Inr [n], n + 1)),
     sv_Sim = Some (\<lambda>q n. (Inr (emptyResult\<lparr>sm_Outcome := Success, sm_GasUsed := 30000\<rparr>), n + 1)), sv_MaxGas = 0\<rparr>"

definition demo_request :: EVMRequest where
  "demo_request = \<lparr>ev_ChainID = 1, ev_From = hx (replicate 20 17), ev_To = hx (replicate 20 34), ev_Value = ''1000'',
     ev_Data = ''0xdead'', ev_GasLimit = 0, ev_GasPrice = []\<rparr>"

definition demo_tx :: Tx where
  "demo_tx = \<lparr>tx_ChainID = 1, tx_Nonce = 5, tx_GasPrice = ''5'', tx_GasLimit = 36000, tx_To = hx (replicate 20 34),
     tx_Value = ''1000'', tx_Data = ''0xdead''\<rparr>"

lemma demo_prepare:
  "map_prod (map_sum id pr_Tx) id (PrepareEVM demo_text demo_service demo_request 0) = (Inr demo_tx, 9)"
  by code_simp

text \<open>C34: what is returned for signing is what was simulated. If \<^verbatim>\<open>PrepareEVM\<close> returns a transaction, the
  simulator was called and its answer, the last thing that happened, was for a request with the same
  chain, recipient, value, data and sender nonce; the reported simulation is that answer, and unless
  it was a success the gas limit is the simulated one.\<close>

theorem PrepareEVM_tx_is_simulated:
  assumes "PrepareEVM T s r e = (Inr p, e')"
  shows "\<exists>sim q e2 res. sv_Sim s = Some sim \<and> sim q e2 = (Inr res, e') \<and> same_tx (pr_Tx p) q \<and>
     pr_Simulation p = sim_view res \<and> (sm_Outcome res \<noteq> Success \<longrightarrow> tx_GasLimit (pr_Tx p) = sr_GasLimit q)"
  by (rule prepare_simulated [OF assms])

theorem PrepareEVM_tx_is_simulated_witness:
  "\<exists>p :: Prepared. pr_Tx p = demo_tx \<and> (\<exists>sim q e2 res. sv_Sim demo_service = Some sim \<and> sim q e2 = (Inr res, 9) \<and>
     same_tx demo_tx q \<and> pr_Simulation p = sim_view res)"
proof -
  from demo_prepare obtain p where p: "PrepareEVM demo_text demo_service demo_request 0 = (Inr p, 9)" "pr_Tx p = demo_tx"
    by (cases "PrepareEVM demo_text demo_service demo_request 0"; cases "fst (PrepareEVM demo_text demo_service demo_request 0)") auto
  from PrepareEVM_tx_is_simulated [OF p(1)] have "\<exists>sim q e2 res. sv_Sim demo_service = Some sim \<and>
      sim q e2 = (Inr res, 9) \<and> same_tx demo_tx q \<and> pr_Simulation p = sim_view res"
    unfolding p(2) by blast
  with p(2) show ?thesis by blast
qed

lemma gas_headroom: "unat (max 21000 (g * 12 div 10 :: u64)) = max 21000 (unat g * 12 mod 2 ^ 64 div 10)"
proof -
  have "unat (g * 12 div 10) = unat g * 12 mod 2 ^ 64 div 10" by (simp add: unat_div unat_word_ariths)
  then show ?thesis by (simp add: max_def word_le_nat_alt)
qed

text \<open>C35: the gas limit of the returned transaction, exactly. Unless the simulation succeeded, it is the limit that was asked
  for, or one million if none was, cut to the service's ceiling, and within the ceiling. If it succeeded, it is six fifths of the gas the simulation measured,
  at least 21000, where the product with 12 is taken modulo \<open>2 ^ 64\<close>. So if that product does
  not wrap around, the limit covers the measured gas; and if the measured gas is within the ceiling and the ceiling times 12 does not wrap around, the limit is at most
  the larger of 21000 and six fifths of the ceiling. The ceiling bounds what is simulated, not what is offered for signing.\<close>

theorem PrepareEVM_gas:
  assumes "PrepareEVM T s r e = (Inr p, e')"
  shows "(sn_Outcome (pr_Simulation p) \<noteq> ''success'' \<longrightarrow>
       tx_GasLimit (pr_Tx p) = (if ev_GasLimit r = 0 then min 1000000 (max_gas (sv_MaxGas s)) else ev_GasLimit r) \<and>
       tx_GasLimit (pr_Tx p) \<le> max_gas (sv_MaxGas s)) \<and>
    (sn_Outcome (pr_Simulation p) = ''success'' \<longrightarrow>
       unat (tx_GasLimit (pr_Tx p)) = max 21000 (unat (sn_GasUsed (pr_Simulation p)) * 12 mod 2 ^ 64 div 10)) \<and>
    (sn_Outcome (pr_Simulation p) = ''success'' \<and> unat (sn_GasUsed (pr_Simulation p)) * 12 < 2 ^ 64 \<longrightarrow>
       sn_GasUsed (pr_Simulation p) \<le> tx_GasLimit (pr_Tx p)) \<and>
    (sn_Outcome (pr_Simulation p) = ''success'' \<and> sn_GasUsed (pr_Simulation p) \<le> max_gas (sv_MaxGas s) \<and>
       unat (max_gas (sv_MaxGas s)) * 12 < 2 ^ 64 \<longrightarrow>
       unat (tx_GasLimit (pr_Tx p)) \<le> max 21000 (unat (max_gas (sv_MaxGas s)) * 12 div 10))"
  using assms
proof (cases rule: PrepareEVM_cases)
  case (1 sim k price number stamp e1 state e2 res)
  let ?m = "max_gas (sv_MaxGas s)" and ?g = "sm_GasUsed res"
  have out: "sn_Outcome (pr_Simulation p) = ''success'' \<longleftrightarrow> sm_Outcome res = Success"
    using 1(5) by (cases "sm_Outcome res") (simp_all add: sim_view_def)
  have used: "sn_GasUsed (pr_Simulation p) = ?g" using 1(5) by (simp add: sim_view_def)
  have fail: "tx_GasLimit (pr_Tx p) = ck_gas k" if "sm_Outcome res \<noteq> Success" using that 1(5) by (simp add: final_tx_def Let_def)
  have ok: "unat (tx_GasLimit (pr_Tx p)) = max 21000 (unat ?g * 12 mod 2 ^ 64 div 10)" if "sm_Outcome res = Success"
    using that 1(5) gas_headroom [of ?g] by (simp add: final_tx_def Let_def)
  have "ck_gas k = (if ev_GasLimit r = 0 then min 1000000 ?m else ev_GasLimit r)" "ck_gas k \<le> ?m"
    using check_request_gas [OF 1(2)] check_request_ok(1) [OF 1(2)] by simp_all
  with fail out have 1: "sn_Outcome (pr_Simulation p) \<noteq> ''success'' \<longrightarrow>
      tx_GasLimit (pr_Tx p) = (if ev_GasLimit r = 0 then min 1000000 ?m else ev_GasLimit r) \<and> tx_GasLimit (pr_Tx p) \<le> ?m" by simp
  have 2: "?g \<le> tx_GasLimit (pr_Tx p)" if "sm_Outcome res = Success" "unat ?g * 12 < 2 ^ 64"
    using ok [OF that(1)] that(2) by (simp add: word_le_nat_alt)
  have 3: "unat (tx_GasLimit (pr_Tx p)) \<le> max 21000 (unat ?m * 12 div 10)"
    if "sm_Outcome res = Success" "?g \<le> ?m" "unat ?m * 12 < 2 ^ 64"
  proof -
    have "unat ?g * 12 \<le> unat ?m * 12" using that(2) by (simp add: word_le_nat_alt)
    then have "unat ?g * 12 mod 2 ^ 64 div 10 \<le> unat ?m * 12 div 10" using that(3) div_le_mono by simp
    then show ?thesis unfolding ok [OF that(1)] by (rule max.mono [OF order.refl])
  qed
  show ?thesis unfolding used using 1 2 3 ok unfolding out by blast
qed

theorem PrepareEVM_gas_witness:
  "30000 \<le> tx_GasLimit demo_tx \<and> unat (tx_GasLimit demo_tx) = max 21000 36000 \<and> unat (tx_GasLimit demo_tx) \<le> 36000000"
proof -
  have "map_prod (map_sum id (\<lambda>p. (pr_Tx p, sn_Outcome (pr_Simulation p), sn_GasUsed (pr_Simulation p)))) id
      (PrepareEVM demo_text demo_service demo_request 0) = (Inr (demo_tx, ''success'', 30000), 9)"
    by code_simp
  then obtain p where p: "PrepareEVM demo_text demo_service demo_request 0 = (Inr p, 9)" "pr_Tx p = demo_tx"
      "sn_Outcome (pr_Simulation p) = ''success''" "sn_GasUsed (pr_Simulation p) = 30000"
    by (cases "PrepareEVM demo_text demo_service demo_request 0"; cases "fst (PrepareEVM demo_text demo_service demo_request 0)") auto
  from PrepareEVM_gas [OF p(1)] show ?thesis unfolding p(2-4) by (simp add: demo_service_def max_gas_def)
qed

end
