(* ===== verification/Cache.thy ===== *)
theory Cache
  imports Prelude
begin

text \<open>
  The TTL and LRU cache of \<^verbatim>\<open>internal/cache/cache.go\<close>. The code keeps a doubly linked list of
  elements, most recently used first, and a map from keys to elements of that list; the two must
  agree. The model keeps both: an element is an address, \<open>ca_el\<close> is the store of element values,
  \<open>ca_ll\<close> the list of addresses and \<open>ca_m\<close> the map of keys to addresses.

  The abstract cache is the list of entries in recency order alone (\<open>abs_Get\<close>, \<open>abs_Set\<close>); the
  main lemmas say that the concrete operations implement it.
\<close>

section \<open>State and operations\<close>

record entry =
  en_key :: string
  en_val :: bytes
  en_expires :: time

record Cache =
  ca_cap :: int
  ca_ttl :: duration
  ca_ll :: "nat list"
  ca_el :: "nat \<rightharpoonup> entry"
  ca_m :: "string \<rightharpoonup> nat"
  ca_fresh :: nat

definition Cache_New :: "int \<Rightarrow> duration \<Rightarrow> Cache" where
  "Cache_New cap ttl = \<lparr>ca_cap = cap, ca_ttl = ttl, ca_ll = [], ca_el = Map.empty, ca_m = Map.empty,
     ca_fresh = 0\<rparr>"

definition Cache_Get :: "time \<Rightarrow> string \<Rightarrow> Cache \<Rightarrow> bytes option \<times> Cache" where
  "Cache_Get now key c = (case ca_m c key of
     None \<Rightarrow> (None, c)
   | Some el \<Rightarrow> let e = the (ca_el c el) in
       if \<not> now < en_expires e
       then (None, c\<lparr>ca_ll := remove1 el (ca_ll c), ca_m := (ca_m c)(key := None)\<rparr>)
       else (Some (en_val e), c\<lparr>ca_ll := el # remove1 el (ca_ll c)\<rparr>))"

definition Cache_Set :: "time \<Rightarrow> string \<Rightarrow> bytes \<Rightarrow> Cache \<Rightarrow> Cache" where
  "Cache_Set now key val c =
     (let e = \<lparr>en_key = key, en_val = val, en_expires = now + ca_ttl c\<rparr> in
      case ca_m c key of
        Some el \<Rightarrow> c\<lparr>ca_el := (ca_el c)(el \<mapsto> e), ca_ll := el # remove1 el (ca_ll c)\<rparr>
      | None \<Rightarrow>
          let el = ca_fresh c;
              c1 = c\<lparr>ca_fresh := el + 1, ca_el := (ca_el c)(el \<mapsto> e), ca_ll := el # ca_ll c,
                     ca_m := (ca_m c)(key \<mapsto> el)\<rparr>
          in if int (length (ca_ll c1)) > ca_cap c1
             then let lst = last (ca_ll c1) in
               c1\<lparr>ca_ll := remove1 lst (ca_ll c1),
                  ca_m := (ca_m c1)(en_key (the (ca_el c1 lst)) := None)\<rparr>
             else c1)"

definition Cache_Len :: "Cache \<Rightarrow> nat" where
  "Cache_Len c = length (ca_ll c)"

section \<open>The abstract cache\<close>

definition drop_key :: "string \<Rightarrow> entry list \<Rightarrow> entry list" where
  "drop_key k es = filter (\<lambda>e. en_key e \<noteq> k) es"

definition abs_Get :: "time \<Rightarrow> string \<Rightarrow> entry list \<Rightarrow> bytes option \<times> entry list" where
  "abs_Get now k es = (case find (\<lambda>e. en_key e = k) es of
     None \<Rightarrow> (None, es)
   | Some e \<Rightarrow> if now < en_expires e then (Some (en_val e), e # drop_key k es) else (None, drop_key k es))"

definition abs_Set :: "int \<Rightarrow> duration \<Rightarrow> time \<Rightarrow> string \<Rightarrow> bytes \<Rightarrow> entry list \<Rightarrow> entry list" where
  "abs_Set cap ttl now k v es =
     (let e = \<lparr>en_key = k, en_val = v, en_expires = now + ttl\<rparr> in
      if k \<in> en_key ` set es then e # drop_key k es
      else if int (length es) + 1 > cap then butlast (e # es) else e # es)"

section \<open>Refinement\<close>

text \<open>The entries in recency order.\<close>

definition cache_abs :: "Cache \<Rightarrow> entry list" where
  "cache_abs c = map (\<lambda>a. the (ca_el c a)) (ca_ll c)"

text \<open>List, store and map agree.\<close>

definition cache_wf :: "Cache \<Rightarrow> bool" where
  "cache_wf c \<longleftrightarrow> distinct (ca_ll c) \<and>
     (\<forall>a \<in> set (ca_ll c). a < ca_fresh c \<and> ca_el c a \<noteq> None) \<and>
     (\<forall>k a. ca_m c k = Some a \<longleftrightarrow> a \<in> set (ca_ll c) \<and> en_key (the (ca_el c a)) = k)"

text \<open>... and the capacity is respected.\<close>

definition cache_inv :: "Cache \<Rightarrow> bool" where
  "cache_inv c \<longleftrightarrow> cache_wf c \<and> int (length (ca_ll c)) \<le> max (ca_cap c) 0"

lemma cache_wfD:
  assumes "cache_wf c"
  shows "distinct (ca_ll c)" "a \<in> set (ca_ll c) \<Longrightarrow> a < ca_fresh c"
    and "ca_m c k = Some a \<longleftrightarrow> a \<in> set (ca_ll c) \<and> en_key (the (ca_el c a)) = k"
  using assms by (auto simp: cache_wf_def)

lemma cache_inv_New [gw_inv]: "cache_inv (Cache_New cap ttl)"
  by (simp add: cache_inv_def cache_wf_def Cache_New_def)

lemma Cache_New_simps [simp]:
  "ca_cap (Cache_New cap ttl) = cap" "ca_ttl (Cache_New cap ttl) = ttl" "cache_abs (Cache_New cap ttl) = []"
  by (simp_all add: Cache_New_def cache_abs_def)

lemma cache_keys_inj:
  assumes "cache_wf c" and "a \<in> set (ca_ll c)" and "b \<in> set (ca_ll c)"
    and "en_key (the (ca_el c a)) = en_key (the (ca_el c b))"
  shows "a = b"
  using assms cache_wfD(3) [OF assms(1)] by (metis option.inject)

lemma cache_abs_distinct: "cache_wf c \<Longrightarrow> distinct (map en_key (cache_abs c))"
  using cache_keys_inj by (auto simp: cache_abs_def distinct_map inj_on_def cache_wf_def)

lemma cache_m_None: "cache_wf c \<Longrightarrow> ca_m c k = None \<longleftrightarrow> k \<notin> en_key ` set (cache_abs c)"
  using cache_wfD(3) [of c k] by (force simp: cache_abs_def not_Some_eq [symmetric] simp del: not_Some_eq)

text \<open>The three moves the operations are made of.\<close>

lemma cache_wf_front:
  "cache_wf c \<Longrightarrow> ca_m c k = Some a \<Longrightarrow> cache_wf (c\<lparr>ca_ll := a # remove1 a (ca_ll c)\<rparr>)"
  by (simp add: cache_wf_def) blast

lemma cache_wf_remove:
  assumes "cache_wf c" and "ca_m c k = Some a"
  shows "cache_wf (c\<lparr>ca_ll := remove1 a (ca_ll c), ca_m := (ca_m c)(k := None)\<rparr>)"
proof -
  have "a \<in> set (ca_ll c)" "en_key (the (ca_el c a)) = k" using assms cache_wfD(3) by blast+
  then show ?thesis
    using assms cache_keys_inj [OF assms(1)] by (simp add: cache_wf_def) blast
qed

lemma cache_wf_overwrite:
  assumes "cache_wf c" and "ca_m c k = Some a" and "en_key e = k"
  shows "cache_wf (c\<lparr>ca_el := (ca_el c)(a \<mapsto> e)\<rparr>)"
proof -
  have "a \<in> set (ca_ll c)" "en_key (the (ca_el c a)) = k" using assms cache_wfD(3) by blast+
  then show ?thesis using assms by (simp add: cache_wf_def)
qed

lemma cache_wf_insert:
  assumes "cache_wf c" and "ca_m c (en_key e) = None"
  shows "cache_wf (c\<lparr>ca_fresh := ca_fresh c + 1, ca_el := (ca_el c)(ca_fresh c \<mapsto> e),
           ca_ll := ca_fresh c # ca_ll c, ca_m := (ca_m c)(en_key e \<mapsto> ca_fresh c)\<rparr>)"
proof -
  have "ca_fresh c \<notin> set (ca_ll c)" using cache_wfD(2) [OF assms(1)] by blast
  moreover have "en_key (the (ca_el c a)) \<noteq> en_key e" if "a \<in> set (ca_ll c)" for a
    using cache_wfD(3) [OF assms(1), of "en_key e" a] assms(2) that by auto
  ultimately show ?thesis using assms by (auto simp: cache_wf_def less_Suc_eq)
qed

lemma map_remove1_key:
  assumes "cache_wf c" and "ca_m c k = Some a"
  shows "map (\<lambda>a. the (ca_el c a)) (remove1 a (ca_ll c)) = drop_key k (cache_abs c)"
proof -
  have a: "a \<in> set (ca_ll c)" "en_key (the (ca_el c a)) = k" "distinct (ca_ll c)"
    using assms cache_wfD by auto
  have "b \<noteq> a \<longleftrightarrow> en_key (the (ca_el c b)) \<noteq> k" if "b \<in> set (ca_ll c)" for b
    using cache_keys_inj [OF assms(1) that a(1)] a(2) by auto
  then have "filter (\<lambda>b. b \<noteq> a) (ca_ll c) = filter (\<lambda>b. en_key (the (ca_el c b)) \<noteq> k) (ca_ll c)"
    by (intro filter_cong) auto
  then show ?thesis
    using a(3) by (simp add: distinct_remove1_removeAll removeAll_filter_not_eq drop_key_def cache_abs_def
        filter_map o_def eq_commute [of a])
qed

lemma find_cache_abs:
  assumes "cache_wf c" and "ca_m c k = Some a"
  shows "find (\<lambda>e. en_key e = k) (cache_abs c) = Some (the (ca_el c a))"
proof -
  have a: "a \<in> set (ca_ll c)" "en_key (the (ca_el c a)) = k"
    using assms cache_wfD by auto
  obtain e where e: "find (\<lambda>e. en_key e = k) (cache_abs c) = Some e"
    using a by (cases "find (\<lambda>e. en_key e = k) (cache_abs c)") (auto simp: find_None_iff cache_abs_def)
  then have "e \<in> set (cache_abs c)" "en_key e = k" by (auto simp: find_Some_iff)
  then obtain b where "b \<in> set (ca_ll c)" "e = the (ca_el c b)" "en_key (the (ca_el c b)) = k"
    by (auto simp: cache_abs_def)
  with cache_keys_inj [OF assms(1) _ a(1)] a(2) e show ?thesis by auto
qed

lemma Cache_Get_refines:
  assumes "cache_wf c"
  shows "abs_Get now k (cache_abs c) = (fst (Cache_Get now k c), cache_abs (snd (Cache_Get now k c)))"
proof (cases "ca_m c k")
  case None
  then have "find (\<lambda>e. en_key e = k) (cache_abs c) = None"
    using cache_m_None [OF assms, of k] by (auto simp: find_None_iff)
  with None show ?thesis by (simp add: abs_Get_def Cache_Get_def)
next
  case (Some a)
  then show ?thesis
    using find_cache_abs [OF assms Some] map_remove1_key [OF assms Some]
    by (auto simp: abs_Get_def Cache_Get_def Let_def cache_abs_def)
qed

lemma cache_inv_Get [gw_inv]:
  assumes "cache_inv c"
  shows "cache_inv (snd (Cache_Get now k c)) \<and> ca_cap (snd (Cache_Get now k c)) = ca_cap c \<and>
         ca_ttl (snd (Cache_Get now k c)) = ca_ttl c"
proof (cases "ca_m c k")
  case None
  with assms show ?thesis by (simp add: Cache_Get_def)
next
  case (Some a)
  have wf: "cache_wf c" using assms by (simp add: cache_inv_def)
  then have "a \<in> set (ca_ll c)" using Some cache_wfD(3) by blast
  then have "length (remove1 a (ca_ll c)) = length (ca_ll c) - 1" "0 < length (ca_ll c)"
    by (auto simp: length_remove1)
  with Some assms cache_wf_front [OF wf Some] cache_wf_remove [OF wf Some] show ?thesis
    by (auto simp: Cache_Get_def Let_def cache_inv_def)
qed

lemma last_remove1: "distinct xs \<Longrightarrow> xs \<noteq> [] \<Longrightarrow> remove1 (last xs) xs = butlast xs"
  by (cases xs rule: rev_cases) (auto simp: remove1_append)

lemma Cache_Set_fresh:
  assumes "cache_inv c" and "ca_m c k = None"
  shows "cache_inv (Cache_Set now k v c) \<and>
         abs_Set (ca_cap c) (ca_ttl c) now k v (cache_abs c) = cache_abs (Cache_Set now k v c)"
proof -
  have wf: "cache_wf c" using assms by (simp add: cache_inv_def)
  let ?e = "\<lparr>en_key = k, en_val = v, en_expires = now + ca_ttl c\<rparr>"
  let ?c = "c\<lparr>ca_fresh := ca_fresh c + 1, ca_el := (ca_el c)(ca_fresh c \<mapsto> ?e),
     ca_ll := ca_fresh c # ca_ll c, ca_m := (ca_m c)(k \<mapsto> ca_fresh c)\<rparr>"
  have wf': "cache_wf ?c" using cache_wf_insert [OF wf, of ?e] assms(2) by simp
  have fresh: "ca_fresh c \<notin> set (ca_ll c)" using cache_wfD(2) [OF wf] by blast
  then have abs: "cache_abs ?c = ?e # cache_abs c" by (auto simp: cache_abs_def)
  have notin: "k \<notin> en_key ` set (cache_abs c)" using cache_m_None [OF wf] assms(2) by blast
  show ?thesis
  proof (cases "int (length (ca_ll ?c)) > ca_cap c")
    case True
    let ?lst = "last (ca_ll ?c)"
    have m: "ca_m ?c (en_key (the (ca_el ?c ?lst))) = Some ?lst"
      using cache_wfD(3) [OF wf', of _ ?lst] last_in_set [of "ca_ll ?c"] by simp
    have set: "Cache_Set now k v c = ?c\<lparr>ca_ll := remove1 ?lst (ca_ll ?c),
        ca_m := (ca_m ?c)(en_key (the (ca_el ?c ?lst)) := None)\<rparr>"
      using True assms(2) by (simp add: Cache_Set_def Let_def)
    have bl: "remove1 ?lst (ca_ll ?c) = butlast (ca_ll ?c)"
      by (rule last_remove1) (use cache_wfD(1) [OF wf'] in auto)
    have "cache_wf (Cache_Set now k v c)" using cache_wf_remove [OF wf' m] set by simp
    moreover have "cache_abs (Cache_Set now k v c) = butlast (cache_abs ?c)"
      unfolding set bl by (simp add: cache_abs_def map_butlast [symmetric])
    moreover have "length (ca_ll (Cache_Set now k v c)) = length (ca_ll c)"
      unfolding set bl by simp
    moreover have "ca_cap (Cache_Set now k v c) = ca_cap c" unfolding set by simp
    moreover have "length (cache_abs c) = length (ca_ll c)" by (simp add: cache_abs_def)
    ultimately show ?thesis
      using True notin abs assms(1) by (simp add: abs_Set_def Let_def cache_inv_def)
  next
    case False
    then have "Cache_Set now k v c = ?c" using assms(2) by (simp add: Cache_Set_def Let_def)
    with False wf' notin abs show ?thesis
      by (simp add: abs_Set_def Let_def cache_inv_def) (simp add: cache_abs_def)
  qed
qed

lemma Cache_Set_present:
  assumes "cache_inv c" and "ca_m c k = Some a"
  shows "cache_inv (Cache_Set now k v c) \<and>
         abs_Set (ca_cap c) (ca_ttl c) now k v (cache_abs c) = cache_abs (Cache_Set now k v c)"
proof -
  have wf: "cache_wf c" using assms by (simp add: cache_inv_def)
  let ?e = "\<lparr>en_key = k, en_val = v, en_expires = now + ca_ttl c\<rparr>"
  let ?c = "c\<lparr>ca_el := (ca_el c)(a \<mapsto> ?e)\<rparr>"
  have set: "Cache_Set now k v c = ?c\<lparr>ca_ll := a # remove1 a (ca_ll ?c)\<rparr>"
    using assms(2) by (simp add: Cache_Set_def Let_def)
  have a: "a \<in> set (ca_ll c)" "distinct (ca_ll c)" using cache_wfD [OF wf] assms(2) by blast+
  have wf': "cache_wf ?c" using cache_wf_overwrite [OF wf assms(2), of ?e] by simp
  have "cache_wf (Cache_Set now k v c)" unfolding set by (rule cache_wf_front [OF wf', of k]) (simp add: assms(2))
  moreover have "map (\<lambda>b. the (ca_el ?c b)) (remove1 a (ca_ll c)) = drop_key k (cache_abs c)"
  proof -
    have "a \<notin> set (remove1 a (ca_ll c))" using a by simp
    then have "map (\<lambda>b. the (ca_el ?c b)) (remove1 a (ca_ll c)) = map (\<lambda>b. the (ca_el c b)) (remove1 a (ca_ll c))"
      by (intro map_cong) auto
    with map_remove1_key [OF wf assms(2)] show ?thesis by simp
  qed
  moreover have "k \<in> en_key ` set (cache_abs c)" using cache_m_None [OF wf, of k] assms(2) by simp
  moreover have "length (ca_ll (Cache_Set now k v c)) = length (ca_ll c)"
    unfolding set using a length_pos_if_in_set [OF a(1)] by (simp add: length_remove1)
  moreover have "ca_cap (Cache_Set now k v c) = ca_cap c" unfolding set by simp
  ultimately show ?thesis
    using assms(1) set by (simp add: abs_Set_def Let_def cache_inv_def cache_abs_def)
qed

lemma Cache_Set_refines:
  "cache_inv c \<Longrightarrow> abs_Set (ca_cap c) (ca_ttl c) now k v (cache_abs c) = cache_abs (Cache_Set now k v c)"
  using Cache_Set_fresh Cache_Set_present by (cases "ca_m c k") blast+

lemma cache_inv_Set [gw_inv]: "cache_inv c \<Longrightarrow> cache_inv (Cache_Set now k v c)"
  using Cache_Set_fresh Cache_Set_present by (cases "ca_m c k") blast+

lemma Cache_Set_params: "ca_cap (Cache_Set now k v c) = ca_cap c \<and> ca_ttl (Cache_Set now k v c) = ca_ttl c"
  by (auto simp: Cache_Set_def Let_def split: option.split)

section \<open>Sequences of operations\<close>

datatype cache_op = CGet time string | CSet time string bytes

fun op_key :: "cache_op \<Rightarrow> string" where
  "op_key (CGet t k) = k"
| "op_key (CSet t k v) = k"

fun cache_exec :: "cache_op \<Rightarrow> Cache \<Rightarrow> bytes option \<times> Cache" where
  "cache_exec (CGet t k) c = Cache_Get t k c"
| "cache_exec (CSet t k v) c = (None, Cache_Set t k v c)"

fun abs_exec :: "int \<Rightarrow> duration \<Rightarrow> cache_op \<Rightarrow> entry list \<Rightarrow> bytes option \<times> entry list" where
  "abs_exec cap ttl (CGet t k) es = abs_Get t k es"
| "abs_exec cap ttl (CSet t k v) es = (None, abs_Set cap ttl t k v es)"

fun cache_run :: "cache_op list \<Rightarrow> Cache \<Rightarrow> bytes option list \<times> Cache" where
  "cache_run [] c = ([], c)"
| "cache_run (x # xs) c = (case cache_exec x c of (r, c1) \<Rightarrow>
     (case cache_run xs c1 of (rs, c2) \<Rightarrow> (r # rs, c2)))"

fun abs_run :: "int \<Rightarrow> duration \<Rightarrow> cache_op list \<Rightarrow> entry list \<Rightarrow> bytes option list \<times> entry list" where
  "abs_run cap ttl [] es = ([], es)"
| "abs_run cap ttl (x # xs) es = (case abs_exec cap ttl x es of (r, es1) \<Rightarrow>
     (case abs_run cap ttl xs es1 of (rs, es2) \<Rightarrow> (r # rs, es2)))"

lemma cache_exec_refines:
  assumes "cache_inv c"
  shows "abs_exec (ca_cap c) (ca_ttl c) x (cache_abs c) = (fst (cache_exec x c), cache_abs (snd (cache_exec x c))) \<and>
         cache_inv (snd (cache_exec x c)) \<and> ca_cap (snd (cache_exec x c)) = ca_cap c \<and>
         ca_ttl (snd (cache_exec x c)) = ca_ttl c"
proof (cases x)
  case (CGet t k)
  have "cache_wf c" using assms by (simp add: cache_inv_def)
  from Cache_Get_refines [OF this, of t k] cache_inv_Get [OF assms, of t k] CGet show ?thesis by simp
next
  case (CSet t k v)
  then show ?thesis
    using Cache_Set_refines [OF assms, of t k v] cache_inv_Set [OF assms] Cache_Set_params by simp
qed

lemma cache_run_refines:
  assumes "cache_inv c"
  shows "abs_run (ca_cap c) (ca_ttl c) xs (cache_abs c) = (fst (cache_run xs c), cache_abs (snd (cache_run xs c))) \<and>
         cache_inv (snd (cache_run xs c)) \<and> ca_cap (snd (cache_run xs c)) = ca_cap c \<and>
         ca_ttl (snd (cache_run xs c)) = ca_ttl c"
  using assms
proof (induction xs arbitrary: c)
  case (Cons x xs)
  obtain r c1 where x: "cache_exec x c = (r, c1)" by fastforce
  with cache_exec_refines [OF Cons.prems, of x]
  have c1: "abs_exec (ca_cap c) (ca_ttl c) x (cache_abs c) = (r, cache_abs c1)" "cache_inv c1"
    "ca_cap c1 = ca_cap c" "ca_ttl c1 = ca_ttl c" by auto
  with Cons.IH [of c1] x show ?case by (simp add: split_beta)
qed simp

lemma abs_run_append:
  "snd (abs_run cap ttl (xs @ ys) es) = snd (abs_run cap ttl ys (snd (abs_run cap ttl xs es)))"
  by (induction xs arbitrary: es) (simp_all add: split_beta)

section \<open>What a client may rely on\<close>

text \<open>
  The contract of a cache: what a lookup returns was stored under that key, and storing replaces
  what was there. So a property of everything that is ever stored is a property of every hit.
\<close>

locale lookaside_cache =
  fixes get :: "time \<Rightarrow> string \<Rightarrow> 'c \<Rightarrow> bytes option \<times> 'c"
    and put :: "time \<Rightarrow> string \<Rightarrow> bytes \<Rightarrow> 'c \<Rightarrow> 'c"
    and contents :: "'c \<Rightarrow> (string \<times> bytes) set"
    and store_inv :: "'c \<Rightarrow> bool"
  assumes inv_get: "store_inv c \<Longrightarrow> store_inv (snd (get t k c))"
    and inv_put: "store_inv c \<Longrightarrow> store_inv (put t k v c)"
    and get_hit: "store_inv c \<Longrightarrow> fst (get t k c) = Some v \<Longrightarrow> (k, v) \<in> contents c"
    and get_contents: "store_inv c \<Longrightarrow> contents (snd (get t k c)) \<subseteq> contents c"
    and put_contents: "store_inv c \<Longrightarrow> contents (put t k v c) \<subseteq> insert (k, v) (contents c - {k} \<times> UNIV)"
begin

lemma all_stored_get:
  "store_inv c \<Longrightarrow> \<forall>(k, v) \<in> contents c. P k v \<Longrightarrow> \<forall>(k, v) \<in> contents (snd (get t k' c)). P k v"
  using get_contents by blast

lemma all_stored_put:
  "store_inv c \<Longrightarrow> \<forall>(k, v) \<in> contents c. P k v \<Longrightarrow> P k' v' \<Longrightarrow> \<forall>(k, v) \<in> contents (put t k' v' c). P k v"
  using put_contents by fast

lemma hit_stored:
  "store_inv c \<Longrightarrow> \<forall>(k, v) \<in> contents c. P k v \<Longrightarrow> fst (get t k' c) = Some v' \<Longrightarrow> P k' v'"
  using get_hit by blast

end

definition cache_contents :: "Cache \<Rightarrow> (string \<times> bytes) set" where
  "cache_contents c = (\<lambda>e. (en_key e, en_val e)) ` set (cache_abs c)"

lemma set_drop_key: "set (drop_key k es) = {e \<in> set es. en_key e \<noteq> k}"
  by (auto simp: drop_key_def)

lemma abs_Get_subset:
  assumes "abs_Get now k es = (r, es')"
  shows "set es' \<subseteq> set es \<and>
    (\<forall>v. r = Some v \<longrightarrow> (\<exists>e \<in> set es. en_key e = k \<and> en_val e = v \<and> now < en_expires e))"
  using assms by (auto simp: abs_Get_def set_drop_key find_Some_iff split: option.splits if_splits)

lemma abs_Set_subset:
  "set (abs_Set cap ttl now k v es) \<subseteq>
     insert \<lparr>en_key = k, en_val = v, en_expires = now + ttl\<rparr> {e \<in> set es. en_key e \<noteq> k}"
  by (auto simp: abs_Set_def Let_def set_drop_key dest: in_set_butlastD split: if_splits)

interpretation lru_store: lookaside_cache Cache_Get Cache_Set cache_contents cache_inv
proof unfold_locales
  fix c :: Cache and t k v assume inv: "cache_inv c"
  then have wf: "cache_wf c" by (simp add: cache_inv_def)
  have g: "abs_Get t k (cache_abs c) = (fst (Cache_Get t k c), cache_abs (snd (Cache_Get t k c)))"
    by (rule Cache_Get_refines [OF wf])
  show "cache_inv (snd (Cache_Get t k c))" using cache_inv_Get [OF inv] by blast
  show "cache_inv (Cache_Set t k v c)" by (rule cache_inv_Set [OF inv])
  show "cache_contents (snd (Cache_Get t k c)) \<subseteq> cache_contents c"
    using abs_Get_subset [OF g] by (auto simp: cache_contents_def)
  show "cache_contents (Cache_Set t k v c) \<subseteq> insert (k, v) (cache_contents c - {k} \<times> UNIV)"
  proof -
    have "set (cache_abs (Cache_Set t k v c)) \<subseteq>
        insert \<lparr>en_key = k, en_val = v, en_expires = t + ca_ttl c\<rparr> {e \<in> set (cache_abs c). en_key e \<noteq> k}"
      using abs_Set_subset [of "ca_cap c" "ca_ttl c" t k v "cache_abs c"] Cache_Set_refines [OF inv, of t k v]
      by simp
    note in_new = subsetD [OF this]
    have "(en_key e, en_val e) \<in> insert (k, v) ((\<lambda>e. (en_key e, en_val e)) ` set (cache_abs c) - {k} \<times> UNIV)"
      if "e \<in> set (cache_abs (Cache_Set t k v c))" for e using in_new [OF that] by auto
    then show ?thesis unfolding cache_contents_def by (rule image_subsetI)
  qed
  show "(k, v) \<in> cache_contents c" if "fst (Cache_Get t k c) = Some v"
    using abs_Get_subset [OF g] that by (force simp: cache_contents_def)
qed

section \<open>Properties\<close>

text \<open>C22: the linked list and the index map together implement the abstract recency list: any
  sequence of gets and sets on a new cache gives the same answers, and leaves the same entries in
  the same order, as the list of entries alone.\<close>

theorem Cache_refines_recency_list:
  "fst (cache_run xs (Cache_New cap ttl)) = fst (abs_run cap ttl xs []) \<and>
   cache_abs (snd (cache_run xs (Cache_New cap ttl))) = snd (abs_run cap ttl xs [])"
  using cache_run_refines [OF cache_inv_New, of cap ttl xs] by simp

text \<open>The cache never holds more than its capacity, whatever is stored in it.\<close>

theorem Cache_bounded: "int (Cache_Len (snd (cache_run xs (Cache_New cap ttl)))) \<le> max cap 0"
proof -
  let ?c = "snd (cache_run xs (Cache_New cap ttl))"
  have "cache_inv ?c" "ca_cap ?c = cap" using cache_run_refines [OF cache_inv_New, of cap ttl xs] by auto
  then show ?thesis by (simp add: cache_inv_def Cache_Len_def)
qed

lemma abs_run_entries:
  assumes "e \<in> set (snd (abs_run cap ttl xs []))"
  shows "\<exists>us t ys. xs = us @ CSet t (en_key e) (en_val e) # ys \<and> en_expires e = t + ttl \<and>
           (\<forall>t' v'. CSet t' (en_key e) v' \<notin> set ys)"
  using assms
proof (induction xs arbitrary: e rule: rev_induct)
  case (snoc x xs)
  let ?es = "snd (abs_run cap ttl xs [])"
  have run: "snd (abs_run cap ttl (xs @ [x]) []) = snd (abs_exec cap ttl x ?es)"
    by (simp add: abs_run_append split_beta)
  have old: ?case if "e \<in> set ?es" "\<forall>t' v'. x \<noteq> CSet t' (en_key e) v'"
  proof -
    from snoc.IH [OF that(1)] obtain us t ys where "xs = us @ CSet t (en_key e) (en_val e) # ys"
      "en_expires e = t + ttl" "\<forall>t' v'. CSet t' (en_key e) v' \<notin> set ys" by blast
    with that(2) show ?thesis by (intro exI [of _ us] exI [of _ t] exI [of _ "ys @ [x]"]) auto
  qed
  show ?case
  proof (cases x)
    case (CGet t k)
    obtain r es' where g: "abs_Get t k ?es = (r, es')" by fastforce
    with CGet snoc.prems run have "e \<in> set es'" by simp
    then have "e \<in> set ?es" using abs_Get_subset [OF g] by blast
    with CGet show ?thesis by (intro old) simp_all
  next
    case (CSet t k v)
    have "e \<in> insert \<lparr>en_key = k, en_val = v, en_expires = t + ttl\<rparr> {e \<in> set ?es. en_key e \<noteq> k}"
      using snoc.prems run CSet abs_Set_subset [of cap ttl t k v ?es] by auto
    then show ?thesis
    proof
      assume "e = \<lparr>en_key = k, en_val = v, en_expires = t + ttl\<rparr>"
      with CSet show ?thesis by (intro exI [of _ xs] exI [of _ t] exI [of _ "[]"]) simp
    next
      assume "e \<in> {e \<in> set ?es. en_key e \<noteq> k}"
      with CSet show ?thesis by (intro old) auto
    qed
  qed
qed simp

text \<open>A hit is the last word. If a lookup at time \<open>t\<close> returns a value, the most recent store under
  that key stored exactly this value, less than \<open>ttl\<close> before \<open>t\<close>.\<close>

theorem Cache_hit_is_last_set:
  assumes "fst (Cache_Get t k (snd (cache_run xs (Cache_New cap ttl)))) = Some v"
  shows "\<exists>us t0 ys. xs = us @ CSet t0 k v # ys \<and> (\<forall>t' v'. CSet t' k v' \<notin> set ys) \<and> t < t0 + ttl"
proof -
  let ?c = "snd (cache_run xs (Cache_New cap ttl))"
  have "cache_wf ?c" using cache_run_refines [OF cache_inv_New, of cap ttl xs] by (simp add: cache_inv_def)
  from abs_Get_subset [OF Cache_Get_refines [OF this, of t k]] assms
  obtain e where e: "e \<in> set (cache_abs ?c)" "en_key e = k" "en_val e = v" "t < en_expires e" by auto
  have "cache_abs ?c = snd (abs_run cap ttl xs [])"
    using cache_run_refines [OF cache_inv_New, of cap ttl xs] by simp
  with e(1) abs_run_entries [of e cap ttl xs] obtain us t0 ys
    where "xs = us @ CSet t0 (en_key e) (en_val e) # ys" "en_expires e = t0 + ttl"
      "\<forall>t' v'. CSet t' (en_key e) v' \<notin> set ys" by auto
  with e show ?thesis by (intro exI [of _ us] exI [of _ t0] exI [of _ ys]) simp
qed

theorem Cache_hit_is_last_set_witness:
  "\<exists>us t0 ys. [CSet 0 ''k'' [1], CSet 5 ''k'' [2], CGet 6 ''j''] = us @ CSet t0 ''k'' [2] # ys \<and> 9 < t0 + 10"
proof -
  have "fst (Cache_Get 9 ''k'' (snd (cache_run [CSet 0 ''k'' [1], CSet 5 ''k'' [2], CGet 6 ''j'']
      (Cache_New 2 10)))) = Some [2]"
    by (simp add: Cache_Get_def Cache_Set_def Cache_New_def Let_def)
  from Cache_hit_is_last_set [OF this] show ?thesis by blast
qed

text \<open>
  Least recently used means: an entry is only evicted by traffic on at least \<open>cap\<close> other keys. In the
  list, what stands before an entry has been touched since the entry was.
\<close>

definition kept :: "entry \<Rightarrow> string set \<Rightarrow> entry list \<Rightarrow> bool" where
  "kept e T es \<longleftrightarrow> distinct (map en_key es) \<and>
     (\<exists>pre post. es = pre @ e # post \<and> en_key ` set pre \<subseteq> T)"

lemma distinct_drop_key: "distinct (map en_key es) \<Longrightarrow> distinct (map en_key (drop_key k es))"
  by (simp add: drop_key_def distinct_map inj_on_def)

lemma kept_drop:
  assumes "kept e T es" and "k \<noteq> en_key e"
  shows "kept e T (drop_key k es)"
proof -
  obtain pre post where "es = pre @ e # post" "en_key ` set pre \<subseteq> T" using assms by (auto simp: kept_def)
  then have "drop_key k es = drop_key k pre @ e # drop_key k post" "en_key ` set (drop_key k pre) \<subseteq> T"
    using assms(2) by (auto simp: drop_key_def)
  with assms(1) distinct_drop_key show ?thesis unfolding kept_def by blast
qed

lemma kept_Cons:
  assumes "kept e T es" and "en_key a \<in> T" and "en_key a \<notin> en_key ` set es"
  shows "kept e T (a # es)"
proof -
  obtain pre post where "es = pre @ e # post" "en_key ` set pre \<subseteq> T" using assms by (auto simp: kept_def)
  then have "a # es = (a # pre) @ e # post" "en_key ` set (a # pre) \<subseteq> T" using assms(2) by auto
  with assms show ?thesis unfolding kept_def by (metis distinct.simps(2) image_set list.simps(9))
qed

lemma kept_butlast:
  assumes "kept e T es" and "finite T" and "int (card T) < cap" and "cap < int (length es)"
  shows "kept e T (butlast es)"
proof -
  obtain pre post where es: "es = pre @ e # post" "en_key ` set pre \<subseteq> T" "distinct (map en_key es)"
    using assms(1) by (auto simp: kept_def)
  then have "length pre = card (en_key ` set pre)" using distinct_card [of "map en_key pre"] by simp
  also have "\<dots> \<le> card T" using es(2) assms(2) by (simp add: card_mono)
  finally have "post \<noteq> []" using assms(3,4) es(1) by auto
  then have "butlast es = pre @ e # butlast post" using es(1) by (simp add: butlast_append)
  moreover have "distinct (map en_key (butlast es))" using es(3) by (simp add: map_butlast distinct_butlast)
  ultimately show ?thesis using es(2) unfolding kept_def by blast
qed

lemma kept_step:
  assumes "kept e T es" and "op_key x \<in> T" and "op_key x \<noteq> en_key e" and "finite T" and "int (card T) < cap"
  shows "kept e T (snd (abs_exec cap ttl x es))"
proof (cases x)
  case (CGet t k)
  have "kept e T (f # drop_key k es)" if "find (\<lambda>e. en_key e = k) es = Some f" for f
    using that assms CGet by (intro kept_Cons kept_drop) (auto simp: find_Some_iff set_drop_key)
  with assms CGet show ?thesis by (auto simp: abs_Get_def intro: kept_drop split: option.split)
next
  case (CSet t k v)
  let ?f = "\<lparr>en_key = k, en_val = v, en_expires = t + ttl\<rparr>"
  have "kept e T (?f # drop_key k es)"
    using assms CSet by (intro kept_Cons kept_drop) (auto simp: set_drop_key)
  moreover have "kept e T (?f # es)" if "k \<notin> en_key ` set es"
    using that assms CSet by (intro kept_Cons) auto
  moreover have "kept e T (butlast (?f # es))" if "k \<notin> en_key ` set es" "cap < int (length es) + 1"
    using that assms CSet by (intro kept_butlast kept_Cons) auto
  ultimately show ?thesis using CSet by (simp add: abs_Set_def Let_def)
qed

lemma kept_run:
  assumes "kept e T es" and "op_key ` set xs \<subseteq> T - {en_key e}" and "finite T" and "int (card T) < cap"
  shows "kept e T (snd (abs_run cap ttl xs es))"
  using assms(1,2)
proof (induction xs arbitrary: es)
  case (Cons x xs)
  then have "kept e T (snd (abs_exec cap ttl x es))" using assms by (intro kept_step) auto
  from Cons.IH [OF this] Cons.prems show ?case by (simp add: split_beta)
qed simp

lemma kept_after_Set:
  assumes "distinct (map en_key es)" and "1 \<le> cap"
  shows "kept \<lparr>en_key = k, en_val = v, en_expires = t + ttl\<rparr> T (abs_Set cap ttl t k v es)"
proof -
  let ?e = "\<lparr>en_key = k, en_val = v, en_expires = t + ttl\<rparr>"
  have front: "kept ?e T (?e # es')" if "distinct (map en_key es')" "k \<notin> en_key ` set es'" for es'
    using that unfolding kept_def by (intro conjI exI [of _ "[]"] exI [of _ es']) simp_all
  have "es \<noteq> []" if "cap < int (length es) + 1" using that assms(2) by auto
  then have "butlast (?e # es) = ?e # butlast es" if "cap < int (length es) + 1" using that by simp
  moreover have "kept ?e T (?e # butlast es)" if "k \<notin> en_key ` set es"
    using that assms(1) by (intro front) (auto simp: map_butlast distinct_butlast dest: in_set_butlastD)
  moreover have "kept ?e T (?e # drop_key k es)"
    using assms(1) by (intro front distinct_drop_key) (auto simp: set_drop_key)
  ultimately show ?thesis using front assms(1) by (simp add: abs_Set_def Let_def)
qed

lemma kept_Get:
  assumes "kept e T es" and "t < en_expires e"
  shows "fst (abs_Get t (en_key e) es) = Some (en_val e)"
proof -
  have "e \<in> set es" "distinct (map en_key es)" using assms by (auto simp: kept_def)
  moreover from this have "find (\<lambda>f. en_key f = en_key e) es = Some e"
    by (induction es) auto
  ultimately show ?thesis using assms(2) by (simp add: abs_Get_def)
qed

text \<open>C23: what was stored stays, until it expires, unless enough else is touched. After a store of \<open>v\<close>
  under \<open>k\<close>, any number of operations on fewer than \<open>cap\<close> other keys cannot evict it: a lookup
  within the time to live returns \<open>v\<close>.\<close>

theorem Cache_lru_retains:
  assumes "cache_inv c" and "\<forall>x \<in> set xs. op_key x \<noteq> k"
    and "int (card (op_key ` set xs)) < ca_cap c" and "t' < t + ca_ttl c"
  shows "fst (Cache_Get t' k (snd (cache_run xs (Cache_Set t k v c)))) = Some v"
proof -
  let ?c = "Cache_Set t k v c" and ?T = "op_key ` set xs"
  let ?e = "\<lparr>en_key = k, en_val = v, en_expires = t + ca_ttl c\<rparr>"
  have wf: "cache_wf c" using assms(1) by (simp add: cache_inv_def)
  have run: "cache_abs (snd (cache_run xs ?c)) = snd (abs_run (ca_cap c) (ca_ttl c) xs (cache_abs ?c))"
    "cache_wf (snd (cache_run xs ?c))"
    using cache_run_refines [OF cache_inv_Set [OF assms(1), of t k v], of xs] Cache_Set_params [of t k v c]
    by (auto simp: cache_inv_def)
  have "kept ?e ?T (cache_abs ?c)"
    using kept_after_Set [OF cache_abs_distinct [OF wf], of "ca_cap c" k v t "ca_ttl c" ?T] assms(3)
      Cache_Set_refines [OF assms(1), of t k v] by simp
  then have "kept ?e ?T (cache_abs (snd (cache_run xs ?c)))"
    unfolding run(1) using assms(2,3) by (intro kept_run) auto
  from kept_Get [OF this, of t'] assms(4) Cache_Get_refines [OF run(2), of t' k] show ?thesis by simp
qed

theorem Cache_lru_retains_witness:
  "fst (Cache_Get 9 ''k'' (snd (cache_run [CSet 1 ''a'' [7], CGet 2 ''a'', CSet 3 ''a'' [8]]
     (Cache_Set 0 ''k'' [1] (Cache_New 2 10))))) = Some [1]"
  by (rule Cache_lru_retains [OF cache_inv_New]) (simp_all add: Cache_New_def)

end
