(* ===== verification/Metrics.thy ===== *)
theory Metrics
  imports Complex_Main Prelude "HOL-Library.List_Lexorder" "HOL-Library.Char_ord"
begin

text \<open>
  The Prometheus registry of \<^verbatim>\<open>internal/metrics/metrics.go\<close>: values keyed by name and labels, help
  texts keyed by family, and the text exposition. \<^verbatim>\<open>%q\<close> quoting, \<^verbatim>\<open>%g\<close> formatting and the rounding of
  floating-point sums are parameters. A set of labels is a list of distinct names with values; a
  Go map is an association list whose first entry for a key counts.
\<close>

record Fmt =
  fm_quote :: "string \<Rightarrow> string"
  fm_g :: "rat \<Rightarrow> string"
  fm_rnd :: "rat \<Rightarrow> rat"

record Registry =
  rg_vals :: "(string \<times> rat) list"
  rg_help :: "(string \<times> string) list"

definition Registry_New :: Registry where
  "Registry_New = \<lparr>rg_vals = [], rg_help = []\<rparr>"

type_synonym labels = "(string \<times> string) list"

fun strings_Join :: "string list \<Rightarrow> string \<Rightarrow> string" where
  "strings_Join [] sep = []"
| "strings_Join [s] sep = s"
| "strings_Join (s # t # ss) sep = s @ sep @ strings_Join (t # ss) sep"

definition series_key :: "Fmt \<Rightarrow> string \<Rightarrow> labels \<Rightarrow> string" where
  "series_key F name labels =
     (if labels = [] then name
      else let ks = sort (map fst labels);
               parts = map (\<lambda>k. k @ ''='' @ fm_quote F (the (map_of labels k))) ks
           in name @ ''{'' @ strings_Join parts '','' @ ''}'')"

definition map_put :: "'k \<Rightarrow> 'v \<Rightarrow> ('k \<times> 'v) list \<Rightarrow> ('k \<times> 'v) list" where
  "map_put k v m = (k, v) # filter (\<lambda>(k', v'). k' \<noteq> k) m"

definition map_get :: "'v \<Rightarrow> 'k \<Rightarrow> ('k \<times> 'v) list \<Rightarrow> 'v" where
  "map_get z k m = (case map_of m k of None \<Rightarrow> z | Some v \<Rightarrow> v)"

definition Registry_Describe :: "string \<Rightarrow> string \<Rightarrow> Registry \<Rightarrow> Registry" where
  "Registry_Describe name help r = r\<lparr>rg_help := map_put name help (rg_help r)\<rparr>"

definition Registry_Add :: "Fmt \<Rightarrow> string \<Rightarrow> labels \<Rightarrow> rat \<Rightarrow> Registry \<Rightarrow> Registry" where
  "Registry_Add F name labels v r =
     (let k = series_key F name labels in
      r\<lparr>rg_vals := map_put k (fm_rnd F (map_get 0 k (rg_vals r) + v)) (rg_vals r)\<rparr>)"

definition Registry_Inc :: "Fmt \<Rightarrow> string \<Rightarrow> labels \<Rightarrow> Registry \<Rightarrow> Registry" where
  "Registry_Inc F name labels r = Registry_Add F name labels 1 r"

definition Registry_Set :: "Fmt \<Rightarrow> string \<Rightarrow> labels \<Rightarrow> rat \<Rightarrow> Registry \<Rightarrow> Registry" where
  "Registry_Set F name labels v r = r\<lparr>rg_vals := map_put (series_key F name labels) v (rg_vals r)\<rparr>"

definition Registry_Value :: "Fmt \<Rightarrow> string \<Rightarrow> labels \<Rightarrow> Registry \<Rightarrow> rat" where
  "Registry_Value F name labels r = map_get 0 (series_key F name labels) (rg_vals r)"

text \<open>The family of a series is its name up to the first brace.\<close>

definition family :: "string \<Rightarrow> string" where
  "family k = takeWhile (\<lambda>c. c \<noteq> CHR ''{'') k"

fun write_series :: "Fmt \<Rightarrow> Registry \<Rightarrow> string list \<Rightarrow> string list \<Rightarrow> string" where
  "write_series F r seen [] = []"
| "write_series F r seen (k # ks) =
     (let fam = family k;
          line = k @ '' '' @ fm_g F (map_get 0 k (rg_vals r)) @ ''\<newline>''
      in case map_of (rg_help r) fam of
           Some h \<Rightarrow>
             if fam \<notin> set seen
             then ''# HELP '' @ fam @ '' '' @ h @ ''\<newline>'' @ line @ write_series F r (fam # seen) ks
             else line @ write_series F r seen ks
         | None \<Rightarrow> line @ write_series F r seen ks)"

definition Registry_Write :: "Fmt \<Rightarrow> Registry \<Rightarrow> string" where
  "Registry_Write F r = write_series F r [] (sort (map fst (rg_vals r)))"

section \<open>Lemmas\<close>

definition registry_inv :: "Registry \<Rightarrow> bool" where
  "registry_inv r \<longleftrightarrow> distinct (map fst (rg_vals r)) \<and> distinct (map fst (rg_help r))"

lemma map_get_put [simp]: "map_get z k (map_put k' v m) = (if k = k' then v else map_get z k m)"
  unfolding map_get_def map_put_def
  by (induction m) (auto simp: map_get_def)

lemma distinct_map_put: "distinct (map fst m) \<Longrightarrow> distinct (map fst (map_put k v m))"
  by (induction m) (auto simp: map_put_def)

lemma registry_inv_ops [gw_inv]:
  "registry_inv Registry_New"
  "registry_inv r \<Longrightarrow> registry_inv (Registry_Describe n h r)"
  "registry_inv r \<Longrightarrow> registry_inv (Registry_Add F n ls v r)"
  "registry_inv r \<Longrightarrow> registry_inv (Registry_Inc F n ls r)"
  "registry_inv r \<Longrightarrow> registry_inv (Registry_Set F n ls v r)"
  by (simp_all add: registry_inv_def Registry_New_def Registry_Describe_def Registry_Inc_def Registry_Add_def Registry_Set_def
      Let_def distinct_map_put)

lemma Value_Add:
  "Registry_Value F n ls (Registry_Add F n' ls' v r) =
     (if series_key F n ls = series_key F n' ls' then fm_rnd F (Registry_Value F n' ls' r + v) else Registry_Value F n ls r)"
  by (simp add: Registry_Value_def Registry_Add_def Let_def)

end
