(* ===== verification/Breaker.thy ===== *)
theory Breaker
  imports Prelude
begin

text \<open>
  The circuit breaker of \<^verbatim>\<open>internal/breaker/breaker.go\<close>: closed, open and half-open, tripped by
  \<open>threshold\<close> consecutive failures and probed again after \<open>cooldown\<close>. Each method runs under the
  breaker's mutex, so it is one atomic state transformer; the clock reading it makes is an
  argument. Calls that overlap are covered by running the methods in an arbitrary interleaving
  (\<open>breaker_run\<close>, and the step relation \<open>breaker_step\<close>).

  The locale \<open>call_gate\<close> at the end is what a client (the endpoint pool) relies on.
\<close>

section \<open>State and operations\<close>

datatype State = Closed | Open | HalfOpen

fun State_String :: "State \<Rightarrow> string" where
  "State_String Closed = ''closed''"
| "State_String Open = ''open''"
| "State_String HalfOpen = ''half-open''"

record Breaker =
  br_threshold :: int
  br_cooldown :: duration
  br_failures :: int
  br_state :: State
  br_openedAt :: time
  br_probing :: bool

text \<open>The zero \<^verbatim>\<open>openedAt\<close> of a new breaker is never read: only an open breaker looks at it.\<close>

definition Breaker_New :: "int \<Rightarrow> duration \<Rightarrow> Breaker" where
  "Breaker_New th cd = \<lparr>br_threshold = th, br_cooldown = cd, br_failures = 0, br_state = Closed,
     br_openedAt = 0, br_probing = False\<rparr>"

definition Breaker_Allow :: "time \<Rightarrow> Breaker \<Rightarrow> bool \<times> Breaker" where
  "Breaker_Allow now b = (case br_state b of
     Open \<Rightarrow> if time_Sub now (br_openedAt b) < br_cooldown b then (False, b)
             else (True, b\<lparr>br_state := HalfOpen, br_probing := True\<rparr>)
   | HalfOpen \<Rightarrow> if br_probing b then (False, b) else (True, b\<lparr>br_probing := True\<rparr>)
   | Closed \<Rightarrow> (True, b))"

definition Breaker_Success :: "Breaker \<Rightarrow> Breaker" where
  "Breaker_Success b = b\<lparr>br_failures := 0, br_state := Closed, br_probing := False\<rparr>"

definition Breaker_Failure :: "time \<Rightarrow> Breaker \<Rightarrow> Breaker" where
  "Breaker_Failure now b =
     (let b' = b\<lparr>br_failures := wrap64 (br_failures b + 1), br_probing := False\<rparr>
      in if br_state b' = HalfOpen \<or> br_failures b' \<ge> br_threshold b'
         then b'\<lparr>br_state := Open, br_openedAt := now\<rparr> else b')"

definition Breaker_State :: "Breaker \<Rightarrow> State" where
  "Breaker_State b = br_state b"

lemmas breaker_defs [gw_defs] =
  Breaker_New_def Breaker_Allow_def Breaker_Success_def Breaker_Failure_def Breaker_State_def

section \<open>Interleavings of callers\<close>

text \<open>
  Callers share the breaker. What it sees is a sequence of method calls in lock order, from any
  number of goroutines; the answers to \<^verbatim>\<open>Allow\<close> are recorded.
\<close>

datatype breaker_call = CAllow time | CSuccess | CFailure time

fun breaker_exec :: "breaker_call \<Rightarrow> Breaker \<Rightarrow> bool \<times> Breaker" where
  "breaker_exec (CAllow t) b = Breaker_Allow t b"
| "breaker_exec CSuccess b = (False, Breaker_Success b)"
| "breaker_exec (CFailure t) b = (False, Breaker_Failure t b)"

text \<open>The number of admitted calls of a sequence, and the final state.\<close>

fun breaker_run :: "breaker_call list \<Rightarrow> Breaker \<Rightarrow> nat \<times> Breaker" where
  "breaker_run [] b = (0, b)"
| "breaker_run (c # cs) b =
     (case breaker_exec c b of (ok, b') \<Rightarrow>
        (case breaker_run cs b' of (n, b'') \<Rightarrow> ((if ok then 1 else 0) + n, b'')))"

inductive breaker_step :: "Breaker \<Rightarrow> Breaker \<Rightarrow> bool" where
  step_allow: "Breaker_Allow t b = (ok, b') \<Longrightarrow> breaker_step b b'"
| step_success: "breaker_step b (Breaker_Success b)"
| step_failure: "breaker_step b (Breaker_Failure t b)"

inductive breaker_reach :: "int \<Rightarrow> duration \<Rightarrow> Breaker \<Rightarrow> bool" for th cd where
  reach_new: "breaker_reach th cd (Breaker_New th cd)"
| reach_step: "breaker_reach th cd b \<Longrightarrow> breaker_step b b' \<Longrightarrow> breaker_reach th cd b'"

inductive_cases breaker_stepE: "breaker_step b b'"

section \<open>The invariant\<close>

text \<open>
  A probe is in flight exactly in the half-open state, and a closed breaker has counted fewer
  than \<open>threshold\<close> failures since its last success (none when \<open>threshold\<close> is not positive).
\<close>

definition breaker_inv :: "Breaker \<Rightarrow> bool" where
  "breaker_inv b \<longleftrightarrow>
     (br_state b = HalfOpen \<longleftrightarrow> br_probing b) \<and>
     (br_state b = Closed \<longrightarrow> 0 \<le> br_failures b \<and>
        (br_failures b < br_threshold b \<or> br_failures b = 0)) \<and>
     br_threshold b \<le> maxInt64"

lemma breaker_inv_New [gw_inv]: "th \<le> maxInt64 \<Longrightarrow> breaker_inv (Breaker_New th cd)"
  by (simp add: breaker_inv_def breaker_defs)

lemma breaker_inv_Allow [gw_inv]:
  "breaker_inv b \<Longrightarrow> Breaker_Allow t b = (ok, b') \<Longrightarrow> breaker_inv b'"
  by (auto simp: breaker_inv_def Breaker_Allow_def split: State.splits if_splits)

lemma breaker_inv_Success [gw_inv]: "breaker_inv b \<Longrightarrow> breaker_inv (Breaker_Success b)"
  by (simp add: breaker_inv_def Breaker_Success_def)

lemma wrap64_Suc_range: "minInt64 \<le> x \<Longrightarrow> x < maxInt64 \<Longrightarrow> wrap64 (x + 1) = x + 1"
  by simp

lemma breaker_inv_Failure [gw_inv]:
  assumes "breaker_inv b"
  shows "breaker_inv (Breaker_Failure t b)"
proof (cases "br_state b = Closed \<and> \<not> br_threshold b \<le> wrap64 (br_failures b + 1)")
  case True
  with assms have "0 \<le> br_failures b" and "br_failures b < br_threshold b \<or> br_failures b = 0"
    and th: "br_threshold b \<le> maxInt64"
    by (auto simp: breaker_inv_def)
  then have "br_failures b < maxInt64" by (auto simp: maxInt64_def)
  with \<open>0 \<le> br_failures b\<close> have "wrap64 (br_failures b + 1) = br_failures b + 1"
    by (simp add: minInt64_def)
  with True assms \<open>0 \<le> br_failures b\<close> show ?thesis
    by (auto simp: breaker_inv_def Breaker_Failure_def Let_def)
next
  case False
  with assms show ?thesis
    by (cases "br_state b") (auto simp: breaker_inv_def Breaker_Failure_def Let_def)
qed

lemma breaker_inv_step: "breaker_step b b' \<Longrightarrow> breaker_inv b \<Longrightarrow> breaker_inv b'"
  by (induction rule: breaker_step.induct) (auto intro: gw_inv)

lemma breaker_params_step:
  "breaker_step b b' \<Longrightarrow> br_threshold b' = br_threshold b \<and> br_cooldown b' = br_cooldown b"
  by (induction rule: breaker_step.induct)
     (auto simp: breaker_defs Let_def split: State.splits if_splits)

section \<open>What a client may rely on\<close>

text \<open>
  The contract of a gate: its invariant is kept by every method, a refusal changes nothing, and a
  success admits the next caller at once. The lemma about one guarded attempt is what the pool's
  failover loop needs of the breaker of an endpoint.
\<close>

locale call_gate =
  fixes allow :: "time \<Rightarrow> 'b \<Rightarrow> bool \<times> 'b"
    and success :: "'b \<Rightarrow> 'b"
    and failure :: "time \<Rightarrow> 'b \<Rightarrow> 'b"
    and gate_inv :: "'b \<Rightarrow> bool"
  assumes inv_allow: "gate_inv b \<Longrightarrow> allow t b = (ok, b') \<Longrightarrow> gate_inv b'"
    and inv_success: "gate_inv b \<Longrightarrow> gate_inv (success b)"
    and inv_failure: "gate_inv b \<Longrightarrow> gate_inv (failure t b)"
    and refusal_keeps: "allow t b = (False, b') \<Longrightarrow> b' = b"
    and success_admits: "allow t (success b) = (True, success b)"
begin

lemma guarded_attempt_inv:
  assumes "gate_inv b"
  shows "gate_inv (case allow t b of (ok, b') \<Rightarrow>
           if ok then (if r then success b' else failure t' b') else b')"
  using assms by (auto split: prod.split intro: inv_allow inv_success inv_failure)

lemma admitted_after_success:
  "fst (allow t (success b)) \<and> gate_inv b \<longrightarrow> gate_inv (snd (allow t (success b)))"
  by (simp add: success_admits inv_success)

end

interpretation breaker_gate: call_gate Breaker_Allow Breaker_Success Breaker_Failure breaker_inv
proof unfold_locales
  show "Breaker_Allow t b = (False, b') \<Longrightarrow> b' = b" for t b b'
    by (auto simp: Breaker_Allow_def split: State.splits if_splits)
  show "Breaker_Allow t (Breaker_Success b) = (True, Breaker_Success b)" for t b
    by (simp add: breaker_defs)
qed (auto intro: gw_inv)

section \<open>Properties\<close>

lemma breaker_reach_inv_params:
  assumes "breaker_reach th cd b" and "th \<le> maxInt64"
  shows "breaker_inv b \<and> br_threshold b = th \<and> br_cooldown b = cd"
  using assms
proof (induction rule: breaker_reach.induct)
  case reach_new
  then show ?case using breaker_inv_New by (simp add: Breaker_New_def)
next
  case (reach_step b b')
  then show ?case using breaker_inv_step breaker_params_step by metis
qed

lemma allow_refuses_half_open:
  "breaker_inv b \<Longrightarrow> br_state b = HalfOpen \<Longrightarrow> Breaker_Allow t b = (False, b)"
  by (simp add: breaker_inv_def Breaker_Allow_def)

text \<open>C17: in every reachable state of the breaker, whatever the interleaving of its callers, a
  probe is in flight exactly when the state is half-open (so the re-probe branch of \<^verbatim>\<open>Allow\<close> is
  never taken), and a closed breaker has seen fewer than \<open>threshold\<close> failures since its last
  success.\<close>

theorem breaker_reachable_inv:
  assumes "breaker_reach th cd b" and "th \<le> maxInt64"
  shows "(br_state b = HalfOpen \<longleftrightarrow> br_probing b) \<and>
         (br_state b = Closed \<longrightarrow> 0 \<le> br_failures b \<and> (br_failures b < th \<or> br_failures b = 0))"
  using breaker_reach_inv_params [OF assms] by (auto simp: breaker_inv_def)

theorem breaker_reachable_inv_witness:
  "br_state (Breaker_Failure 7 (Breaker_New 3 10)) = Closed \<and>
   0 \<le> br_failures (Breaker_Failure 7 (Breaker_New 3 10))"
proof -
  have "breaker_reach 3 10 (Breaker_Failure 7 (Breaker_New 3 10))"
    by (rule breaker_reach.reach_step [OF breaker_reach.reach_new]) (rule breaker_step.step_failure)
  from breaker_reachable_inv [OF this] show ?thesis
    by (simp add: breaker_defs maxInt64_def wrap64_def)
qed

text \<open>The exact admission rule of a reachable breaker: a call is admitted iff the breaker is
  closed, or it is open and at least \<open>cooldown\<close> has passed since it opened; and an admission from
  the open state starts the half-open probe.\<close>

theorem breaker_allow_iff:
  assumes "breaker_reach th cd b" and "th \<le> maxInt64" and "cd \<le> maxInt64" and "minInt64 < cd"
  shows "(fst (Breaker_Allow t b) \<longleftrightarrow>
           br_state b = Closed \<or> (br_state b = Open \<and> cd \<le> t - br_openedAt b)) \<and>
         (fst (Breaker_Allow t b) \<and> br_state b = Open \<longrightarrow>
           br_state (snd (Breaker_Allow t b)) = HalfOpen)"
proof -
  from breaker_reach_inv_params [OF assms(1,2)] have inv: "breaker_inv b" and cd: "br_cooldown b = cd"
    by auto
  show ?thesis
  proof (cases "br_state b")
    case HalfOpen
    then show ?thesis using allow_refuses_half_open [OF inv] by simp
  qed (use assms(3,4) cd in \<open>auto simp: Breaker_Allow_def time_Sub_less\<close>)
qed

theorem breaker_allow_iff_witness:
  "\<not> fst (Breaker_Allow 9 (Breaker_Failure 1 (Breaker_New 1 10))) \<and>
   fst (Breaker_Allow 11 (Breaker_Failure 1 (Breaker_New 1 10)))"
proof -
  have r: "breaker_reach 1 10 (Breaker_Failure 1 (Breaker_New 1 10))"
    by (rule breaker_reach.reach_step [OF breaker_reach.reach_new]) (rule breaker_step.step_failure)
  have b: "(1::int) \<le> maxInt64" "(10::int) \<le> maxInt64" "minInt64 < (10::int)"
    by (simp_all add: maxInt64_def minInt64_def)
  show ?thesis
    using breaker_allow_iff [OF r b, of 9] breaker_allow_iff [OF r b, of 11]
    by (simp add: breaker_defs Let_def wrap64_def)
qed

lemma run_allows_half_open:
  assumes "breaker_inv b" and "br_state b = HalfOpen"
  shows "breaker_run (map CAllow ts) b = (0, b)"
  using allow_refuses_half_open [OF assms] by (induction ts) simp_all

lemma allow_open_cases:
  assumes "br_state b = Open" and "Breaker_Allow t b = (ok, b')"
  shows "(\<not> ok \<and> b' = b) \<or> (ok \<and> br_state b' = HalfOpen)"
  using assms by (auto simp: Breaker_Allow_def split: if_splits)

lemma tripped_run_once:
  assumes "breaker_inv b" and "br_state b \<noteq> Closed"
  shows "fst (breaker_run (map CAllow ts) b) \<le> 1"
  using assms
proof (induction ts arbitrary: b)
  case (Cons t ts)
  obtain ok b' where a: "Breaker_Allow t b = (ok, b')" by fastforce
  with Cons.prems have inv': "breaker_inv b'" by (auto intro: breaker_inv_Allow)
  show ?case
  proof (cases "br_state b")
    case Open
    from allow_open_cases [OF this a] show ?thesis
      using Cons.IH [of b] Cons.prems run_allows_half_open [OF inv', of ts] a by (auto split: prod.splits)
  qed (use Cons.prems run_allows_half_open [of b "t # ts"] in auto)
qed simp

lemma breaker_run_inv: "breaker_inv b \<Longrightarrow> breaker_inv (snd (breaker_run cs b))"
proof (induction cs arbitrary: b)
  case (Cons c cs)
  obtain ok b' where e: "breaker_exec c b = (ok, b')" by fastforce
  with Cons.prems have "breaker_inv b'"
    by (cases c) (auto intro: gw_inv)
  from Cons.IH [OF this] e show ?case by (simp add: split_beta)
qed simp

text \<open>A tripped breaker admits at most one call until an outcome is reported: however many
  goroutines ask, and whenever they ask, one probe goes out.\<close>

theorem breaker_single_probe:
  assumes "breaker_reach th cd b" and "th \<le> maxInt64" and "br_state b \<noteq> Closed"
  shows "fst (breaker_run (map CAllow ts) b) \<le> 1"
  using tripped_run_once breaker_reach_inv_params [OF assms(1,2)] assms(3) by blast

theorem breaker_single_probe_witness:
  "fst (breaker_run (map CAllow [20, 21, 40]) (Breaker_Failure 1 (Breaker_New 1 10))) \<le> 1"
proof -
  have r: "breaker_reach 1 10 (Breaker_Failure 1 (Breaker_New 1 10))"
    by (rule breaker_reach.reach_step [OF breaker_reach.reach_new]) (rule breaker_step.step_failure)
  show ?thesis
    by (rule breaker_single_probe [OF r]) (simp_all add: breaker_defs maxInt64_def wrap64_def)
qed

section \<open>Tripping\<close>

fun is_failure :: "breaker_call \<Rightarrow> bool" where
  "is_failure (CFailure t) = True"
| "is_failure c = False"

fun is_allow :: "breaker_call \<Rightarrow> bool" where
  "is_allow (CAllow t) = True"
| "is_allow c = False"

text \<open>The failures since the last success.\<close>

definition streak :: "breaker_call list \<Rightarrow> nat" where
  "streak cs = length (filter is_failure (takeWhile (\<lambda>c. c \<noteq> CSuccess) (rev cs)))"

lemma streak_simps [simp]:
  "streak [] = 0" "streak (cs @ [CSuccess]) = 0" "streak (cs @ [CAllow t]) = streak cs" "streak (cs @ [CFailure t]) = Suc (streak cs)"
  by (simp_all add: streak_def)

lemma breaker_run_append:
  "breaker_run (xs @ ys) b =
     (fst (breaker_run xs b) + fst (breaker_run ys (snd (breaker_run xs b))),
      snd (breaker_run ys (snd (breaker_run xs b))))"
  by (induction xs arbitrary: b) (auto split: prod.splits)

lemma breaker_run_snoc: "snd (breaker_run (cs @ [c]) b) = snd (breaker_exec c (snd (breaker_run cs b)))"
  by (simp add: breaker_run_append split_beta)

lemma wrap64_add: "wrap64 (wrap64 x + y) = wrap64 (x + y)"
  by (simp add: wrap64_def mod_simps ac_simps)

text \<open>The counter is the streak, as a 64-bit integer, and the breaker is closed exactly below the threshold.\<close>

lemma run_counts:
  assumes "th \<le> maxInt64"
  shows "breaker_inv (snd (breaker_run cs (Breaker_New th cd))) \<and> br_threshold (snd (breaker_run cs (Breaker_New th cd))) = th \<and>
    br_failures (snd (breaker_run cs (Breaker_New th cd))) = wrap64 (int (streak cs)) \<and>
    (br_state (snd (breaker_run cs (Breaker_New th cd))) = Closed \<longleftrightarrow> int (streak cs) < max th 1)"
proof (induction cs rule: rev_induct)
  case Nil
  show ?case using breaker_inv_New [OF assms] by (simp add: Breaker_New_def wrap64_def)
next
  case (snoc c cs)
  let ?b = "snd (breaker_run cs (Breaker_New th cd))"
  from snoc.IH have inv: "breaker_inv ?b" and th: "br_threshold ?b = th" and f: "br_failures ?b = wrap64 (int (streak cs))"
    and st: "br_state ?b = Closed \<longleftrightarrow> int (streak cs) < max th 1" by simp_all
  have inv': "breaker_inv (snd (breaker_run (cs @ [c]) (Breaker_New th cd)))" using breaker_run_inv [OF breaker_inv_New [OF assms]] .
  show ?case
  proof (cases c)
    case (CAllow t)
    with inv' th f st show ?thesis by (auto simp: breaker_run_snoc Breaker_Allow_def split: State.splits if_splits)
  next
    case CSuccess
    with inv' th show ?thesis by (simp add: breaker_run_snoc Breaker_Success_def wrap64_def)
  next
    case (CFailure t)
    have f': "wrap64 (br_failures ?b + 1) = wrap64 (int (Suc (streak cs)))" using wrap64_add [of "int (streak cs)" 1] f by (simp add: add.commute)
    have "wrap64 (int (Suc (streak cs))) = int (Suc (streak cs))" if "br_state ?b = Closed"
      using that st assms by (simp add: maxInt64_def minInt64_def)
    with f' th st CFailure inv' show ?thesis by (cases "br_state ?b") (auto simp: breaker_run_snoc Breaker_Failure_def Let_def)
  qed
qed

text \<open>C18: the breaker trips on \<open>threshold\<close> consecutive failures and on nothing less. After any history of calls, from
  any number of callers, a breaker is closed exactly if fewer than \<open>threshold\<close> failures (one, for
  a threshold below one) were reported since the last success; a closed breaker admits every call; and a failure that makes
  them \<open>threshold\<close> or more, or that ends a half-open probe, leaves it open from the time of that
  failure. (The failures are counted in 64 bits, so the time is stamped up to \<^verbatim>\<open>1<<63 - 1\<close> of them in a row.)\<close>

theorem breaker_trips_at_threshold:
  assumes "th \<le> maxInt64"
  shows "(br_state (snd (breaker_run cs (Breaker_New th cd))) = Closed \<longleftrightarrow> int (streak cs) < max th 1) \<and>
    (br_state (snd (breaker_run cs (Breaker_New th cd))) = Closed \<longrightarrow>
       Breaker_Allow t (snd (breaker_run cs (Breaker_New th cd))) = (True, snd (breaker_run cs (Breaker_New th cd)))) \<and>
    (br_state (snd (breaker_run cs (Breaker_New th cd))) = HalfOpen \<or> th \<le> int (streak cs) + 1 \<and> int (streak cs) < maxInt64 \<longrightarrow>
       br_state (snd (breaker_run (cs @ [CFailure t]) (Breaker_New th cd))) = Open \<and>
       br_openedAt (snd (breaker_run (cs @ [CFailure t]) (Breaker_New th cd))) = t)"
proof -
  let ?b = "snd (breaker_run cs (Breaker_New th cd))"
  from run_counts [OF assms, of cs cd] have th: "br_threshold ?b = th" and f: "br_failures ?b = wrap64 (int (streak cs))"
    and st: "br_state ?b = Closed \<longleftrightarrow> int (streak cs) < max th 1" by simp_all
  have "wrap64 (br_failures ?b + 1) = int (streak cs) + 1" if "int (streak cs) < maxInt64"
    using that f by (simp add: maxInt64_def minInt64_def)
  with th st show ?thesis by (auto simp: breaker_run_snoc Breaker_Failure_def Breaker_Allow_def Let_def)
qed

theorem breaker_trips_at_threshold_witness:
  "br_state (snd (breaker_run [CFailure 1, CSuccess, CFailure 3] (Breaker_New 2 10))) = Closed \<and>
   br_state (snd (breaker_run ([CFailure 1, CSuccess, CFailure 3] @ [CFailure 4]) (Breaker_New 2 10))) = Open \<and>
   br_openedAt (snd (breaker_run ([CFailure 1, CSuccess, CFailure 3] @ [CFailure 4]) (Breaker_New 2 10))) = 4"
proof -
  have "streak [CFailure 1, CSuccess, CFailure 3] = 1" by (simp add: streak_def)
  moreover have "2 \<le> maxInt64" "1 < maxInt64" by (simp_all add: maxInt64_def)
  ultimately show ?thesis using breaker_trips_at_threshold [of 2 "[CFailure 1, CSuccess, CFailure 3]" 10 4] by simp
qed

end
