(* ===== verification/Upstream.thy ===== *)
theory Upstream
  imports Breaker Http
begin

text \<open>
  The endpoint pool of \<^verbatim>\<open>internal/upstream/upstream.go\<close>: round-robin choice of a first endpoint,
  failover over the others, one circuit breaker per endpoint. A call of the pool is modelled from
  its first instruction to its return; the network and the clock are the parameter \<open>hc\<close>.

  \<open>failover\<close> is the abstract specification: try the endpoints of a list in order. The main lemma
  says that the index arithmetic of \<^verbatim>\<open>Pool.Call\<close> implements it on the rotated list.
\<close>

section \<open>State and operations\<close>

record Endpoint =
  ep_url :: string
  ep_br :: Breaker

text \<open>The atomic counter \<^verbatim>\<open>next\<close> is a 64-bit word and wraps.\<close>

record Pool =
  pl_eps :: "Endpoint list"
  pl_next :: u64

record Status =
  st_URL :: string
  st_State :: string

definition NewPool :: "string list \<Rightarrow> int \<Rightarrow> duration \<Rightarrow> Pool" where
  "NewPool urls threshold cooldown =
     \<lparr>pl_eps = map (\<lambda>u. \<lparr>ep_url = u, ep_br = Breaker_New threshold cooldown\<rparr>) urls, pl_next = 0\<rparr>"

definition Pool_try :: "'e HttpClient \<Rightarrow> Endpoint \<Rightarrow> bytes \<Rightarrow> 'e \<Rightarrow> (gerror + bytes) \<times> 'e" where
  "Pool_try hc ep body e =
     (case hc_newreq hc (ep_url ep) of
        Some err \<Rightarrow> (Inl err, e)
      | None \<Rightarrow>
          (case hc_do hc \<lparr>rq_method = ''POST'', rq_url = ep_url ep,
                          rq_header = [(''Content-Type'', ''application/json'')], rq_body = body\<rparr> e of
             (Inl err, e') \<Rightarrow> (Inl err, e')
           | (Inr resp, e') \<Rightarrow>
               if rs_status resp \<ge> 500 then (Inl (OtherErr ''upstream status''), e')
               else (read_limited (8 * 2 ^ 20) (rs_body resp), e')))"

text \<open>
  The loop of \<^verbatim>\<open>Call\<close>, with \<open>k\<close> iterations left. The index is Go's signed remainder: a negative
  one is an out-of-range access, which panics.
\<close>

fun pool_loop ::
  "'e HttpClient \<Rightarrow> bytes \<Rightarrow> int \<Rightarrow> nat \<Rightarrow> nat \<Rightarrow> Endpoint list \<Rightarrow> 'e
     \<Rightarrow> (gerror + bytes) outcome \<times> Endpoint list \<times> 'e" where
  "pool_loop hc body start i 0 eps e = (Returns (Inl ErrNoUpstream), eps, e)"
| "pool_loop hc body start i (Suc k) eps e =
     (let j = go_rem (start + int i) (int (length eps)) in
      if j < 0 then (Panics, eps, e)
      else let ep = eps ! nat j in
        (case Breaker_Allow (hc_now hc e) (ep_br ep) of
           (ok, br) \<Rightarrow>
             if \<not> ok then pool_loop hc body start (Suc i) k (eps[nat j := ep\<lparr>ep_br := br\<rparr>]) e
             else (case Pool_try hc (ep\<lparr>ep_br := br\<rparr>) body e of
                (Inl err, e') \<Rightarrow> pool_loop hc body start (Suc i) k
                   (eps[nat j := ep\<lparr>ep_br := Breaker_Failure (hc_now hc e') br\<rparr>]) e'
              | (Inr out, e') \<Rightarrow>
                  (Returns (Inr out), eps[nat j := ep\<lparr>ep_br := Breaker_Success br\<rparr>], e'))))"

definition Pool_Call ::
  "'e HttpClient \<Rightarrow> bytes \<Rightarrow> Pool \<Rightarrow> 'e \<Rightarrow> (gerror + bytes) outcome \<times> Pool \<times> 'e" where
  "Pool_Call hc body p e =
     (let start = go_rem (sint (pl_next p)) (max (int (length (pl_eps p))) 1) in
      case pool_loop hc body start 0 (length (pl_eps p)) (pl_eps p) e of
        (r, eps, e') \<Rightarrow> (r, \<lparr>pl_eps = eps, pl_next = pl_next p + 1\<rparr>, e'))"

definition Pool_Health :: "Pool \<Rightarrow> Status list" where
  "Pool_Health p =
     map (\<lambda>ep. \<lparr>st_URL = ep_url ep, st_State = State_String (Breaker_State (ep_br ep))\<rparr>) (pl_eps p)"

section \<open>The abstract failover\<close>

fun failover :: "'e HttpClient \<Rightarrow> bytes \<Rightarrow> Endpoint list \<Rightarrow> 'e \<Rightarrow> (gerror + bytes) \<times> Endpoint list \<times> 'e" where
  "failover hc body [] e = (Inl ErrNoUpstream, [], e)"
| "failover hc body (ep # eps) e =
     (case Breaker_Allow (hc_now hc e) (ep_br ep) of
        (ok, br) \<Rightarrow>
          if \<not> ok then
            (case failover hc body eps e of (r, eps', e') \<Rightarrow> (r, ep\<lparr>ep_br := br\<rparr> # eps', e'))
          else (case Pool_try hc ep body e of
             (Inl err, e1) \<Rightarrow>
               (case failover hc body eps e1 of
                  (r, eps', e') \<Rightarrow> (r, ep\<lparr>ep_br := Breaker_Failure (hc_now hc e1) br\<rparr> # eps', e'))
           | (Inr out, e1) \<Rightarrow> (Inr out, ep\<lparr>ep_br := Breaker_Success br\<rparr> # eps, e1)))"

lemma Pool_try_br [simp]: "Pool_try hc (ep\<lparr>ep_br := br\<rparr>) body e = Pool_try hc ep body e"
  by (simp add: Pool_try_def split: option.split)

lemma pool_loop_failover:
  assumes "length eps = n" and "i + k = n" and "rotate s eps = done @ rest" and "length done = i"
    and "failover hc body rest e = (r, rest', e')"
  shows "\<exists>eps'. pool_loop hc body (int s) i k eps e = (Returns r, eps', e') \<and>
           length eps' = n \<and> rotate s eps' = done @ rest'"
  using assms
proof (induction k arbitrary: i eps e "done" rest rest')
  case 0
  then have "rest = []" by (metis add_0_right append_eq_conv_conj diff_self_eq_0 drop_all le_refl length_rotate)
  with 0 show ?case by auto
next
  case (Suc k)
  have i: "i < length eps" using Suc.prems by simp
  have "length (done @ rest) = n" using Suc.prems(1,3) by (metis length_rotate)
  with Suc.prems(2,4) obtain ep rest1 where rest: "rest = ep # rest1"
    by (cases rest) auto
  let ?j = "(s + i) mod length eps"
  have j: "go_rem (int s + int i) (int (length eps)) = int ?j"
    using go_rem_of_nat [of "length eps" "s + i"] i by (metis gr_implies_not0 neq0_conv of_nat_add)
  have ep: "eps ! ?j = ep"
    using nth_rotate [OF i, of s] Suc.prems(3,4) rest by (metis nth_append_length)
  have upd: "rotate s (eps[?j := v]) = (done @ [v]) @ rest1" for v
    using rotate_list_update [OF i, of s v] Suc.prems(3,4) rest by (simp add: list_update_append)
  obtain ok br where a: "Breaker_Allow (hc_now hc e) (ep_br ep) = (ok, br)" by fastforce
  show ?case
  proof (cases ok)
    case False
    obtain r1 rest2 e2 where f: "failover hc body rest1 e = (r1, rest2, e2)"
      by (metis prod_cases3)
    with Suc.prems(5) rest a False have "r = r1" "rest' = ep\<lparr>ep_br := br\<rparr> # rest2" "e' = e2" by auto
    with Suc.IH [of "eps[?j := ep\<lparr>ep_br := br\<rparr>]" "Suc i" "done @ [ep\<lparr>ep_br := br\<rparr>]" rest1 e rest2]
    show ?thesis using Suc.prems(1,2,4) f upd a False j ep by (auto simp: Let_def)
  next
    case True
    obtain t e1 where t: "Pool_try hc ep body e = (t, e1)" by fastforce
    show ?thesis
    proof (cases t)
      case (Inl err)
      let ?ep = "ep\<lparr>ep_br := Breaker_Failure (hc_now hc e1) br\<rparr>"
      obtain r1 rest2 e2 where f: "failover hc body rest1 e1 = (r1, rest2, e2)"
        by (metis prod_cases3)
      with Suc.prems(5) rest a True t Inl have "r = r1" "rest' = ?ep # rest2" "e' = e2" by auto
      with Suc.IH [of "eps[?j := ?ep]" "Suc i" "done @ [?ep]" rest1 e1 rest2]
      show ?thesis using Suc.prems(1,2,4) f upd a True t Inl j ep by (auto simp: Let_def)
    next
      case (Inr out)
      with Suc.prems rest a True t show ?thesis using upd j ep by (auto simp: Let_def)
    qed
  qed
qed

section \<open>Lemmas\<close>

lemma failover_shape:
  "failover hc body eps e = (r, eps', e') \<Longrightarrow>
     length eps' = length eps \<and> map ep_url eps' = map ep_url eps"
  by (induction hc body eps e arbitrary: r eps' e' rule: failover.induct)
     (auto split: prod.splits sum.splits if_splits)

lemma failover_inv:
  assumes "failover hc body eps e = (r, eps', e')" and "\<forall>ep \<in> set eps. breaker_inv (ep_br ep)"
  shows "\<forall>ep \<in> set eps'. breaker_inv (ep_br ep)"
  using assms
  by (induction hc body eps e arbitrary: r eps' e' rule: failover.induct)
     (auto split: prod.splits sum.splits if_splits dest!: breaker_gate.inv_allow [rotated]
        intro!: breaker_gate.inv_success breaker_gate.inv_failure)

lemma failover_error: "failover hc body eps e = (Inl err, eps', e') \<Longrightarrow> err = ErrNoUpstream"
  by (induction hc body eps e arbitrary: eps' e' rule: failover.induct)
     (auto split: prod.splits sum.splits if_splits)

lemma failover_available:
  assumes "ep \<in> set eps" and "br_state (ep_br ep) = Closed"
    and "\<And>e. \<exists>out e'. Pool_try hc ep body e = (Inr out, e')"
  shows "\<exists>out eps' e'. failover hc body eps e = (Inr out, eps', e')"
  using assms(1)
proof (induction eps arbitrary: e)
  case (Cons x eps)
  obtain ok br where a: "Breaker_Allow (hc_now hc e) (ep_br x) = (ok, br)" by fastforce
  obtain t e1 where t: "Pool_try hc x body e = (t, e1)" by fastforce
  show ?case
  proof (cases "x = ep")
    case True
    with assms(2) a have "ok" by (auto simp: Breaker_Allow_def)
    moreover obtain out where "t = Inr out" using assms(3) [of e] t True by auto
    ultimately show ?thesis using a t by simp
  next
    case False
    with Cons.prems have "ep \<in> set eps" by simp
    with Cons.IH [of e] Cons.IH [of e1] a t show ?thesis
      by (cases t) (auto split: prod.splits)
  qed
qed simp

lemma failover_all_refuse:
  assumes "\<forall>ep \<in> set eps. \<not> fst (Breaker_Allow (hc_now hc e) (ep_br ep))"
  shows "failover hc body eps e = (Inl ErrNoUpstream, eps, e)"
  using assms
proof (induction eps)
  case (Cons ep eps)
  then obtain br where a: "Breaker_Allow (hc_now hc e) (ep_br ep) = (False, br)"
    by (metis list.set_intros(1) prod.collapse)
  then have "br = ep_br ep" by (rule breaker_gate.refusal_keeps)
  with a Cons show ?case by simp
qed simp

text \<open>The counter read as an index: the first endpoint of the next call.\<close>

definition pool_start :: "Pool \<Rightarrow> nat" where
  "pool_start p = unat (pl_next p) mod max (length (pl_eps p)) 1"

lemma pool_start_int:
  assumes "unat (pl_next p) < 2 ^ 63"
  shows "go_rem (sint (pl_next p)) (max (int (length (pl_eps p))) 1) = int (pool_start p)"
proof -
  have "max (int (length (pl_eps p))) 1 = int (max (length (pl_eps p)) 1)" by simp
  then show ?thesis
    using go_rem_of_nat [of "max (length (pl_eps p)) 1" "unat (pl_next p)"] sint_small [OF assms]
    by (simp only: pool_start_def)
qed

lemma Pool_Call_cases:
  assumes "unat (pl_next p) < 2 ^ 63"
    and "failover hc body (rotate (pool_start p) (pl_eps p)) e = (r, rest, e')"
  obtains eps' where "Pool_Call hc body p e = (Returns r, \<lparr>pl_eps = eps', pl_next = pl_next p + 1\<rparr>, e')"
    and "length eps' = length (pl_eps p)" and "rotate (pool_start p) eps' = rest"
proof -
  have "\<exists>eps'. pool_loop hc body (int (pool_start p)) 0 (length (pl_eps p)) (pl_eps p) e = (Returns r, eps', e') \<and>
      length eps' = length (pl_eps p) \<and> rotate (pool_start p) eps' = [] @ rest"
    by (rule pool_loop_failover) (use assms(2) in simp_all)
  then show ?thesis
    using that pool_start_int [OF assms(1)] by (auto simp: Pool_Call_def Let_def)
qed

lemma set_rotate_eq: "rotate n xs = ys \<Longrightarrow> set xs = set ys"
  by auto

section \<open>Properties\<close>

text \<open>C12: \<^verbatim>\<open>Pool.Call\<close> refines the abstract failover. As long as the call counter is below
  \<^verbatim>\<open>1<<63\<close>, a call does not panic, returns exactly what trying the endpoints one after another,
  starting at the round-robin position, returns, and leaves exactly the breakers that walk leaves.\<close>

theorem Pool_Call_refines_failover:
  assumes "unat (pl_next p) < 2 ^ 63"
    and "failover hc body (rotate (pool_start p) (pl_eps p)) e = (r, rest, e')"
  shows "\<exists>eps'. Pool_Call hc body p e = (Returns r, \<lparr>pl_eps = eps', pl_next = pl_next p + 1\<rparr>, e') \<and>
           rotate (pool_start p) eps' = rest"
  using Pool_Call_cases [OF assms] by metis

definition demo_client :: "nat HttpClient" where
  "demo_client = \<lparr>hc_newreq = (\<lambda>u. None),
     hc_do = (\<lambda>rq n. (if rq_url rq = ''b'' then Inr \<lparr>rs_status = 200, rs_header = (\<lambda>_. []),
        rs_trailer = (\<lambda>_. []), rs_body = ([111, 107], None)\<rparr> else Inl (OtherErr ''down''), Suc n)),
     hc_now = int\<rparr>"

theorem Pool_Call_refines_failover_witness:
  "\<exists>eps'. Pool_Call demo_client [] (NewPool [''a'', ''b''] 1 10) 0 =
      (Returns (Inr [111, 107]), \<lparr>pl_eps = eps', pl_next = 1\<rparr>, 2)"
proof -
  let ?p = "NewPool [''a'', ''b''] 1 10"
  have "failover demo_client [] (rotate (pool_start ?p) (pl_eps ?p)) 0 =
      (Inr [111, 107], snd (failover demo_client [] (pl_eps ?p) 0))"
    by (simp add: pool_start_def NewPool_def demo_client_def Pool_try_def breaker_defs read_limited_def
        Let_def wrap64_def)
  moreover have "snd (failover demo_client [] (pl_eps ?p) 0) =
      (fst (snd (failover demo_client [] (pl_eps ?p) 0)), 2)"
    by (simp add: NewPool_def demo_client_def Pool_try_def breaker_defs read_limited_def
        Let_def wrap64_def)
  ultimately have f: "failover demo_client [] (rotate (pool_start ?p) (pl_eps ?p)) 0 =
      (Inr [111, 107], fst (snd (failover demo_client [] (pl_eps ?p) 0)), 2)"
    by simp
  show ?thesis
    using Pool_Call_refines_failover [OF _ f] by (auto simp: NewPool_def)
qed

text \<open>C13: availability. If some endpoint has a closed breaker and answers every attempt, the call
  succeeds, whatever the other endpoints do and wherever the round-robin starts.\<close>

theorem Pool_Call_available:
  assumes "unat (pl_next p) < 2 ^ 63"
    and "ep \<in> set (pl_eps p)" and "br_state (ep_br ep) = Closed"
    and "\<And>e. \<exists>out e'. Pool_try hc ep body e = (Inr out, e')"
  shows "\<exists>out p' e'. Pool_Call hc body p e = (Returns (Inr out), p', e')"
proof -
  have "ep \<in> set (rotate (pool_start p) (pl_eps p))" using assms(2) by simp
  from failover_available [OF this assms(3,4)] obtain out rest e'
    where "failover hc body (rotate (pool_start p) (pl_eps p)) e = (Inr out, rest, e')" by metis
  from Pool_Call_cases [OF assms(1) this] show ?thesis by metis
qed

theorem Pool_Call_available_witness:
  "\<exists>out p' e'. Pool_Call demo_client [] (NewPool [''a'', ''b''] 1 10) 5 = (Returns (Inr out), p', e')"
proof (rule Pool_Call_available)
  show "\<lparr>ep_url = ''b'', ep_br = Breaker_New 1 10\<rparr> \<in> set (pl_eps (NewPool [''a'', ''b''] 1 10))"
    by (simp add: NewPool_def)
qed (simp_all add: NewPool_def Breaker_New_def Pool_try_def demo_client_def read_limited_def)

text \<open>When every breaker refuses, the call fails with \<^verbatim>\<open>ErrNoUpstream\<close> without touching the
  network: the world and every breaker are unchanged.\<close>

theorem Pool_Call_all_refuse:
  assumes "unat (pl_next p) < 2 ^ 63"
    and "\<forall>ep \<in> set (pl_eps p). \<not> fst (Breaker_Allow (hc_now hc e) (ep_br ep))"
  shows "Pool_Call hc body p e =
           (Returns (Inl ErrNoUpstream), p\<lparr>pl_next := pl_next p + 1\<rparr>, e)"
proof -
  let ?eps = "rotate (pool_start p) (pl_eps p)"
  have "failover hc body ?eps e = (Inl ErrNoUpstream, ?eps, e)"
    by (rule failover_all_refuse) (use assms(2) in simp)
  from Pool_Call_cases [OF assms(1) this] obtain eps'
    where c: "Pool_Call hc body p e =
        (Returns (Inl ErrNoUpstream), \<lparr>pl_eps = eps', pl_next = pl_next p + 1\<rparr>, e)"
      and "length eps' = length (pl_eps p)" "rotate (pool_start p) eps' = ?eps" by metis
  then have "eps' = pl_eps p" by (metis rotate_inject)
  with c show ?thesis by (cases p) simp
qed

theorem Pool_Call_all_refuse_witness:
  "fst (Pool_Call demo_client [] (\<lparr>pl_eps = [\<lparr>ep_url = ''b'',
      ep_br = Breaker_Failure 1 (Breaker_New 1 10)\<rparr>], pl_next = 4\<rparr>) 5) = Returns (Inl ErrNoUpstream)"
  by (subst Pool_Call_all_refuse)
     (simp_all add: demo_client_def breaker_defs Let_def wrap64_def time_Sub_def minInt64_def maxInt64_def)

text \<open>A call keeps the pool well formed: the endpoints and their order stay, every breaker
  keeps its invariant, and the only error a call returns is \<^verbatim>\<open>ErrNoUpstream\<close>.\<close>

theorem Pool_Call_preserves:
  assumes "unat (pl_next p) < 2 ^ 63" and "\<forall>ep \<in> set (pl_eps p). breaker_inv (ep_br ep)"
    and "Pool_Call hc body p e = (r, p', e')"
  shows "map ep_url (pl_eps p') = map ep_url (pl_eps p) \<and>
         (\<forall>ep \<in> set (pl_eps p'). breaker_inv (ep_br ep)) \<and>
         ((\<exists>out. r = Returns (Inr out)) \<or> r = Returns (Inl ErrNoUpstream))"
proof -
  obtain r0 rest e0 where f: "failover hc body (rotate (pool_start p) (pl_eps p)) e = (r0, rest, e0)"
    by (metis prod_cases3)
  from Pool_Call_cases [OF assms(1) f] assms(3) obtain eps'
    where p': "r = Returns r0" "p' = \<lparr>pl_eps = eps', pl_next = pl_next p + 1\<rparr>"
      and rot: "rotate (pool_start p) eps' = rest" by (metis prod.inject)
  have "rotate (pool_start p) (map ep_url eps') = rotate (pool_start p) (map ep_url (pl_eps p))"
    using failover_shape [OF f] rot by (simp add: rotate_map)
  then have "map ep_url eps' = map ep_url (pl_eps p)" by (rule rotate_inject)
  moreover have "\<forall>ep \<in> set eps'. breaker_inv (ep_br ep)"
    using failover_inv [OF f] assms(2) rot by auto
  moreover have "(\<exists>out. r0 = Inr out) \<or> r0 = Inl ErrNoUpstream"
    using failover_error f by (cases r0) auto
  ultimately show ?thesis using p' by auto
qed

theorem Pool_Call_preserves_witness:
  "map ep_url (pl_eps (fst (snd (Pool_Call demo_client [] (NewPool [''a'', ''b''] 1 10) 0)))) = [''a'', ''b'']"
proof -
  obtain r p' e' where c: "Pool_Call demo_client [] (NewPool [''a'', ''b''] 1 10) 0 = (r, p', e')"
    by (metis prod_cases3)
  have "\<forall>ep \<in> set (pl_eps (NewPool [''a'', ''b''] 1 10)). breaker_inv (ep_br ep)"
    using breaker_inv_New [of 1 10] by (auto simp: NewPool_def maxInt64_def)
  from Pool_Call_preserves [OF _ this c] c show ?thesis by (simp add: NewPool_def)
qed

end
