(* ===== verification/Subscriber.thy ===== *)
theory Subscriber
  imports Eventlog "HOL-Library.Sublist"
begin

text \<open>
  Those who listen to the log of \<^verbatim>\<open>internal/eventlog/eventlog.go\<close>: the event streams of the server and the runner of
  the webhooks. Both subscribe with a buffer, receive in a loop, stop when their channel is closed and
  cancel their subscription. What such a loop receives while others use the log is worked out here
  once.

  A schedule says what happens: \<open>Some op\<close> is an operation that somebody else performs on the log,
  \<open>None\<close> is a turn of the loop, which receives an event, ends because the channel is closed, or finds
  nothing to receive.
\<close>

section \<open>The loop\<close>

fun recv_loop :: "nat \<Rightarrow> log_op option list \<Rightarrow> Log \<Rightarrow> Event list \<times> Log" where
  "recv_loop ch [] l = ([], l)"
| "recv_loop ch (Some x # acts) l = recv_loop ch acts (log_exec x l)"
| "recv_loop ch (None # acts) l = (case Chan_Recv ch l of
     (None, l') \<Rightarrow> if ch_closed (lg_chans l' ! ch) then ([], l') else recv_loop ch acts l'
   | (Some ev, l') \<Rightarrow> apfst ((#) ev) (recv_loop ch acts l'))"

text \<open>The events that a schedule appends to the log.\<close>

fun acts_appended :: "log_op option list \<Rightarrow> Log \<Rightarrow> Event list" where
  "acts_appended [] l = []"
| "acts_appended (Some x # acts) l = op_appended x l @ acts_appended acts (log_exec x l)"
| "acts_appended (None # acts) l = acts_appended acts l"

lemma Append_parts_only:
  "lg_parts l' = lg_parts l \<Longrightarrow> op_appended x l' = op_appended x l \<and> lg_parts (log_exec x l') = lg_parts (log_exec x l)"
  by (cases x) (simp_all add: Log_Append_def log_part_def log_put_def Log_Commit_def Let_def)

lemma acts_appended_cong: "lg_parts l' = lg_parts l \<Longrightarrow> acts_appended acts l' = acts_appended acts l"
proof (induction acts arbitrary: l l')
  case (Cons a acts)
  show ?case
  proof (cases a)
    case None
    then show ?thesis using Cons.IH [OF Cons.prems] by simp
  next
    case (Some x)
    from Append_parts_only [OF Cons.prems, of x] Cons.IH [of "log_exec x l'" "log_exec x l"] show ?thesis by (simp add: Some)
  qed
qed simp

lemma sub_view_prefix: "sub_view sid app rec l \<Longrightarrow> prefix rec app"
  by (auto simp: sub_view_def split: if_splits) (metis append_prefixD take_is_prefix)

section \<open>No gaps\<close>

text \<open>What is received is what was appended, from the start of the subscription and without a gap.\<close>

lemma recv_loop_prefix:
  assumes "log_inv l" and "sub_view ch app rec l" and "Some (ORecv ch) \<notin> set acts"
  shows "prefix (rec @ fst (recv_loop ch acts l)) (app @ acts_appended acts l)"
  using assms
proof (induction ch acts l arbitrary: app rec rule: recv_loop.induct)
  case (1 ch l)
  then show ?case using sub_view_prefix by simp
next
  case (2 ch x acts l)
  have "op_received ch x l = []" using 2(4) by (cases x) auto
  then have "sub_view ch (app @ op_appended x l) rec (log_exec x l)" using sub_view_exec [OF 2(2,3), of x] by simp
  from 2(1) [OF log_exec_inv [OF 2(2)] this] 2(4) show ?case by simp
next
  case (3 ch acts l)
  obtain r l' where recv: "Chan_Recv ch l = (r, l')" by fastforce
  have view: "sub_view ch app (rec @ (case r of None \<Rightarrow> [] | Some ev \<Rightarrow> [ev])) l'"
    using sub_view_Recv [OF 3(4), of ch] by (simp add: recv)
  have inv: "log_inv l'" using log_inv_Recv [OF 3(3), of ch] by (simp add: recv)
  have app: "acts_appended acts l' = acts_appended acts l" using Recv_parts [of ch l] by (intro acts_appended_cong) (simp add: recv)
  show ?case
  proof (cases r)
    case None
    have "prefix rec (app @ acts_appended acts l)" using sub_view_prefix [OF 3(4)] by simp
    then show ?thesis using 3(1) [OF recv [symmetric] None _ inv, of app rec] view 3(5) by (auto simp: recv None app)
  next
    case (Some ev)
    with 3(2) [OF recv [symmetric] Some inv, of app "rec @ [ev]"] view 3(5) show ?thesis by (simp add: recv app)
  qed
qed

text \<open>A subscription with a buffer of \<open>n\<close>, from its start.\<close>

definition recv_run :: "int \<Rightarrow> log_op option list \<Rightarrow> Log \<Rightarrow> Event list" where
  "recv_run n acts l = (case Log_Subscribe n l of (ch, l1) \<Rightarrow> fst (recv_loop ch acts l1))"

lemma subscribed:
  assumes "log_inv l"
  shows "fst (Log_Subscribe n l) = lg_nextSub l" and "log_inv (snd (Log_Subscribe n l))"
    and "sub_view (lg_nextSub l) [] [] (snd (Log_Subscribe n l))"
    and "ch_cap (lg_chans (snd (Log_Subscribe n l)) ! lg_nextSub l) = nat (max n 1)"
proof -
  have "lg_nextSub l = length (lg_chans l)" using assms by (simp add: log_inv_def subs_inv_def)
  then show "sub_view (lg_nextSub l) [] [] (snd (Log_Subscribe n l))"
    "ch_cap (lg_chans (snd (Log_Subscribe n l)) ! lg_nextSub l) = nat (max n 1)"
    by (simp_all add: sub_view_def Log_Subscribe_def Let_def)
qed (use log_inv_Subscribe [OF assms] in \<open>simp_all add: Log_Subscribe_def Let_def\<close>)

lemma appended_subscribed: "acts_appended acts (snd (Log_Subscribe n l)) = acts_appended acts l"
  by (rule acts_appended_cong) simp

lemma recv_run_prefix:
  assumes "log_inv l" and "Some (ORecv (lg_nextSub l)) \<notin> set acts"
  shows "prefix (recv_run n acts l) (acts_appended acts l)"
  using recv_loop_prefix [OF subscribed(2,3) [OF assms(1), of n] assms(2)] subscribed(1) [OF assms(1), of n]
  by (simp add: recv_run_def split_beta appended_subscribed)

section \<open>Eviction\<close>

text \<open>The log closes the channel of a subscriber whose buffer is full. Nothing reaches it after that.\<close>

definition evicted :: "nat \<Rightarrow> Log \<Rightarrow> bool" where
  "evicted ch l \<longleftrightarrow> ch < length (lg_chans l) \<and> ch \<notin> set (lg_subs l)"

lemma evicted_exec:
  assumes "log_inv l" and "evicted ch l"
  shows "evicted ch (log_exec x l) \<and> length (ch_buf (lg_chans (log_exec x l) ! ch)) \<le> length (ch_buf (lg_chans l ! ch))"
proof (cases x)
  case (OAppend k t raw)
  then show ?thesis using assms(2)
    by (auto simp: evicted_def log_put_def Log_Append_def Let_def broadcast_subs broadcast_nth)
next
  case (OSubscribe b)
  then show ?thesis using assms by (auto simp: evicted_def Log_Subscribe_def Let_def log_inv_def subs_inv_def nth_append)
next
  case (OCancel i)
  then show ?thesis using assms(2) by (cases "i = ch") (auto simp: evicted_def Log_Cancel_def)
next
  case (ORecv i)
  then show ?thesis using assms(2) by (cases "i = ch") (auto simp: evicted_def Chan_Recv_def split: list.split)
next
  case (OCommit g p n)
  then show ?thesis using assms(2) by (simp add: evicted_def Log_Commit_def)
qed

lemma recv_evicted:
  assumes "log_inv l" and "evicted ch l"
  shows "length (fst (recv_loop ch acts l)) \<le> length (ch_buf (lg_chans l ! ch))"
  using assms
proof (induction ch acts l rule: recv_loop.induct)
  case (2 ch x acts l)
  from 2(1) [OF log_exec_inv [OF 2(2)]] evicted_exec [OF 2(2,3), of x] show ?case by simp
next
  case (3 ch acts l)
  obtain r l' where recv: "Chan_Recv ch l = (r, l')" by fastforce
  have l': "log_inv l'" "evicted ch l'"
    using log_inv_Recv [OF 3(3), of ch] evicted_exec [OF 3(3,4), of "ORecv ch"] by (simp_all add: recv)
  show ?case
  proof (cases r)
    case None
    then show ?thesis using 3(1) [OF recv [symmetric] None _ l'] recv by (auto simp: Chan_Recv_def split: list.splits)
  next
    case (Some ev)
    then have "length (ch_buf (lg_chans l ! ch)) = Suc (length (ch_buf (lg_chans l' ! ch)))"
      using recv 3(4) by (auto simp: Chan_Recv_def evicted_def split: list.splits)
    then show ?thesis using 3(2) [OF recv [symmetric] Some l'] by (simp add: recv Some)
  qed
qed simp

lemma exec_cap:
  "log_inv l \<Longrightarrow> ch < length (lg_chans l) \<Longrightarrow>
   ch_cap (lg_chans (log_exec x l) ! ch) = ch_cap (lg_chans l ! ch) \<and> ch < length (lg_chans (log_exec x l))"
proof (cases x)
  case (OCancel i)
  then show "ch < length (lg_chans l) \<Longrightarrow> ?thesis" by (cases "i = ch") (auto simp: Log_Cancel_def)
next
  case (ORecv i)
  then show "ch < length (lg_chans l) \<Longrightarrow> ?thesis" by (cases "i = ch") (auto simp: Chan_Recv_def split: list.split)
qed (auto simp: log_put_def Log_Append_def Let_def broadcast_nth chan_send_def Log_Subscribe_def nth_append Log_Commit_def)

text \<open>A burst of more events than the buffer holds, with no turn of the loop in between, evicts the subscriber.\<close>

lemma burst_evicts:
  assumes "log_inv l" and "sub_view ch app [] l" and "ORecv ch \<notin> set xs"
    and "ch_cap (lg_chans l ! ch) < length (app @ acts_appended (map Some xs) l)"
  shows "log_inv (fold log_exec xs l) \<and> evicted ch (fold log_exec xs l) \<and>
    length (ch_buf (lg_chans (fold log_exec xs l) ! ch)) \<le> ch_cap (lg_chans l ! ch)"
  using assms
proof (induction xs arbitrary: l app)
  case Nil
  then show ?case by (auto simp: sub_view_def evicted_def log_inv_def subs_inv_def split: if_splits)
next
  case (Cons x xs)
  have "op_received ch x l = []" using Cons.prems(3) by (cases x) auto
  then have view: "sub_view ch (app @ op_appended x l) [] (log_exec x l)" using sub_view_exec [OF Cons.prems(1,2), of x] by simp
  have "ch < length (lg_chans l)" using Cons.prems(2) by (simp add: sub_view_def)
  with Cons.IH [OF log_exec_inv [OF Cons.prems(1)] view] exec_cap [OF Cons.prems(1)] Cons.prems(3,4) show ?case by simp
qed

lemma length_appended: "length (acts_appended (replicate n (Some (OAppend k t raw))) l) = n"
  by (induction n arbitrary: l) (simp_all add: Log_Append_def Let_def)

lemma recv_loop_ops: "recv_loop ch (map Some xs @ acts) l = recv_loop ch acts (fold log_exec xs l)"
  by (induction xs arbitrary: l) simp_all

lemma recv_run_evicted:
  assumes "log_inv l" and "ORecv (lg_nextSub l) \<notin> set xs" and "nat (max n 1) < length (acts_appended (map Some xs) l)"
  shows "length (recv_run n (map Some xs @ acts) l) \<le> nat (max n 1)"
proof -
  let ?l = "fold log_exec xs (snd (Log_Subscribe n l))"
  note sub = subscribed [OF assms(1), of n]
  from burst_evicts [OF sub(2,3) assms(2)] assms(3) sub(4)
  have "log_inv ?l" "evicted (lg_nextSub l) ?l" "length (ch_buf (lg_chans ?l ! lg_nextSub l)) \<le> nat (max n 1)" by (simp_all add: appended_subscribed)
  with recv_evicted [of ?l "lg_nextSub l" acts] sub(1) show ?thesis by (simp add: recv_run_def recv_loop_ops split_beta)
qed

end
