(* ===== verification/Webhook.thy ===== *)
theory Webhook
  imports Http Json Subscriber "HOL-Library.List_Lexorder" "HOL-Library.Char_ord"
begin

text \<open>
  The webhook dispatcher of \<^verbatim>\<open>internal/webhook/webhook.go\<close>: registrations with URL validation, and
  signed delivery with bounded retries and exponential backoff. \<^verbatim>\<open>url.Parse\<close>, \<^verbatim>\<open>net.ParseIP\<close> and
  HMAC-SHA256 are parameters (\<open>Net\<close>); the address classes of \<^verbatim>\<open>net.IP\<close> are modelled on the 16 bytes
  of an address. The HTTP client and the sleep act on the world \<open>'e\<close>.
\<close>

section \<open>State\<close>

text \<open>\<open>nt_url\<close> gives the scheme and the host name of a URL, \<open>nt_ip\<close> the 16 bytes of an IP literal.\<close>

record Net =
  nt_url :: "string \<Rightarrow> (string \<times> string) option"
  nt_ip :: "string \<Rightarrow> bytes option"
  nt_hmac :: "bytes \<Rightarrow> bytes \<Rightarrow> bytes"

record Registration =
  rn_ID :: string
  rn_URL :: string
  rn_Secret :: string

record Dispatcher =
  ds_regs :: "Registration list"
  ds_seq :: int
  ds_attempts :: int
  ds_backoff :: duration
  ds_allowPrivate :: bool

definition Dispatcher_New :: "int \<Rightarrow> duration \<Rightarrow> bool \<Rightarrow> Dispatcher" where
  "Dispatcher_New attempts backoff allowPrivate =
     \<lparr>ds_regs = [], ds_seq = 0, ds_attempts = max attempts 1, ds_backoff = backoff, ds_allowPrivate = allowPrivate\<rparr>"

definition hook_Sign :: "Net \<Rightarrow> string \<Rightarrow> bytes \<Rightarrow> string" where
  "hook_Sign N secret body = hex_EncodeToString (nt_hmac N (bytes_of secret) body)"

section \<open>Validation\<close>

text \<open>The classes of \<^verbatim>\<open>net.IP\<close>; an IPv4 address is held in the IPv4-in-IPv6 form.\<close>

definition To4 :: "bytes \<Rightarrow> bytes option" where
  "To4 ip = (if length ip = 16 \<and> take 12 ip = replicate 10 0 @ [0xff, 0xff] then Some (drop 12 ip) else None)"

definition IsLoopback :: "bytes \<Rightarrow> bool" where
  "IsLoopback ip = (case To4 ip of Some v \<Rightarrow> v ! 0 = 127 | None \<Rightarrow> ip = replicate 15 0 @ [1])"

definition IsPrivate :: "bytes \<Rightarrow> bool" where
  "IsPrivate ip = (case To4 ip of
     Some v \<Rightarrow> v ! 0 = 10 \<or> (v ! 0 = 172 \<and> v ! 1 AND 0xf0 = 16) \<or> (v ! 0 = 192 \<and> v ! 1 = 168)
   | None \<Rightarrow> length ip = 16 \<and> ip ! 0 AND 0xfe = 0xfc)"

definition IsLinkLocalUnicast :: "bytes \<Rightarrow> bool" where
  "IsLinkLocalUnicast ip = (case To4 ip of
     Some v \<Rightarrow> v ! 0 = 169 \<and> v ! 1 = 254
   | None \<Rightarrow> length ip = 16 \<and> ip ! 0 = 0xfe \<and> ip ! 1 AND 0xc0 = 0x80)"

definition IsUnspecified :: "bytes \<Rightarrow> bool" where
  "IsUnspecified ip \<longleftrightarrow> ip = replicate 10 0 @ [0xff, 0xff, 0, 0, 0, 0] \<or> ip = replicate 16 0"

definition private_ip :: "bytes \<Rightarrow> bool" where
  "private_ip ip \<longleftrightarrow> IsLoopback ip \<or> IsPrivate ip \<or> IsLinkLocalUnicast ip \<or> IsUnspecified ip"

text \<open>\<^verbatim>\<open>strings.EqualFold(h, "localhost")\<close>. Besides the ASCII letters, Unicode folds the long s, whose
  UTF-8 bytes are C5 BF, to an s.\<close>

fun fold_host :: "string \<Rightarrow> string" where
  "fold_host (a # b # s) =
     (if (of_char a :: nat) = 0xC5 \<and> (of_char b :: nat) = 0xBF then CHR ''s'' # fold_host s
      else lower_char a # fold_host (b # s))"
| "fold_host [a] = [lower_char a]"
| "fold_host [] = []"

definition Dispatcher_validate :: "Net \<Rightarrow> bool \<Rightarrow> string \<Rightarrow> gerror option" where
  "Dispatcher_validate N allowPrivate raw = (case nt_url N raw of
     None \<Rightarrow> Some ErrInvalidURL
   | Some (scheme, h) \<Rightarrow>
       if (scheme \<noteq> ''https'' \<and> scheme \<noteq> ''http'') \<or> h = [] then Some ErrInvalidURL
       else if allowPrivate then None
       else if fold_host h = ''localhost'' then Some ErrInvalidURL
       else (case nt_ip N h of
          None \<Rightarrow> None
        | Some ip \<Rightarrow> if private_ip ip then Some ErrInvalidURL else None))"

section \<open>Registrations\<close>

text \<open>\<^verbatim>\<open>fmt.Sprintf("wh_%04d", seq)\<close>.\<close>

definition hook_id :: "int \<Rightarrow> string" where
  "hook_id n = (let d = big_String n in ''wh_'' @ (if n < 0
     then ''-'' @ replicate (3 - (length d - 1)) CHR ''0'' @ tl d
     else replicate (4 - length d) CHR ''0'' @ d))"

text \<open>The map of registrations is the list of its values; storing under a key replaces it.\<close>

definition put_reg :: "Registration \<Rightarrow> Registration list \<Rightarrow> Registration list" where
  "put_reg r rs = r # filter (\<lambda>x. rn_ID x \<noteq> rn_ID r) rs"

definition Dispatcher_Register :: "Net \<Rightarrow> string \<Rightarrow> string \<Rightarrow> Dispatcher \<Rightarrow> (gerror + Registration) \<times> Dispatcher" where
  "Dispatcher_Register N rawURL secret d = (case Dispatcher_validate N (ds_allowPrivate d) rawURL of
     Some err \<Rightarrow> (Inl err, d)
   | None \<Rightarrow>
       let n = wrap64 (ds_seq d + 1);
           r = \<lparr>rn_ID = hook_id n, rn_URL = rawURL, rn_Secret = secret\<rparr>
       in (Inr r, d\<lparr>ds_seq := n, ds_regs := put_reg r (ds_regs d)\<rparr>))"

definition Dispatcher_Remove :: "string \<Rightarrow> Dispatcher \<Rightarrow> bool \<times> Dispatcher" where
  "Dispatcher_Remove i d = (\<exists>r \<in> set (ds_regs d). rn_ID r = i, d\<lparr>ds_regs := filter (\<lambda>r. rn_ID r \<noteq> i) (ds_regs d)\<rparr>)"

definition Dispatcher_List :: "Dispatcher \<Rightarrow> Registration list" where
  "Dispatcher_List d = sort_key rn_ID (ds_regs d)"

section \<open>Delivery\<close>

definition hook_request :: "Net \<Rightarrow> Registration \<Rightarrow> string \<Rightarrow> bytes \<Rightarrow> HttpReq" where
  "hook_request N r typ body = \<lparr>rq_method = ''POST'', rq_url = rn_URL r,
     rq_header = [(''Content-Type'', ''application/json''), (''X-Chainforge-Event'', typ),
                  (''X-Chainforge-Signature'', ''sha256='' @ hook_Sign N (rn_Secret r) body)],
     rq_body = body\<rparr>"

definition Dispatcher_post :: "Net \<Rightarrow> 'e HttpClient \<Rightarrow> Registration \<Rightarrow> string \<Rightarrow> bytes \<Rightarrow> 'e \<Rightarrow> gerror option \<times> 'e" where
  "Dispatcher_post N hc r typ body e = (case hc_newreq hc (rn_URL r) of
     Some err \<Rightarrow> (Some err, e)
   | None \<Rightarrow> (case hc_do hc (hook_request N r typ body) e of
       (Inl err, e') \<Rightarrow> (Some err, e')
     | (Inr resp, e') \<Rightarrow>
         if sgn (rs_status resp) * (\<bar>rs_status resp\<bar> div 100) \<noteq> 2 then (Some (OtherErr ''webhook: status''), e')
         else (None, e')))"

text \<open>The attempts on one subscriber, with \<open>k\<close> left; \<open>wait\<close> doubles as a 64-bit integer.\<close>

fun deliver_one ::
  "Net \<Rightarrow> 'e HttpClient \<Rightarrow> (duration \<Rightarrow> 'e \<Rightarrow> 'e) \<Rightarrow> Registration \<Rightarrow> string \<Rightarrow> bytes \<Rightarrow> nat \<Rightarrow> duration \<Rightarrow> gerror option \<Rightarrow> 'e
     \<Rightarrow> gerror option \<times> 'e" where
  "deliver_one N hc sleep r typ body 0 wait err e = (err, e)"
| "deliver_one N hc sleep r typ body (Suc k) wait err e = (case Dispatcher_post N hc r typ body e of
     (None, e') \<Rightarrow> (None, e')
   | (Some er, e') \<Rightarrow>
       if k > 0 then deliver_one N hc sleep r typ body k (wrap64 (wait * 2)) (Some er) (sleep wait e')
       else (Some er, e'))"

fun deliver_all ::
  "Net \<Rightarrow> 'e HttpClient \<Rightarrow> (duration \<Rightarrow> 'e \<Rightarrow> 'e) \<Rightarrow> int \<Rightarrow> duration \<Rightarrow> Registration list \<Rightarrow> string \<Rightarrow> bytes \<Rightarrow> nat \<times> nat \<Rightarrow> 'e
     \<Rightarrow> (nat \<times> nat) \<times> 'e" where
  "deliver_all N hc sleep attempts backoff [] typ body c e = (c, e)"
| "deliver_all N hc sleep attempts backoff (r # rs) typ body (good, bad) e =
     (case deliver_one N hc sleep r typ body (nat attempts) backoff None e of
        (None, e') \<Rightarrow> deliver_all N hc sleep attempts backoff rs typ body (good + 1, bad) e'
      | (Some er, e') \<Rightarrow> deliver_all N hc sleep attempts backoff rs typ body (good, bad + 1) e')"

definition Dispatcher_Deliver ::
  "(Event \<Rightarrow> bytes) \<Rightarrow> Net \<Rightarrow> 'e HttpClient \<Rightarrow> (duration \<Rightarrow> 'e \<Rightarrow> 'e) \<Rightarrow> Event \<Rightarrow> Dispatcher \<Rightarrow> 'e \<Rightarrow> (nat \<times> nat) \<times> 'e" where
  "Dispatcher_Deliver marshal N hc sleep ev d e =
     deliver_all N hc sleep (ds_attempts d) (ds_backoff d) (Dispatcher_List d) (ev_Type ev) (marshal ev) (0, 0) e"

text \<open>
  \<^verbatim>\<open>Run\<close> under a schedule: somebody uses the log, a client of the server registers or removes a webhook, or the
  loop takes its turn. The runner keeps, for every event it delivered, the dispatcher it used and the
  counts. It ends when its channel is closed or with the schedule, and then cancels.
\<close>

datatype hook_act = HLog log_op | HRegister string string | HRemove string | HTurn

fun hook_loop ::
  "(Event \<Rightarrow> bytes) \<Rightarrow> Net \<Rightarrow> 'e HttpClient \<Rightarrow> (duration \<Rightarrow> 'e \<Rightarrow> 'e) \<Rightarrow> nat \<Rightarrow> hook_act list \<Rightarrow> Dispatcher \<Rightarrow> Log \<Rightarrow> 'e
     \<Rightarrow> (Event \<times> Dispatcher \<times> nat \<times> nat) list \<times> Dispatcher \<times> Log \<times> 'e" where
  "hook_loop marshal N hc sleep ch [] d l e = ([], d, l, e)"
| "hook_loop marshal N hc sleep ch (HLog x # acts) d l e = hook_loop marshal N hc sleep ch acts d (log_exec x l) e"
| "hook_loop marshal N hc sleep ch (HRegister u s # acts) d l e =
     hook_loop marshal N hc sleep ch acts (snd (Dispatcher_Register N u s d)) l e"
| "hook_loop marshal N hc sleep ch (HRemove i # acts) d l e = hook_loop marshal N hc sleep ch acts (snd (Dispatcher_Remove i d)) l e"
| "hook_loop marshal N hc sleep ch (HTurn # acts) d l e = (case Chan_Recv ch l of
     (None, l') \<Rightarrow> if ch_closed (lg_chans l' ! ch) then ([], d, l', e) else hook_loop marshal N hc sleep ch acts d l' e
   | (Some ev, l') \<Rightarrow> (case Dispatcher_Deliver marshal N hc sleep ev d e of (counts, e') \<Rightarrow>
       apfst ((#) (ev, d, counts)) (hook_loop marshal N hc sleep ch acts d l' e')))"

definition Dispatcher_Run ::
  "(Event \<Rightarrow> bytes) \<Rightarrow> Net \<Rightarrow> 'e HttpClient \<Rightarrow> (duration \<Rightarrow> 'e \<Rightarrow> 'e) \<Rightarrow> hook_act list \<Rightarrow> Dispatcher \<Rightarrow> Log \<Rightarrow> 'e
     \<Rightarrow> (Event \<times> Dispatcher \<times> nat \<times> nat) list \<times> Dispatcher \<times> Log \<times> 'e" where
  "Dispatcher_Run marshal N hc sleep acts d l e = (case Log_Subscribe 256 l of (ch, l1) \<Rightarrow>
     (case hook_loop marshal N hc sleep ch acts d l1 e of (sent, d', l2, e') \<Rightarrow> (sent, d', Log_Cancel ch l2, e')))"

section \<open>Reachable dispatchers\<close>

inductive hook_reach :: "Net \<Rightarrow> Dispatcher \<Rightarrow> Dispatcher \<Rightarrow> bool" for N where
  hook_refl: "hook_reach N d d"
| hook_register: "hook_reach N d d1 \<Longrightarrow> hook_reach N d (snd (Dispatcher_Register N u s d1))"
| hook_remove: "hook_reach N d d1 \<Longrightarrow> hook_reach N d (snd (Dispatcher_Remove i d1))"

text \<open>
  What the rules say of a target, independently of the code: an http or https URL with a host; and a public one if its host is
  not \<^verbatim>\<open>localhost\<close> in any spelling, and not the literal of an address in one of the blocks reserved for
  this host, private networks, links, or no host at all. Blocks are given by the leading bits of
  an address. A host that \<^verbatim>\<open>net.ParseIP\<close> does not take for an address, so a name or an IPv6 literal with a zone, is
  public here as it is for the code: what it resolves to is not looked at.
\<close>

definition web_url :: "Net \<Rightarrow> string \<Rightarrow> bool" where
  "web_url N u \<longleftrightarrow> (\<exists>h. h \<noteq> [] \<and> (nt_url N u = Some (''http'', h) \<or> nt_url N u = Some (''https'', h)))"

definition byte_bits :: "byte \<Rightarrow> bool list" where
  "byte_bits b = [bit b 7, bit b 6, bit b 5, bit b 4, bit b 3, bit b 2, bit b 1, bit b 0]"

definition v4 :: "bytes \<Rightarrow> bytes" where
  "v4 b = replicate 10 0 @ [0xff, 0xff] @ b"

definition reserved_blocks :: "(bytes \<times> nat) list" where
  "reserved_blocks =
     [(v4 [127, 0, 0, 0], 96 + 8), (replicate 15 0 @ [1], 128),
      (v4 [10, 0, 0, 0], 96 + 8), (v4 [172, 16, 0, 0], 96 + 12), (v4 [192, 168, 0, 0], 96 + 16), (0xfc # replicate 15 0, 7),
      (v4 [169, 254, 0, 0], 96 + 16), (0xfe # 0x80 # replicate 14 0, 10),
      (v4 [0, 0, 0, 0], 96 + 32), (replicate 16 0, 128)]"

definition in_block :: "bytes \<Rightarrow> bytes \<times> nat \<Rightarrow> bool" where
  "in_block ip bl \<longleftrightarrow> length ip = 16 \<and> take (snd bl) (concat (map byte_bits ip)) = take (snd bl) (concat (map byte_bits (fst bl)))"

text \<open>The spellings of \<^verbatim>\<open>localhost\<close>: small and capital letters, and the long s in UTF-8.\<close>

definition localhost_names :: "string list" where
  "localhost_names = map concat (product_lists [[''l'', ''L''], [''o'', ''O''], [''c'', ''C''], [''a'', ''A''], [''l'', ''L''], [''h'', ''H''],
     [''o'', ''O''], [''s'', ''S'', [char_of (0xC5 :: nat), char_of (0xBF :: nat)]], [''t'', ''T'']])"

definition public_url :: "Net \<Rightarrow> string \<Rightarrow> bool" where
  "public_url N u \<longleftrightarrow> web_url N u \<and> (\<forall>scheme h. nt_url N u = Some (scheme, h) \<longrightarrow> h \<notin> set localhost_names \<and>
     (\<forall>ip. nt_ip N h = Some ip \<longrightarrow> (\<forall>bl \<in> set reserved_blocks. \<not> in_block ip bl)))"

lemma fold_spelling:
  "list_all2 (\<lambda>x c. \<forall>s. fold_host (x @ s) = c # fold_host s) xs cs \<Longrightarrow> fold_host (concat xs) = cs"
  by (induction rule: list_all2_induct) simp_all

lemma fold_ascii: "(of_char a :: nat) \<noteq> 0xC5 \<Longrightarrow> fold_host (a # s) = lower_char a # fold_host s"
  by (cases s) simp_all

lemma lower_localhost:
  "map lower_char ''locahst'' = ''locahst''" "map lower_char ''LOCAHST'' = ''locahst''" by code_simp+

lemma localhost_folds:
  assumes "h \<in> set localhost_names"
  shows "fold_host h = ''localhost''"
proof -
  let ?alts = "[[''l'', ''L''], [''o'', ''O''], [''c'', ''C''], [''a'', ''A''], [''l'', ''L''], [''h'', ''H''],
     [''o'', ''O''], [''s'', ''S'', [char_of (0xC5 :: nat), char_of (0xBF :: nat)]], [''t'', ''T'']]"
  let ?folds = "\<lambda>x c. \<forall>s. fold_host (x @ s) = c # fold_host s"
  from assms obtain xs where h: "h = concat xs" and xs: "list_all2 (\<lambda>x ys. x \<in> set ys) xs ?alts"
    unfolding localhost_names_def set_map product_lists_set by blast
  have "list_all2 (\<lambda>ys c. \<forall>y \<in> set ys. ?folds y c) ?alts ''localhost''"
    using lower_localhost by (simp add: fold_ascii)
  then have "list_all2 ?folds xs ''localhost''" by (rule list_all2_trans [OF _ xs, rotated]) blast
  then show ?thesis unfolding h by (rule fold_spelling)
qed

lemma byte_eq_bits: "b = c \<longleftrightarrow> byte_bits b = byte_bits c" for b c :: byte
proof
  assume eq: "byte_bits b = byte_bits c"
  show "b = c"
  proof (rule bit_word_eqI)
    fix n assume "n < LENGTH(8)"
    then have "n = 0 \<or> n = 1 \<or> n = 2 \<or> n = 3 \<or> n = 4 \<or> n = 5 \<or> n = 6 \<or> n = 7" by auto
    then show "bit b n = bit c n" using eq by (auto simp: byte_bits_def)
  qed
qed simp

lemma length_byte_bits [simp]: "length (byte_bits b) = 8"
  by (simp add: byte_bits_def)

text \<open>The leading bits as leading bytes and what is left.\<close>

lemma take_bits:
  "length a = length b \<Longrightarrow> take (8 * n + k) (concat (map byte_bits a)) = take (8 * n + k) (concat (map byte_bits b)) \<Longrightarrow>
   take n a = take n b \<and> (n < length a \<longrightarrow> take k (byte_bits (a ! n)) = take k (byte_bits (b ! n)))"
proof (induction n arbitrary: a b)
  case 0
  have "take k (byte_bits (a ! 0)) = take k (byte_bits (b ! 0))" if "a \<noteq> []"
  proof -
    from that 0 obtain x as y bs where ab: "a = x # as" "b = y # bs" by (cases a; cases b) auto
    with 0 have "take k (byte_bits x) @ take (k - 8) (concat (map byte_bits as)) = take k (byte_bits y) @ take (k - 8) (concat (map byte_bits bs))"
      by simp
    then show ?thesis using ab by (simp add: append_eq_append_conv)
  qed
  then show ?case by auto
next
  case (Suc n)
  show ?case
  proof (cases a)
    case (Cons x as)
    then obtain y bs where b: "b = y # bs" "length as = length bs" using Suc.prems(1) by (cases b) auto
    have "8 * Suc n + k = 8 + (8 * n + k)" by simp
    then have "byte_bits x @ take (8 * n + k) (concat (map byte_bits as)) = byte_bits y @ take (8 * n + k) (concat (map byte_bits bs))"
      using Suc.prems(2) Cons b(1) by simp
    then have "byte_bits x = byte_bits y" "take (8 * n + k) (concat (map byte_bits as)) = take (8 * n + k) (concat (map byte_bits bs))"
      by (simp_all add: append_eq_append_conv)
    with Suc.IH [OF b(2)] Cons b show ?thesis by (simp add: byte_eq_bits [symmetric])
  qed (use Suc.prems in simp)
qed

lemma in_block_bytes:
  assumes "in_block ip (a, 8 * n + k)" and "length a = 16"
  shows "take n ip = take n a \<and> (n < 16 \<longrightarrow> take k (byte_bits (ip ! n)) = take k (byte_bits (a ! n)))"
  using take_bits [of ip a n k] assms by (simp add: in_block_def)

lemma mask_bits:
  "take 4 (byte_bits b) = take 4 (byte_bits 16) \<Longrightarrow> b AND 0xf0 = 16"
  "take 7 (byte_bits b) = take 7 (byte_bits 0xfc) \<Longrightarrow> b AND 0xfe = 0xfc"
  "take 2 (byte_bits b) = take 2 (byte_bits 0x80) \<Longrightarrow> b AND 0xc0 = 0x80"
  by (simp_all add: byte_eq_bits) (simp_all add: byte_bits_def bit_simps)

lemmas ip_classes = private_ip_def IsLoopback_def IsPrivate_def IsLinkLocalUnicast_def IsUnspecified_def

lemma in_block_v4:
  assumes "in_block ip (v4 [x, y, z, w], 96 + (8 * n + k))" and "n \<le> 4"
  shows "\<exists>b0 b1 b2 b3. ip = v4 [b0, b1, b2, b3] \<and> take n [b0, b1, b2, b3] = take n [x, y, z, w] \<and>
    (n < 4 \<longrightarrow> take k (byte_bits ([b0, b1, b2, b3] ! n)) = take k (byte_bits ([x, y, z, w] ! n)))"
proof -
  have len: "length ip = 16" using assms(1) by (simp add: in_block_def)
  have "96 + (8 * n + k) = 8 * (12 + n) + k" by simp
  with assms(1) have t: "take (12 + n) ip = take (12 + n) (v4 [x, y, z, w]) \<and>
      (12 + n < 16 \<longrightarrow> take k (byte_bits (ip ! (12 + n))) = take k (byte_bits (v4 [x, y, z, w] ! (12 + n))))"
    by (intro in_block_bytes) (simp_all add: v4_def)
  obtain b0 b1 b2 b3 where d: "drop 12 ip = [b0, b1, b2, b3]" using len
    by (auto simp: numeral_eq_Suc length_Suc_conv)
  have "take 12 ip = take 12 (take (12 + n) ip)" by simp
  also have "\<dots> = replicate 10 0 @ [0xff, 0xff]" using t by (simp add: v4_def)
  finally have ip: "ip = v4 [b0, b1, b2, b3]" using d append_take_drop_id [of 12 ip] by (simp add: v4_def)
  have "take n (drop 12 ip) = take n (drop 12 (v4 [x, y, z, w]))"
    using t by (simp add: take_drop add.commute)
  moreover have "ip ! (12 + n) = drop 12 ip ! n" "v4 [x, y, z, w] ! (12 + n) = [x, y, z, w] ! n"
    using len by (simp_all add: v4_def nth_append)
  ultimately show ?thesis using ip d t by (auto simp: v4_def)
qed

lemma reserved_private:
  assumes "bl \<in> set reserved_blocks" and "in_block ip bl"
  shows "private_ip ip"
proof -
  have v4: "To4 (v4 [b0, b1, b2, b3]) = Some [b0, b1, b2, b3]" for b0 b1 b2 b3 by (simp add: To4_def v4_def)
  have len: "length ip = 16" using assms(2) by (simp add: in_block_def)
  have v6: "To4 ip = None" if "ip ! 0 \<noteq> 0"
  proof -
    have "ip ! 0 = take 12 ip ! 0" by simp
    with that have "take 12 ip \<noteq> replicate 10 0 @ [0xff, 0xff]" by (auto simp: nth_append simp del: nth_take)
    then show ?thesis by (simp add: To4_def)
  qed
  from assms(1) consider "bl = (v4 [127, 0, 0, 0], 96 + (8 * 1 + 0))" | "bl = (v4 [10, 0, 0, 0], 96 + (8 * 1 + 0))"
    | "bl = (v4 [172, 16, 0, 0], 96 + (8 * 1 + 4))" | "bl = (v4 [192, 168, 0, 0], 96 + (8 * 2 + 0))"
    | "bl = (v4 [169, 254, 0, 0], 96 + (8 * 2 + 0))" | "bl = (v4 [0, 0, 0, 0], 96 + (8 * 4 + 0))"
    | "bl = (replicate 15 0 @ [1], 8 * 16 + 0)" | "bl = (replicate 16 0, 8 * 16 + 0)"
    | "bl = (0xfc # replicate 15 0, 8 * 0 + 7)" | "bl = (0xfe # 0x80 # replicate 14 0, 8 * 1 + 2)"
    unfolding reserved_blocks_def by fastforce
  then show ?thesis
  proof cases
    case 1
    from in_block_v4 [OF assms(2) [unfolded 1]] show ?thesis by (auto simp: ip_classes v4)
  next
    case 2
    from in_block_v4 [OF assms(2) [unfolded 2]] show ?thesis by (auto simp: ip_classes v4)
  next
    case 3
    from in_block_v4 [OF assms(2) [unfolded 3]] show ?thesis by (auto simp: ip_classes v4 mask_bits)
  next
    case 4
    from in_block_v4 [OF assms(2) [unfolded 4]] show ?thesis by (auto simp: ip_classes v4 numeral_2_eq_2)
  next
    case 5
    from in_block_v4 [OF assms(2) [unfolded 5]] show ?thesis by (auto simp: ip_classes v4 numeral_2_eq_2)
  next
    case 6
    from in_block_v4 [OF assms(2) [unfolded 6]] show ?thesis by (auto simp: ip_classes v4_def)
  next
    case 7
    have "private_ip (replicate 15 0 @ [1])" by code_simp
    with in_block_bytes [OF assms(2) [unfolded 7]] len show ?thesis by simp
  next
    case 8
    from in_block_bytes [OF assms(2) [unfolded 8]] len show ?thesis by (simp add: ip_classes)
  next
    case 9
    from in_block_bytes [OF assms(2) [unfolded 9]] have m: "ip ! 0 AND 0xfe = 0xfc" by (simp add: mask_bits)
    then have "ip ! 0 \<noteq> 0" by auto
    with m v6 len show ?thesis by (simp add: ip_classes)
  next
    case 10
    from in_block_bytes [OF assms(2) [unfolded 10]] have m: "take 1 ip = [0xfe]" "ip ! 1 AND 0xc0 = 0x80" by (simp_all add: mask_bits)
    then have "ip ! 0 = 0xfe" using len by (cases ip) auto
    with m v6 len show ?thesis by (simp add: ip_classes)
  qed
qed

lemma validate_web: "Dispatcher_validate N p u = None \<Longrightarrow> web_url N u"
  by (auto simp: Dispatcher_validate_def web_url_def split: option.splits if_splits)

lemma validate_public: "Dispatcher_validate N False u = None \<Longrightarrow> public_url N u"
  using validate_web [of N False u] localhost_folds reserved_private
  by (fastforce simp: Dispatcher_validate_def public_url_def split: option.splits if_splits)

definition hooks_inv :: "Net \<Rightarrow> Dispatcher \<Rightarrow> bool" where
  "hooks_inv N d \<longleftrightarrow> distinct (map rn_ID (ds_regs d)) \<and> 1 \<le> ds_attempts d \<and>
     (\<forall>r \<in> set (ds_regs d). web_url N (rn_URL r) \<and> (ds_allowPrivate d \<or> public_url N (rn_URL r)))"

lemma hooks_inv_New [gw_inv]: "hooks_inv N (Dispatcher_New a b p)"
  by (simp add: hooks_inv_def Dispatcher_New_def)

lemma hooks_inv_Register [gw_inv]:
  assumes "hooks_inv N d"
  shows "hooks_inv N (snd (Dispatcher_Register N u s d)) \<and>
         ds_allowPrivate (snd (Dispatcher_Register N u s d)) = ds_allowPrivate d \<and>
         ds_attempts (snd (Dispatcher_Register N u s d)) = ds_attempts d"
proof (cases "Dispatcher_validate N (ds_allowPrivate d) u")
  case None
  then have "web_url N u" "ds_allowPrivate d \<or> public_url N u"
    using validate_web validate_public [of N u] by (cases "ds_allowPrivate d"; simp)+
  with None assms show ?thesis
    by (auto simp: Dispatcher_Register_def Let_def hooks_inv_def put_reg_def distinct_map inj_on_def)
qed (use assms in \<open>simp add: Dispatcher_Register_def\<close>)

lemma hooks_inv_Remove [gw_inv]:
  assumes "hooks_inv N d"
  shows "hooks_inv N (snd (Dispatcher_Remove i d)) \<and>
         ds_allowPrivate (snd (Dispatcher_Remove i d)) = ds_allowPrivate d \<and>
         ds_attempts (snd (Dispatcher_Remove i d)) = ds_attempts d"
  using assms by (auto simp: Dispatcher_Remove_def hooks_inv_def distinct_map inj_on_def)

lemma hook_reach_inv:
  "hook_reach N d d' \<Longrightarrow> hooks_inv N d \<Longrightarrow>
   hooks_inv N d' \<and> ds_allowPrivate d' = ds_allowPrivate d \<and> ds_attempts d' = ds_attempts d"
  by (induction rule: hook_reach.induct) (use hooks_inv_Register hooks_inv_Remove in \<open>fastforce+\<close>)

section \<open>What is sent\<close>

text \<open>A client that keeps a record of the requests it is given.\<close>

definition recording :: "'e HttpClient \<Rightarrow> (HttpReq list \<times> 'e) HttpClient" where
  "recording hc = \<lparr>hc_newreq = hc_newreq hc,
     hc_do = (\<lambda>q (tr, e). case hc_do hc q e of (r, e') \<Rightarrow> (r, (tr @ [q], e'))),
     hc_now = (\<lambda>(tr, e). hc_now hc e)\<rparr>"

text \<open>At most \<open>k\<close> copies of the one request are sent, and the last one is answered with success exactly if the
  delivery succeeds.\<close>

lemma post_recorded:
  assumes "Dispatcher_post N (recording hc) r typ body (tr, e) = (x, tr', e')"
  shows "\<exists>n \<le> 1. tr' = tr @ replicate n (hook_request N r typ body)"
  using assms by (auto simp: Dispatcher_post_def recording_def split: option.splits prod.splits sum.splits if_splits
      intro: exI [of _ 0] exI [of _ "Suc 0"])

lemma deliver_one_recorded:
  "deliver_one N (recording hc) (\<lambda>w (tr, e). (tr, sleep w e)) r typ body k wait err (tr, e) = (x, tr', e') \<Longrightarrow>
   \<exists>n \<le> k. tr' = tr @ replicate n (hook_request N r typ body)"
proof (induction k arbitrary: wait err tr e)
  case (Suc k)
  obtain y tr1 e1 where post: "Dispatcher_post N (recording hc) r typ body (tr, e) = (y, tr1, e1)" by (metis prod_cases3)
  from post_recorded [OF post] obtain m where m: "m \<le> 1" "tr1 = tr @ replicate m (hook_request N r typ body)" by blast
  show ?case
  proof (cases "y = None \<or> k = 0")
    case True
    with Suc.prems post m show ?thesis by (intro exI [of _ m]) (auto split: option.splits)
  next
    case False
    then obtain er where "y = Some er" "0 < k" by auto
    with Suc.prems post Suc.IH [of "wrap64 (wait * 2)" "Some er" tr1 "sleep wait e1"]
    obtain n where "n \<le> k" "tr' = tr1 @ replicate n (hook_request N r typ body)" by auto
    with m show ?thesis by (intro exI [of _ "m + n"]) (simp add: replicate_add)
  qed
qed simp

lemma deliver_all_recorded:
  assumes "deliver_all N (recording hc) (\<lambda>w (tr, e). (tr, sleep w e)) attempts backoff rs typ body (g, b) (tr, e) = ((g', b'), tr', e')"
  shows "g' + b' = g + b + length rs \<and>
    (\<exists>sent. tr' = tr @ sent \<and> length sent \<le> nat attempts * length rs \<and>
       set sent \<subseteq> (\<lambda>r. hook_request N r typ body) ` set rs)"
  using assms
proof (induction rs arbitrary: g b tr e)
  case (Cons r rs)
  obtain x tr1 e1 where one: "deliver_one N (recording hc) (\<lambda>w (tr, e). (tr, sleep w e)) r typ body (nat attempts) backoff None (tr, e)
      = (x, tr1, e1)" by (metis prod_cases3)
  from deliver_one_recorded [OF one] obtain n where n: "n \<le> nat attempts" "tr1 = tr @ replicate n (hook_request N r typ body)"
    by blast
  obtain g1 b1 where gb: "g1 + b1 = g + b + 1"
    "deliver_all N (recording hc) (\<lambda>w (tr, e). (tr, sleep w e)) attempts backoff rs typ body (g1, b1) (tr1, e1) = ((g', b'), tr', e')"
  proof (cases x)
    case None
    with Cons.prems one show thesis by (intro that [of "g + 1" b]) simp_all
  next
    case (Some er)
    with Cons.prems one show thesis by (intro that [of g "b + 1"]) simp_all
  qed
  from Cons.IH [OF gb(2)] obtain sent where "g' + b' = g1 + b1 + length rs" "tr' = tr1 @ sent"
    "length sent \<le> nat attempts * length rs" "set sent \<subseteq> (\<lambda>r. hook_request N r typ body) ` set rs" by blast
  with n gb(1) show ?case
    by (intro conjI exI [of _ "replicate n (hook_request N r typ body) @ sent"]) (auto simp: set_replicate_conv_if)
qed simp

section \<open>What the runner delivers\<close>

text \<open>The schedule as the log sees it.\<close>

fun log_acts :: "hook_act list \<Rightarrow> log_op option list" where
  "log_acts [] = []"
| "log_acts (HLog x # acts) = Some x # log_acts acts"
| "log_acts (HTurn # acts) = None # log_acts acts"
| "log_acts (a # acts) = log_acts acts"

lemma hook_loop_events: "map fst (fst (hook_loop marshal N hc sleep ch acts d l e)) = fst (recv_loop ch (log_acts acts) l)"
  by (induction marshal N hc sleep ch acts d l e rule: hook_loop.induct) (auto split: prod.split option.split)

lemma hook_run_events: "map fst (fst (Dispatcher_Run marshal N hc sleep acts d l e)) = recv_run 256 (log_acts acts) l"
  by (simp add: Dispatcher_Run_def recv_run_def hook_loop_events split_beta)

lemma log_acts_burst: "log_acts (map HLog xs @ acts) = map Some xs @ log_acts acts"
  by (induction xs) simp_all

text \<open>A request is one that a delivery of the given list may send.\<close>

definition sent_by :: "(Event \<Rightarrow> bytes) \<Rightarrow> Net \<Rightarrow> (Event \<times> Dispatcher \<times> nat \<times> nat) list \<Rightarrow> HttpReq \<Rightarrow> bool" where
  "sent_by marshal N dn q \<longleftrightarrow> (\<exists>(ev, d, c) \<in> set dn. \<exists>r \<in> set (Dispatcher_List d). q = hook_request N r (ev_Type ev) (marshal ev))"

lemma Deliver_recorded:
  assumes "Dispatcher_Deliver marshal N (recording hc) (\<lambda>w (tr, e). (tr, sleep w e)) ev d (tr, e) = ((g, b), tr', e')"
  shows "g + b = length (Dispatcher_List d) \<and> (\<exists>sent. tr' = tr @ sent \<and> (\<forall>q \<in> set sent. sent_by marshal N [(ev, d, g, b)] q))"
  using deliver_all_recorded [OF assms [unfolded Dispatcher_Deliver_def]] by (fastforce simp: sent_by_def)

lemma hook_loop_recorded:
  assumes "hook_loop marshal N (recording hc) (\<lambda>w (tr, e). (tr, sleep w e)) ch acts d l (tr, e) = (dn, d', l', tr', e')"
    and "hook_reach N d0 d"
  shows "(\<forall>(ev, d1, g, b) \<in> set dn. hook_reach N d0 d1 \<and> g + b = length (Dispatcher_List d1)) \<and>
    (\<exists>sent. tr' = tr @ sent \<and> (\<forall>q \<in> set sent. sent_by marshal N dn q))"
  using assms
proof (induction acts arbitrary: d l tr e dn)
  case (Cons a acts)
  show ?case
  proof (cases a)
    case HTurn
    obtain r l1 where recv: "Chan_Recv ch l = (r, l1)" by fastforce
    show ?thesis
    proof (cases r)
      case None
      with Cons.prems Cons.IH HTurn recv show ?thesis by (auto split: if_splits)
    next
      case (Some ev)
      obtain g b tr1 e1 where del: "Dispatcher_Deliver marshal N (recording hc) (\<lambda>w (tr, e). (tr, sleep w e)) ev d (tr, e) = ((g, b), tr1, e1)"
        by (metis surj_pair)
      from Deliver_recorded [OF del] obtain s1 where s1: "g + b = length (Dispatcher_List d)" "tr1 = tr @ s1"
        "\<forall>q \<in> set s1. sent_by marshal N [(ev, d, g, b)] q" by blast
      from Cons.prems(1) HTurn recv Some del obtain dn1 where dn: "dn = (ev, d, g, b) # dn1"
        "hook_loop marshal N (recording hc) (\<lambda>w (tr, e). (tr, sleep w e)) ch acts d l1 (tr1, e1) = (dn1, d', l', tr', e')"
        by (auto simp: apfst_def map_prod_def split: prod.splits)
      from Cons.IH [OF dn(2) Cons.prems(2)] obtain s2 where "tr' = tr1 @ s2" "\<forall>q \<in> set s2. sent_by marshal N dn1 q"
        "\<forall>(ev, d1, g, b) \<in> set dn1. hook_reach N d0 d1 \<and> g + b = length (Dispatcher_List d1)" by blast
      with s1 dn(1) Cons.prems(2) show ?thesis
        by (intro conjI exI [of _ "s1 @ s2"]) (auto simp: sent_by_def)
    qed
  qed (use Cons hook_register hook_remove in \<open>auto\<close>)
qed simp

section \<open>Properties\<close>

text \<open>Deliveries stay within the rules. Take any dispatcher that registrations and removals can make of
  a new one that does not allow private targets. Delivering an event counts every subscriber once,
  sends at most \<open>attempts\<close> requests per subscriber, and every request it sends is the signed event,
  addressed to the URL of a subscriber: an http or https URL whose host is neither \<^verbatim>\<open>localhost\<close> nor
  an IP literal of a loopback, private, link-local or unspecified address.\<close>

theorem Deliver_within_rules:
  assumes "hook_reach N (Dispatcher_New attempts backoff False) d"
    and "Dispatcher_Deliver marshal N (recording hc) (\<lambda>w (tr, e). (tr, sleep w e)) ev d ([], e) = ((g, b), sent, e')"
  shows "g + b = length (Dispatcher_List d) \<and> length sent \<le> nat (max attempts 1) * length (Dispatcher_List d) \<and>
     (\<forall>q \<in> set sent. \<exists>r \<in> set (Dispatcher_List d). q = hook_request N r (ev_Type ev) (marshal ev) \<and> public_url N (rq_url q))"
proof -
  have inv: "hooks_inv N d" "\<not> ds_allowPrivate d" "ds_attempts d = max attempts 1"
    using hook_reach_inv [OF assms(1) hooks_inv_New] by (auto simp: Dispatcher_New_def)
  then have pub: "\<forall>r \<in> set (Dispatcher_List d). public_url N (rn_URL r)"
    by (simp add: hooks_inv_def Dispatcher_List_def)
  from deliver_all_recorded [OF assms(2) [unfolded Dispatcher_Deliver_def]]
  have g: "g + b = length (Dispatcher_List d)" and "length sent \<le> nat (ds_attempts d) * length (Dispatcher_List d)"
    and "set sent \<subseteq> (\<lambda>r. hook_request N r (ev_Type ev) (marshal ev)) ` set (Dispatcher_List d)" by auto
  with pub inv(3) show ?thesis by (auto simp: hook_request_def)
qed

definition demo_net :: Net where
  "demo_net = \<lparr>nt_url = (\<lambda>u. if u = ''h'' then Some (''https'', ''example.org'') else None), nt_ip = (\<lambda>h. None),
     nt_hmac = (\<lambda>k m. k)\<rparr>"

theorem Deliver_within_rules_witness:
  "\<exists>g b sent e'. g + b = 1 \<and> length sent \<le> 3 \<and>
     Dispatcher_Deliver (\<lambda>ev. []) demo_net (recording \<lparr>hc_newreq = (\<lambda>u. None), hc_do = (\<lambda>q n. (Inl ErrNoUpstream, n + 1)), hc_now = (\<lambda>n. 0)\<rparr>)
       (\<lambda>w (tr, e). (tr, e + nat w)) \<lparr>ev_Partition = 0, ev_Offset = 0, ev_Key = [], ev_Type = ''t'', ev_Payload = []\<rparr>
       (snd (Dispatcher_Register demo_net ''h'' ''s'' (Dispatcher_New 3 1 False))) ([], 0 :: nat) = ((g, b), sent, e')"
proof -
  let ?hc = "\<lparr>hc_newreq = (\<lambda>u. None), hc_do = (\<lambda>q n. (Inl ErrNoUpstream, n + 1)), hc_now = (\<lambda>n. 0)\<rparr>"
  let ?d = "snd (Dispatcher_Register demo_net ''h'' ''s'' (Dispatcher_New 3 1 False))"
  let ?ev = "\<lparr>ev_Partition = 0, ev_Offset = 0, ev_Key = [], ev_Type = ''t'', ev_Payload = []\<rparr>"
  obtain g b sent e' where run: "Dispatcher_Deliver (\<lambda>ev. []) demo_net (recording ?hc) (\<lambda>w (tr, e). (tr, e + nat w)) ?ev ?d ([], 0)
      = ((g, b), sent, e' :: nat)" by (metis prod_cases3 surj_pair)
  have reach: "hook_reach demo_net (Dispatcher_New 3 1 False) ?d" by (intro hook_register hook_refl)
  have "length (Dispatcher_List ?d) = 1"
    by (simp add: Dispatcher_List_def Dispatcher_Register_def Dispatcher_validate_def demo_net_def Dispatcher_New_def
        Let_def put_reg_def lower_char_def)
  with Deliver_within_rules [OF reach run] have "g + b = 1" "length sent \<le> 3" by simp_all
  with run show ?thesis by blast
qed

text \<open>C37: what the webhook runner delivers. While events are appended, others subscribe to the log and clients register and
  remove webhooks, the events handed to the subscribers are the first ones appended since the runner
  started, in that order and without a gap; each is counted once for every webhook registered at that
  moment; and every request sent during the whole run is one of these events, signed for a webhook
  registered at the time and addressed to its URL: an http or https URL and, unless the dispatcher was made to allow private
  targets, one whose host is neither \<^verbatim>\<open>localhost\<close> nor the literal of a loopback, private, link-local or unspecified
  address. (Hosts that \<^verbatim>\<open>net.ParseIP\<close> does not accept, names and IPv6 literals with a zone, are not looked into.)\<close>

theorem hook_run_delivers:
  assumes "log_inv l" and "HLog (ORecv (lg_nextSub l)) \<notin> set acts"
    and "Dispatcher_Run marshal N (recording hc) (\<lambda>w (tr, e). (tr, sleep w e)) acts (Dispatcher_New attempts backoff private) l ([], e) =
      (dn, d', l', sent, e')"
  shows "prefix (map fst dn) (acts_appended (log_acts acts) l) \<and>
    (\<forall>(ev, d, g, b) \<in> set dn. g + b = length (Dispatcher_List d)) \<and>
    (\<forall>q \<in> set sent. \<exists>(ev, d, c) \<in> set dn. \<exists>r \<in> set (Dispatcher_List d).
       q = hook_request N r (ev_Type ev) (marshal ev) \<and> web_url N (rn_URL r) \<and> (private \<or> public_url N (rn_URL r)))"
proof -
  let ?d = "Dispatcher_New attempts backoff private"
  have "Some (ORecv (lg_nextSub l)) \<notin> set (log_acts acts)" using assms(2) by (induction acts rule: log_acts.induct) auto
  from recv_run_prefix [OF assms(1) this] have events: "prefix (map fst dn) (acts_appended (log_acts acts) l)"
    using hook_run_events [of marshal N "recording hc" "\<lambda>w (tr, e). (tr, sleep w e)" acts ?d l "([], e)"] assms(3) by simp
  have pub: "\<forall>r \<in> set (Dispatcher_List d). web_url N (rn_URL r) \<and> (private \<or> public_url N (rn_URL r))" if "hook_reach N ?d d" for d
    using hook_reach_inv [OF that hooks_inv_New] by (auto simp: hooks_inv_def Dispatcher_List_def Dispatcher_New_def)
  obtain ch l1 l2 where "hook_loop marshal N (recording hc) (\<lambda>w (tr, e). (tr, sleep w e)) ch acts ?d l1 ([], e) = (dn, d', l2, sent, e')"
    using assms(3) by (auto simp: Dispatcher_Run_def split: prod.splits)
  from hook_loop_recorded [OF this hook_refl] have
    reach: "\<forall>(ev, d, g, b) \<in> set dn. hook_reach N ?d d \<and> g + b = length (Dispatcher_List d)"
    and sent: "\<forall>q \<in> set sent. sent_by marshal N dn q" by auto
  with events pub show ?thesis by (fastforce simp: sent_by_def)
qed

theorem hook_run_delivers_witness:
  "\<exists>dn d' l' sent e'. length dn = 1 \<and> (\<forall>q \<in> set sent. rq_url q = ''h'') \<and>
     Dispatcher_Run (\<lambda>ev. []) demo_net (recording \<lparr>hc_newreq = (\<lambda>u. None), hc_do = (\<lambda>q n. (Inl ErrNoUpstream, n + 1)), hc_now = (\<lambda>n. 0)\<rparr>)
       (\<lambda>w (tr, e). (tr, e + nat w)) [HRegister ''h'' ''s'', HLog (OAppend ''k'' ''t'' [1]), HTurn] (Dispatcher_New 3 1 False) (Log_New 1) ([], 0 :: nat)
     = (dn, d', l', sent, e')"
proof -
  let ?hc = "\<lparr>hc_newreq = (\<lambda>u. None), hc_do = (\<lambda>q n. (Inl ErrNoUpstream, n + 1)), hc_now = (\<lambda>n. 0)\<rparr>"
  let ?acts = "[HRegister ''h'' ''s'', HLog (OAppend ''k'' ''t'' [1]), HTurn]"
  obtain dn d' l' sent e' where run: "Dispatcher_Run (\<lambda>ev. []) demo_net (recording ?hc) (\<lambda>w (tr, e). (tr, e + nat w)) ?acts
      (Dispatcher_New 3 1 False) (Log_New 1) ([], 0 :: nat) = (dn, d', l', sent, e')" by (metis prod_cases5)
  have "map fst dn = recv_run 256 (log_acts ?acts) (Log_New 1)"
    using hook_run_events [of "\<lambda>ev. []" demo_net "recording ?hc" "\<lambda>w (tr, e). (tr, e + nat w)" ?acts "Dispatcher_New 3 1 False" "Log_New 1" "([], 0)"] run
    by simp
  also have "length \<dots> = 1"
    by (simp add: recv_run_def Log_Subscribe_def Log_New_def Let_def log_put_def Log_Append_def log_broadcast_def log_part_def
        chan_send_def Chan_Recv_def)
  finally have one: "length dn = 1" by simp
  have inv: "log_inv (Log_New 1)" by (rule log_inv_New) simp
  have "rq_url q = ''h''" if q: "q \<in> set sent" for q
  proof -
    from hook_run_delivers [OF inv _ run] q obtain r where "q = hook_request demo_net r ''t'' [] \<or> rq_url q = rn_URL r" "web_url demo_net (rn_URL r)"
      by (fastforce simp: hook_request_def)
    then show ?thesis by (auto simp: web_url_def demo_net_def hook_request_def split: if_splits)
  qed
  with one run show ?thesis by blast
qed

text \<open>A runner that falls behind stops for good. Once more than 256 events are appended before it takes its next turn, the
  log closes its channel: however long the process runs on and however many events follow, the runner delivers
  at most the 256 events in its buffer and no other. (\<^verbatim>\<open>Run\<close> is documented to consume the live stream until its context ends.)\<close>

theorem hook_run_stops_after_burst:
  assumes "log_inv l" and "ORecv (lg_nextSub l) \<notin> set xs" and "256 < length (acts_appended (map Some xs) l)"
  shows "length (fst (Dispatcher_Run marshal N hc sleep (map HLog xs @ acts) d l e)) \<le> 256"
proof -
  have "length (recv_run 256 (map Some xs @ log_acts acts) l) \<le> 256"
    using recv_run_evicted [OF assms(1,2), of 256 "log_acts acts"] assms(3) by simp
  then show ?thesis
    using hook_run_events [of marshal N hc sleep "map HLog xs @ acts" d l e] by (metis length_map log_acts_burst)
qed

theorem hook_run_stops_after_burst_witness:
  "length (fst (Dispatcher_Run (\<lambda>ev. []) demo_net \<lparr>hc_newreq = (\<lambda>u. None), hc_do = (\<lambda>q n. (Inl ErrNoUpstream, n + 1)), hc_now = (\<lambda>n. 0)\<rparr> (\<lambda>w e. e) (map HLog (replicate 257 (OAppend ''k'' ''t'' [1])) @ replicate 1000 HTurn @
     [HLog (OAppend ''k'' ''t'' [2]), HTurn]) (Dispatcher_New 3 1 False) (Log_New 4) (0 :: nat))) \<le> 256"
  by (rule hook_run_stops_after_burst) (simp_all add: gw_inv length_appended)

end
