(* ===== verification/Signerclient.thy ===== *)
theory Signerclient
  imports Http Json
begin

text \<open>
  The custody boundary, \<^verbatim>\<open>internal/signerclient/signerclient.go\<close>: requests to the signer,
  authenticated with an HMAC over the timestamp and the body. HMAC-SHA256 is the parameter \<open>hmac\<close>, the
  network and the clock are the HTTP client; a time is counted in nanoseconds from the Unix epoch.
\<close>

record SignRequest =
  sg_KeyID :: string
  sg_Message :: string

record SignResponse =
  sp_Address :: string
  sp_Digest :: string
  sp_Signature :: string

record TxRequest =
  tr_KeyID :: string
  tr_ChainID :: u64
  tr_Nonce :: u64
  tr_GasPrice :: string
  tr_GasLimit :: u64
  tr_To :: string
  tr_Value :: string
  tr_Data :: string

record TxResponse =
  ts_Address :: string
  ts_SigningHash :: string
  ts_RawTx :: string
  ts_TxHash :: string

record 'e SignerClient =
  sc_BaseURL :: string
  sc_Secret :: string
  sc_HTTP :: "'e HttpClient"

definition MAC :: "(bytes \<Rightarrow> bytes \<Rightarrow> bytes) \<Rightarrow> string \<Rightarrow> string \<Rightarrow> bytes \<Rightarrow> string" where
  "MAC hmac secret ts body = hex_EncodeToString (hmac (bytes_of secret) (bytes_of (ts @ ''.'') @ body))"

text \<open>The JSON forms of the requests and responses, by their struct tags.\<close>

definition json_SignRequest :: "SignRequest \<Rightarrow> json" where
  "json_SignRequest r = JObj [(''key_id'', JStr (sg_KeyID r)), (''message'', JStr (sg_Message r))]"

definition json_TxRequest :: "TxRequest \<Rightarrow> json" where
  "json_TxRequest r = JObj [(''key_id'', JStr (tr_KeyID r)), (''chain_id'', JNum (FormatUint10 (tr_ChainID r))),
     (''nonce'', JNum (FormatUint10 (tr_Nonce r))), (''gas_price'', JStr (tr_GasPrice r)),
     (''gas_limit'', JNum (FormatUint10 (tr_GasLimit r))), (''to'', JStr (tr_To r)),
     (''value'', JStr (tr_Value r)), (''data'', JStr (tr_Data r))]"

definition dec_SignResponse :: "json \<Rightarrow> gerror + SignResponse" where
  "dec_SignResponse j = ebind (dec_object j) (\<lambda>fs.
     ebind (dec_field ''address'' dec_string fs) (\<lambda>a. ebind (dec_field ''digest'' dec_string fs) (\<lambda>d.
     ebind (dec_field ''signature'' dec_string fs) (\<lambda>g.
     Inr \<lparr>sp_Address = a, sp_Digest = d, sp_Signature = g\<rparr>))))"

definition dec_TxResponse :: "json \<Rightarrow> gerror + TxResponse" where
  "dec_TxResponse j = ebind (dec_object j) (\<lambda>fs.
     ebind (dec_field ''address'' dec_string fs) (\<lambda>a. ebind (dec_field ''signing_hash'' dec_string fs) (\<lambda>h.
     ebind (dec_field ''raw_tx'' dec_string fs) (\<lambda>r. ebind (dec_field ''tx_hash'' dec_string fs) (\<lambda>x.
     Inr \<lparr>ts_Address = a, ts_SigningHash = h, ts_RawTx = r, ts_TxHash = x\<rparr>)))))"

text \<open>The signer's error message, or nothing if the body is no such object.\<close>

definition error_message :: "JsonText \<Rightarrow> bytes \<Rightarrow> string" where
  "error_message T raw = (case js_parse T raw of
     None \<Rightarrow> []
   | Some j \<Rightarrow> (case ebind (dec_object j) (dec_field ''error'' dec_string) of Inl err \<Rightarrow> [] | Inr m \<Rightarrow> m))"

definition Unix :: "time \<Rightarrow> int" where
  "Unix t = t div 1000000000"

definition signed_request :: "JsonText \<Rightarrow> (bytes \<Rightarrow> bytes \<Rightarrow> bytes) \<Rightarrow> 'e SignerClient \<Rightarrow> time \<Rightarrow> string \<Rightarrow> json \<Rightarrow> HttpReq" where
  "signed_request T hmac c now path j =
     (let body = js_print T j; ts = big_String (Unix now)
      in \<lparr>rq_method = ''POST'', rq_url = sc_BaseURL c @ path,
          rq_header = [(''Content-Type'', ''application/json''), (''X-Timestamp'', ts),
                       (''X-Signature'', MAC hmac (sc_Secret c) ts body)],
          rq_body = body\<rparr>)"

definition SignerClient_post ::
  "JsonText \<Rightarrow> (bytes \<Rightarrow> bytes \<Rightarrow> bytes) \<Rightarrow> 'e SignerClient \<Rightarrow> string \<Rightarrow> json \<Rightarrow> (json \<Rightarrow> gerror + 'a) \<Rightarrow> ('e, 'a) call" where
  "SignerClient_post T hmac c path j dec e =
     (case hc_newreq (sc_HTTP c) (sc_BaseURL c @ path) of
        Some err \<Rightarrow> (Inl err, e)
      | None \<Rightarrow>
          (case hc_do (sc_HTTP c) (signed_request T hmac c (hc_now (sc_HTTP c) e) path j) e of
             (Inl err, e') \<Rightarrow> (Inl err, e')
           | (Inr resp, e') \<Rightarrow>
               (case read_limited (2 ^ 20) (rs_body resp) of
                  Inl err \<Rightarrow> (Inl err, e')
                | Inr raw \<Rightarrow>
                    if rs_status resp \<noteq> 200 then (Inl (APIError (rs_status resp) (error_message T raw)), e')
                    else (case js_parse T raw of
                       None \<Rightarrow> (Inl (OtherErr ''json: syntax error''), e')
                     | Some v \<Rightarrow> (dec v, e')))))"

definition SignerClient_Sign :: "JsonText \<Rightarrow> (bytes \<Rightarrow> bytes \<Rightarrow> bytes) \<Rightarrow> 'e SignerClient \<Rightarrow> SignRequest \<Rightarrow> ('e, SignResponse) call" where
  "SignerClient_Sign T hmac c r = SignerClient_post T hmac c ''/v1/sign'' (json_SignRequest r) dec_SignResponse"

definition SignerClient_SignTx :: "JsonText \<Rightarrow> (bytes \<Rightarrow> bytes \<Rightarrow> bytes) \<Rightarrow> 'e SignerClient \<Rightarrow> TxRequest \<Rightarrow> ('e, TxResponse) call" where
  "SignerClient_SignTx T hmac c r = SignerClient_post T hmac c ''/v1/sign-tx'' (json_TxRequest r) dec_TxResponse"

end
