(* ===== verification/Server.thy ===== *)
theory Server
  imports Gojson Intent Jsonrpc Ratelimit Cache Metrics Upstream Indexer Webhook Signerclient
begin

text \<open>
  The HTTP surface, \<^verbatim>\<open>internal/server/server.go\<close> and \<^verbatim>\<open>intents.go\<close>: authentication, the caching and
  rate-limited proxy behind \<^verbatim>\<open>POST /rpc\<close>, and intents with custodial signing. The other routes, the
  middleware and the root handler are in \<open>Routes\<close>. The components the server owns are the fields of \<open>Gate\<close>; the
  node, the signer, the intent service and the relays are the fields of \<open>Deps\<close>, acting on the world
  \<open>'e\<close>. A reply is its status and the Go value handed to \<^verbatim>\<open>writeJSON\<close>.
\<close>

section \<open>State\<close>

record 'e Intents =
  in_PrepareEVM :: "EVMRequest \<Rightarrow> ('e, Prepared) call"
  in_SimulateSolana :: "string \<Rightarrow> ('e, SolanaSim) call"

record 'e Deps =
  dp_Caller :: "'e Caller"
  dp_Health :: "'e \<Rightarrow> Status list"
  dp_Sign :: "SignRequest \<Rightarrow> ('e, SignResponse) call"
  dp_SignTx :: "TxRequest \<Rightarrow> ('e, TxResponse) call"
  dp_Intents :: "'e Intents option"
  dp_Relays :: "string \<rightharpoonup> (string \<Rightarrow> ('e, string) call)"
  dp_APIKeys :: "(string \<times> string) list"
  dp_AllowOrigin :: string

record Gate =
  gt_Limiter :: Limiter
  gt_Cache :: Cache
  gt_Metrics :: Registry
  gt_Hooks :: Dispatcher
  gt_Index :: Indexer

text \<open>The parameters that stand for the machine and the libraries.\<close>

record 'e Env =
  en_json :: JsonText
  en_fmt :: Fmt
  en_net :: Net
  en_sha256 :: "bytes \<Rightarrow> bytes"
  en_now :: "'e \<Rightarrow> time"

datatype payload =
    PError string
  | PStatusOK
  | PReady bool
  | PStatus Block "Status list" nat rat nat
  | PBlocks "Block list"
  | PIntent string "Tx option" "Simulation + SolanaSim" "TxResponse option" string
  | PSent string string
  | PSigned SignResponse
  | PHooks "Registration list"
  | PHook Registration
  | PJson json
  | PText string
  | PStream
  | PNone

datatype Reply = Reply (rp_status: int) (rp_payload: payload)

text \<open>An incoming request: method, header and query lookups, path value, body.\<close>

record HttpIn =
  hi_method :: string
  hi_header :: "string \<Rightarrow> string"
  hi_query :: "string \<Rightarrow> string"
  hi_path :: "string \<Rightarrow> string"
  hi_body :: "bytes \<times> gerror option"

section \<open>Authentication\<close>

definition key_table :: "'e Env \<Rightarrow> 'e Deps \<Rightarrow> (bytes \<times> string) list" where
  "key_table V d = map (\<lambda>(k, name). (en_sha256 V (bytes_of k), name)) (dp_APIKeys d)"

definition server_auth ::
  "'e Env \<Rightarrow> 'e Deps \<Rightarrow> (HttpIn \<Rightarrow> string \<Rightarrow> 's \<Rightarrow> Reply \<times> 's) \<Rightarrow> HttpIn \<Rightarrow> 's \<Rightarrow> Reply \<times> 's" where
  "server_auth V d nxt r s =
     (let key = (if hi_header r ''X-API-Key'' = [] then hi_query r ''api_key'' else hi_header r ''X-API-Key'')
      in case map_of (key_table V d) (en_sha256 V (bytes_of key)) of
           None \<Rightarrow> (Reply 401 (PError ''invalid api key''), s)
         | Some name \<Rightarrow> nxt r name s)"

section \<open>The proxy\<close>

definition cacheable :: "string \<Rightarrow> bool" where
  "cacheable m \<longleftrightarrow> m = ''eth_chainId'' \<or> m = ''eth_getBlockByHash''"

definition methodLabel :: "string \<Rightarrow> string" where
  "methodLabel m = (if length m > 4 \<and> take 4 m = ''eth_'' \<and> length m < 40 then m else ''other'')"

definition idOrNull :: "json option \<Rightarrow> json" where
  "idOrNull i = (case i of None \<Rightarrow> JNull | Some j \<Rightarrow> j)"

definition json_request :: "Request \<Rightarrow> json" where
  "json_request q = JObj ([(''jsonrpc'', JStr (rq_JSONRPC q)), (''method'', JStr (rq_Method q))] @
     (case rq_Params q of None \<Rightarrow> [] | Some p \<Rightarrow> [(''params'', p)]) @
     [(''id'', idOrNull (rq_ID q))])"

definition dec_error :: "json \<Rightarrow> gerror + Error" where
  "dec_error j = ebind (dec_object j) (\<lambda>fs. ebind (dec_field ''code'' dec_int fs) (\<lambda>c.
     ebind (dec_field ''message'' dec_string fs) (\<lambda>m. Inr \<lparr>er_Code = c, er_Message = m\<rparr>)))"

definition dec_response :: "json \<Rightarrow> gerror + Response" where
  "dec_response j = ebind (dec_object j) (\<lambda>fs. ebind (dec_field ''jsonrpc'' dec_string fs) (\<lambda>v.
     ebind (dec_ptr dec_error (json_field ''error'' fs)) (\<lambda>er.
     Inr \<lparr>rp_JSONRPC = v, rp_Result = json_field ''result'' fs, rp_Error = er,
          rp_ID = (case json_field ''id'' fs of None \<Rightarrow> JNull | Some i \<Rightarrow> i)\<rparr>)))"

definition cache_key :: "Request \<Rightarrow> string" where
  "cache_key q = rq_Method q @ string_of (rq_ParamsText q)"

text \<open>What the cache holds for a result: its text, nothing for an absent one.\<close>

definition result_text :: "JsonText \<Rightarrow> json option \<Rightarrow> bytes" where
  "result_text T r = (case r of None \<Rightarrow> [] | Some j \<Rightarrow> js_print T j)"

definition text_result :: "JsonText \<Rightarrow> bytes \<Rightarrow> json option" where
  "text_result T b = (if b = [] then None else js_parse T b)"

definition ms_text :: "duration \<Rightarrow> string" where
  "ms_text w = ''rate limited; retry in '' @ big_String (go_quot w 1000000) @ ''ms''"

text \<open>The part of \<^verbatim>\<open>proxy\<close> behind the limiter and the cache lookup.\<close>

definition server_forward ::
  "'e Env \<Rightarrow> 'e Deps \<Rightarrow> Request \<Rightarrow> Gate \<times> 'e \<Rightarrow> (Response \<times> string) \<times> Gate \<times> 'e" where
  "server_forward V d q = (\<lambda>(g, e).
     case dp_Caller d (js_print (en_json V) (json_request q)) e of
       (Inl err, e') \<Rightarrow> ((Fail (rq_ID q) CodeUpstream ''upstream unavailable'', ''upstream_error''), g, e')
     | (Inr raw, e') \<Rightarrow>
         (case (case js_parse (en_json V) raw of None \<Rightarrow> Inl type_err | Some j \<Rightarrow> dec_response j) of
            Inl err \<Rightarrow> ((Fail (rq_ID q) CodeUpstream ''malformed upstream response'', ''upstream_error''), g, e')
          | Inr p \<Rightarrow>
              let resp = p\<lparr>rp_ID := idOrNull (rq_ID q)\<rparr> in
              if rp_Error resp \<noteq> None then ((resp, ''error''), g, e')
              else if cacheable (rq_Method q) \<and> rp_Result resp \<noteq> Some JNull
              then ((resp, ''ok''), g\<lparr>gt_Cache := Cache_Set (en_now V e') (cache_key q)
                      (result_text (en_json V) (rp_Result resp)) (gt_Cache g)\<rparr>, e')
              else ((resp, ''ok''), g, e')))"

definition server_proxy ::
  "'e Env \<Rightarrow> 'e Deps \<Rightarrow> Request \<Rightarrow> string \<Rightarrow> Gate \<times> 'e \<Rightarrow> (Response \<times> string) \<times> Gate \<times> 'e" where
  "server_proxy V d q client = (\<lambda>(g, e).
     case Limiter_Allow (fm_rnd (en_fmt V)) (en_now V e) client (gt_Limiter g) of
       ((False, wait), lm) \<Rightarrow> ((Fail (rq_ID q) CodeRateLimited (ms_text wait), ''ratelimited''), g\<lparr>gt_Limiter := lm\<rparr>, e)
     | ((True, wait), lm) \<Rightarrow>
         let g1 = g\<lparr>gt_Limiter := lm\<rparr> in
         if cacheable (rq_Method q) then
           (case Cache_Get (en_now V e) (cache_key q) (gt_Cache g1) of
              (Some hit, c) \<Rightarrow>
                ((\<lparr>rp_JSONRPC = ''2.0'', rp_Result = text_result (en_json V) hit, rp_Error = None, rp_ID = idOrNull (rq_ID q)\<rparr>,
                  ''cached''), g1\<lparr>gt_Cache := c\<rparr>, e)
            | (None, c) \<Rightarrow> server_forward V d q (g1\<lparr>gt_Cache := c\<rparr>, e))
         else server_forward V d q (g1, e))"

definition rpc_handler :: "'e Env \<Rightarrow> 'e Deps \<Rightarrow> string \<Rightarrow> (Gate \<times> 'e) Handler" where
  "rpc_handler V d client q s = (case server_proxy V d q client s of ((resp, outcome), g, e) \<Rightarrow>
     (resp, g\<lparr>gt_Metrics := Registry_Inc (en_fmt V) ''gateway_rpc_calls_total''
        [(''method'', methodLabel (rq_Method q)), (''outcome'', outcome)] (gt_Metrics g)\<rparr>, e))"

definition server_rpc :: "'e Env \<Rightarrow> 'e Deps \<Rightarrow> HttpIn \<Rightarrow> string \<Rightarrow> Gate \<times> 'e \<Rightarrow> json \<times> Gate \<times> 'e" where
  "server_rpc V d r client s = Serve_reply (en_json V) (hi_body r) (rpc_handler V d client) s"

section \<open>Errors\<close>

definition signerFail :: "gerror \<Rightarrow> Reply" where
  "signerFail err = (case err of APIError st m \<Rightarrow> Reply st (PError m) | _ \<Rightarrow> Reply 502 (PError ''signer unavailable''))"

definition server_fail :: "gerror \<Rightarrow> Reply" where
  "server_fail err = (case err of
     ErrRelayInvalid \<Rightarrow> Reply 400 (PError ''malformed raw transaction'')
   | InvalidError m \<Rightarrow> Reply 400 (PError m)
   | GrpcStatus c m \<Rightarrow>
       if c = 3 then Reply 400 (PError m)
       else if c = 8 \<or> c = 9 then Reply 422 (PError m)
       else if c = 14 \<or> c = 4 then Reply 503 (PError ''simulation engine unavailable'')
       else Reply 502 (PError ''simulation engine error'')
   | RpcError c m \<Rightarrow> Reply 502 (PError (''node error: '' @ m))
   | _ \<Rightarrow> Reply 502 (PError ''upstream unavailable''))"

section \<open>Intents\<close>

record intentBody =
  ib_Chain :: string
  ib_EVM :: EVMRequest
  ib_Tx :: string
  ib_Sign :: "string option"

text \<open>\<^verbatim>\<open>json.Decoder\<close> behind \<^verbatim>\<open>MaxBytesReader\<close>.\<close>

definition decode_body :: "JsonText \<Rightarrow> nat \<Rightarrow> (json \<Rightarrow> gerror + 'a) \<Rightarrow> bytes \<times> gerror option \<Rightarrow> gerror + 'a" where
  "decode_body T limit dec body = (case js_first T (take limit (fst body)) of
     None \<Rightarrow> Inl (OtherErr ''json: decode'')
   | Some j \<Rightarrow> dec j)"

definition dec_sign :: "json \<Rightarrow> gerror + string" where
  "dec_sign j = ebind (dec_object j) (\<lambda>fs. ebind (only_fields [''key_id''] fs) (dec_field ''key_id'' dec_string))"

definition dec_intentBody :: "json \<Rightarrow> gerror + intentBody" where
  "dec_intentBody j = ebind (dec_object j) (\<lambda>fs0.
     ebind (only_fields [''chain'', ''chain_id'', ''from'', ''to'', ''value'', ''data'', ''gas_limit'', ''gas_price'', ''tx'', ''sign''] fs0) (\<lambda>fs.
     ebind (dec_field ''chain'' dec_string fs) (\<lambda>chain.
     ebind (dec_field ''chain_id'' dec_uint64 fs) (\<lambda>cid.
     ebind (dec_field ''from'' dec_string fs) (\<lambda>from.
     ebind (dec_field ''to'' dec_string fs) (\<lambda>to.
     ebind (dec_field ''value'' dec_string fs) (\<lambda>value.
     ebind (dec_field ''data'' dec_string fs) (\<lambda>data.
     ebind (dec_field ''gas_limit'' dec_uint64 fs) (\<lambda>gl.
     ebind (dec_field ''gas_price'' dec_string fs) (\<lambda>gp.
     ebind (dec_field ''tx'' dec_string fs) (\<lambda>tx.
     ebind (dec_ptr dec_sign (json_field ''sign'' fs)) (\<lambda>sg.
     Inr \<lparr>ib_Chain = chain,
          ib_EVM = \<lparr>ev_ChainID = cid, ev_From = from, ev_To = to, ev_Value = value, ev_Data = data,
                     ev_GasLimit = gl, ev_GasPrice = gp\<rparr>,
          ib_Tx = tx, ib_Sign = sg\<rparr>))))))))))))"

definition tx_request :: "string \<Rightarrow> Tx \<Rightarrow> TxRequest" where
  "tx_request key t = \<lparr>tr_KeyID = key, tr_ChainID = tx_ChainID t, tr_Nonce = tx_Nonce t, tr_GasPrice = tx_GasPrice t,
     tr_GasLimit = tx_GasLimit t, tr_To = tx_To t, tr_Value = tx_Value t, tr_Data = tx_Data t\<rparr>"

definition count_sim :: "'e Env \<Rightarrow> string \<Rightarrow> string \<Rightarrow> Gate \<Rightarrow> Gate" where
  "count_sim V chain outcome g = g\<lparr>gt_Metrics := Registry_Inc (en_fmt V) ''gateway_simulations_total''
     [(''chain'', chain), (''outcome'', outcome)] (gt_Metrics g)\<rparr>"

text \<open>The EVM case of \<^verbatim>\<open>doIntent\<close> after a successful preparation.\<close>

definition sign_prepared :: "'e Deps \<Rightarrow> bool \<Rightarrow> intentBody \<Rightarrow> Prepared \<Rightarrow> 'e \<Rightarrow> Reply \<times> 'e" where
  "sign_prepared d allowSign b p e =
     (let out = (\<lambda>signed skipped. Reply 200 (PIntent ''evm'' (Some (pr_Tx p)) (Inl (pr_Simulation p)) signed skipped)) in
      case (if allowSign then ib_Sign b else None) of
        None \<Rightarrow> (out None [], e)
      | Some key \<Rightarrow>
          if sn_Outcome (pr_Simulation p) \<noteq> ''success''
          then (out None (''simulation '' @ sn_Outcome (pr_Simulation p) @ ''; nothing was signed''), e)
          else if tx_To (pr_Tx p) = [] then (out None ''contract creation is not signable by policy'', e)
          else (case dp_SignTx d (tx_request key (pr_Tx p)) e of
             (Inl err, e') \<Rightarrow> (signerFail err, e')
           | (Inr t, e') \<Rightarrow> (out (Some t) [], e')))"

definition server_doIntent :: "'e Env \<Rightarrow> 'e Deps \<Rightarrow> bool \<Rightarrow> HttpIn \<Rightarrow> Gate \<times> 'e \<Rightarrow> Reply \<times> Gate \<times> 'e" where
  "server_doIntent V d allowSign r = (\<lambda>(g, e).
     case dp_Intents d of
       None \<Rightarrow> (Reply 501 (PError ''simulation engine not configured''), g, e)
     | Some sv \<Rightarrow>
         (case decode_body (en_json V) (64 * 2 ^ 10) dec_intentBody (hi_body r) of
            Inl err \<Rightarrow> (Reply 400 (PError ''body must be a JSON intent''), g, e)
          | Inr b \<Rightarrow>
              if ib_Chain b = ''solana'' then
                (if ib_Sign b \<noteq> None
                 then (Reply 400 (PError ''custodial signing is EVM-only; sign Solana transactions in the wallet''), g, e)
                 else (case in_SimulateSolana sv (ib_Tx b) e of
                    (Inl err, e') \<Rightarrow> (server_fail err, g, e')
                  | (Inr sim, e') \<Rightarrow>
                      (Reply 200 (PIntent ''solana'' None (Inr sim) None []),
                       count_sim V ''solana'' (if so_Success sim then ''success'' else ''error'') g, e')))
              else if ib_Chain b = [] \<or> ib_Chain b = ''evm'' then
                (case in_PrepareEVM sv (ib_EVM b) e of
                   (Inl err, e') \<Rightarrow> (server_fail err, g, e')
                 | (Inr p, e') \<Rightarrow>
                     let g1 = count_sim V ''evm'' (sn_Outcome (pr_Simulation p)) g;
                         g2 = g1\<lparr>gt_Metrics := Registry_Set (en_fmt V) ''gateway_engine_elapsed_us'' []
                                (fm_rnd (en_fmt V) (of_nat (unat (sn_ElapsedUS (pr_Simulation p))))) (gt_Metrics g1)\<rparr>
                     in (case sign_prepared d allowSign b p e' of (rep, e'') \<Rightarrow> (rep, g2, e'')))
              else (Reply 400 (PError (''chain must be '' @ [CHR 0x22] @ ''evm'' @ [CHR 0x22] @ '' or '' @ [CHR 0x22] @ ''solana'' @ [CHR 0x22])), g, e)))"

definition server_simulate :: "'e Env \<Rightarrow> 'e Deps \<Rightarrow> HttpIn \<Rightarrow> string \<Rightarrow> Gate \<times> 'e \<Rightarrow> Reply \<times> Gate \<times> 'e" where
  "server_simulate V d r c = server_doIntent V d False r"

definition server_intentRoute :: "'e Env \<Rightarrow> 'e Deps \<Rightarrow> HttpIn \<Rightarrow> string \<Rightarrow> Gate \<times> 'e \<Rightarrow> Reply \<times> Gate \<times> 'e" where
  "server_intentRoute V d r c = server_doIntent V d True r"

section \<open>Authentication, exactly\<close>

lemma map_of_digest:
  assumes "inj_on f (insert k (fst ` set ks))"
  shows "map_of (map (\<lambda>(a, b). (f a, b)) ks) (f k) = map_of ks k"
  using assms by (induction ks) (auto simp: inj_on_def)

section \<open>The proxy and its cache\<close>

lemma idOrNull_normID: "idOrNull i = normID i"
  by (simp add: idOrNull_def normID_def)

lemma forward_id: "rp_ID (fst (fst (server_forward V d q s))) = normID (rq_ID q)"
  by (auto simp: server_forward_def Fail_def Let_def idOrNull_normID split: prod.splits sum.splits)

lemma proxy_id: "rp_ID (fst (fst (server_proxy V d q client s))) = normID (rq_ID q)"
  using forward_id
  by (auto simp: server_proxy_def Fail_def Let_def idOrNull_normID split: prod.splits bool.splits option.splits)

lemma rpc_handler_id: "rp_ID (fst (rpc_handler V d client q s)) = normID (rq_ID q)"
  using proxy_id [of V d q client s] by (simp add: rpc_handler_def split_beta)

lemma string_of_inj: "string_of a = string_of b \<Longrightarrow> a = b"
proof (induction a arbitrary: b)
  case (Cons x a)
  then obtain y b' where b: "b = y # b'" "char_of (unat x) = (char_of (unat y) :: char)" "string_of a = string_of b'"
    by (cases b) (auto simp: string_of_def)
  have "unat x < 256" "unat y < 256" by (rule unat_byte_less)+
  with b(2) have "unat x = unat y" using of_char_char_of_small by metis
  with Cons.IH b show ?case by (simp add: word_unat_eq_iff)
qed (simp add: string_of_def)

lemma cache_key_inj:
  assumes "cacheable (rq_Method q)" and "cacheable (rq_Method q')" and "cache_key q = cache_key q'"
  shows "rq_Method q = rq_Method q' \<and> rq_ParamsText q = rq_ParamsText q'"
proof -
  have "rq_Method q = rq_Method q'" using assms by (auto simp: cacheable_def cache_key_def)
  with assms(3) string_of_inj show ?thesis by (auto simp: cache_key_def)
qed

text \<open>A caller that keeps the bodies it sent and the answers it got.\<close>

definition recording_caller :: "'e Caller \<Rightarrow> ((bytes \<times> bytes) list \<times> 'e) Caller" where
  "recording_caller c body = (\<lambda>(tr, e). case c body e of
     (Inl err, e') \<Rightarrow> (Inl err, tr, e')
   | (Inr raw, e') \<Rightarrow> (Inr raw, tr @ [(body, raw)], e'))"

text \<open>The node has answered a request with this method and these parameters, without an error, with this result.\<close>

definition answered :: "JsonText \<Rightarrow> (bytes \<times> bytes) list \<Rightarrow> string \<Rightarrow> bytes \<Rightarrow> json option \<Rightarrow> bool" where
  "answered T tr m ps res \<longleftrightarrow> (\<exists>q raw j p. (js_print T (json_request q), raw) \<in> set tr \<and> rq_Method q = m \<and> rq_ParamsText q = ps \<and>
     js_parse T raw = Some j \<and> dec_response j = Inr p \<and> rp_Error p = None \<and> rp_Result p = res)"

lemma answered_mono: "answered T tr m ps res \<Longrightarrow> set tr \<subseteq> set tr' \<Longrightarrow> answered T tr' m ps res"
  unfolding answered_def by blast

definition stored_ok :: "JsonText \<Rightarrow> (bytes \<times> bytes) list \<Rightarrow> string \<Rightarrow> bytes \<Rightarrow> bool" where
  "stored_ok T tr k v \<longleftrightarrow>
     (\<exists>m ps res. cacheable m \<and> k = m @ string_of ps \<and> v = result_text T res \<and> answered T tr m ps res)"

definition cache_provenance :: "JsonText \<Rightarrow> (bytes \<times> bytes) list \<Rightarrow> Cache \<Rightarrow> bool" where
  "cache_provenance T tr c \<longleftrightarrow> cache_inv c \<and> (\<forall>(k, v) \<in> cache_contents c. stored_ok T tr k v)"

lemma stored_ok_mono: "stored_ok T tr k v \<Longrightarrow> set tr \<subseteq> set tr' \<Longrightarrow> stored_ok T tr' k v"
  unfolding stored_ok_def using answered_mono by blast

lemma provenance_mono: "cache_provenance T tr c \<Longrightarrow> set tr \<subseteq> set tr' \<Longrightarrow> cache_provenance T tr' c"
  unfolding cache_provenance_def using stored_ok_mono by fastforce

lemma provenance_New: "cache_provenance T tr (Cache_New cap ttl)"
  by (simp add: cache_provenance_def cache_inv_New cache_contents_def)

lemma provenance_Get:
  assumes "cache_provenance T tr c"
  shows "cache_provenance T tr (snd (Cache_Get t k c))"
proof -
  have inv: "cache_inv c" "\<forall>(k, v) \<in> cache_contents c. stored_ok T tr k v"
    using assms by (simp_all add: cache_provenance_def)
  show ?thesis
    unfolding cache_provenance_def using lru_store.inv_get [OF inv(1)] lru_store.all_stored_get [OF inv] by simp
qed

lemma provenance_Set:
  assumes "cache_provenance T tr c" and "stored_ok T tr k v"
  shows "cache_provenance T tr (Cache_Set t k v c)"
proof -
  have inv: "cache_inv c" "\<forall>(k, v) \<in> cache_contents c. stored_ok T tr k v"
    using assms by (simp_all add: cache_provenance_def)
  show ?thesis
    unfolding cache_provenance_def
    using lru_store.inv_put [OF inv(1)] lru_store.all_stored_put [OF inv assms(2)] by simp
qed

lemma provenance_hit:
  assumes "cache_provenance T tr c" and "fst (Cache_Get t k c) = Some v"
  shows "stored_ok T tr k v"
  using assms lru_store.hit_stored [of c "stored_ok T tr" t k v] by (simp add: cache_provenance_def)

lemma forward_provenance:
  assumes "cache_provenance (en_json V) tr (gt_Cache g)" and "dp_Caller d = recording_caller c"
    and "server_forward V d q (g, (tr, e)) = (r, g', (tr', e'))"
  shows "cache_provenance (en_json V) tr' (gt_Cache g') \<and> set tr \<subseteq> set tr'"
proof -
  let ?T = "en_json V" and ?body = "js_print (en_json V) (json_request q)"
  obtain x e1 where c: "c ?body e = (x, e1)" by fastforce
  show ?thesis
  proof (cases x)
    case (Inl err)
    with assms c show ?thesis by (auto simp: server_forward_def recording_caller_def)
  next
    case (Inr raw)
    let ?tr = "tr @ [(?body, raw)]"
    have prov: "cache_provenance ?T ?tr (gt_Cache g)" by (rule provenance_mono [OF assms(1)]) auto
    have call: "dp_Caller d ?body (tr, e) = (Inr raw, ?tr, e1)" using assms(2) c Inr by (simp add: recording_caller_def)
    have set: "cache_provenance ?T ?tr (Cache_Set t (cache_key q) (result_text ?T (rp_Result p)) (gt_Cache g))"
      if "js_parse ?T raw = Some j" "dec_response j = Inr p" "rp_Error p = None" "cacheable (rq_Method q)" for j p t
    proof (rule provenance_Set [OF prov])
      have "answered ?T ?tr (rq_Method q) (rq_ParamsText q) (rp_Result p)"
        unfolding answered_def using that by (intro exI [of _ q] exI [of _ raw] exI [of _ j] exI [of _ p]) simp
      with that(4) show "stored_ok ?T ?tr (cache_key q) (result_text ?T (rp_Result p))"
        unfolding stored_ok_def cache_key_def by blast
    qed
    show ?thesis
    proof (cases "case js_parse ?T raw of None \<Rightarrow> Inl type_err | Some j \<Rightarrow> dec_response j")
      case (Inl err)
      with assms(3) call prov show ?thesis by (simp add: server_forward_def) auto
    next
      case (Inr p)
      then obtain j where "js_parse ?T raw = Some j" "dec_response j = Inr p" by (auto split: option.splits)
      with assms(3) call prov set show ?thesis
        by (auto simp: server_forward_def Let_def split: if_splits)
    qed
  qed
qed

lemma proxy_provenance:
  assumes "cache_provenance (en_json V) tr (gt_Cache g)" and "dp_Caller d = recording_caller c"
    and "server_proxy V d q client (g, (tr, e)) = (r, g', (tr', e'))"
  shows "cache_provenance (en_json V) tr' (gt_Cache g') \<and> set tr \<subseteq> set tr'"
proof -
  obtain ok wait lm where lim: "Limiter_Allow (fm_rnd (en_fmt V)) (en_now V (tr, e)) client (gt_Limiter g) = ((ok, wait), lm)"
    by (metis surj_pair)
  let ?g = "g\<lparr>gt_Limiter := lm\<rparr>"
  obtain hit ca where get: "Cache_Get (en_now V (tr, e)) (cache_key q) (gt_Cache g) = (hit, ca)" by fastforce
  have ca: "cache_provenance (en_json V) tr ca" using provenance_Get [OF assms(1)] get by (metis snd_conv)
  consider "\<not> ok" | "ok" "cacheable (rq_Method q)" "hit \<noteq> None"
    | "ok" "cacheable (rq_Method q)" "hit = None" | "ok" "\<not> cacheable (rq_Method q)" by blast
  then show ?thesis
  proof cases
    case 1
    with assms lim show ?thesis by (auto simp: server_proxy_def)
  next
    case 2
    with assms(3) lim get ca show ?thesis by (auto simp: server_proxy_def Let_def)
  next
    case 3
    with assms(3) lim get have "server_forward V d q (?g\<lparr>gt_Cache := ca\<rparr>, (tr, e)) = (r, g', (tr', e'))"
      by (simp add: server_proxy_def Let_def)
    from forward_provenance [OF _ assms(2) this] ca show ?thesis by simp
  next
    case 4
    with assms(3) lim have "server_forward V d q (?g, (tr, e)) = (r, g', (tr', e'))" by (simp add: server_proxy_def Let_def)
    from forward_provenance [OF _ assms(2) this] assms(1) show ?thesis by simp
  qed
qed

lemma forward_outcome: "snd (fst (server_forward V d q s)) \<noteq> ''cached''"
  by (auto simp: server_forward_def Let_def split: prod.splits sum.splits)

lemma proxy_cached:
  assumes "server_proxy V d q client (g, e) = ((resp, ''cached''), s')"
  obtains v where "cacheable (rq_Method q)" "fst (Cache_Get (en_now V e) (cache_key q) (gt_Cache g)) = Some v"
    "resp = \<lparr>rp_JSONRPC = ''2.0'', rp_Result = text_result (en_json V) v, rp_Error = None, rp_ID = idOrNull (rq_ID q)\<rparr>"
    "snd s' = e"
proof -
  obtain ok wait lm where lim: "Limiter_Allow (fm_rnd (en_fmt V)) (en_now V e) client (gt_Limiter g) = ((ok, wait), lm)"
    by (metis surj_pair)
  have f: "server_forward V d q x \<noteq> ((resp, ''cached''), s')" for x using forward_outcome [of V d q x] by auto
  from assms lim f that show thesis
    by (auto simp: server_proxy_def Let_def split: bool.splits if_splits option.splits prod.splits)
qed

lemma dec_response_result:
  assumes "dec_response j = Inr p" and "rp_Result p = Some v"
  obtains fs k where "j = JObj fs" and "(k, v) \<in> set fs"
proof -
  from assms(1) obtain fs where fs: "dec_object j = Inr fs" "rp_Result p = json_field ''result'' fs"
    by (auto simp: dec_response_def early_return)
  with assms(2) obtain k where "(k, v) \<in> set fs" using json_field_member [of "''result''" fs v] by auto
  with fs(1) that show thesis by (cases j) auto
qed

context json_text
begin

text \<open>A result that came from the node is read back from its text.\<close>

lemma result_text_back:
  assumes "answered T tr m ps res"
  shows "text_result T (result_text T res) = res"
proof (cases res)
  case (Some v)
  from assms Some obtain raw j p where p: "js_parse T raw = Some j" "dec_response j = Inr p" "rp_Result p = Some v"
    unfolding answered_def by metis
  obtain fs k where "j = JObj fs" "(k, v) \<in> set fs" using dec_response_result [OF p(2,3)] by blast
  then have "valid v" using parse_valid [OF p(1)] member_valid by blast
  with Some parse_print print_nonempty show ?thesis by (simp add: text_result_def result_text_def)
qed (simp add: text_result_def result_text_def)

end

text \<open>A run of the proxy: requests of any clients, one after the other.\<close>

fun proxy_run :: "'e Env \<Rightarrow> 'e Deps \<Rightarrow> (Request \<times> string) list \<Rightarrow> Gate \<times> 'e \<Rightarrow> Gate \<times> 'e" where
  "proxy_run V d [] s = s"
| "proxy_run V d ((q, client) # qs) s = proxy_run V d qs (snd (server_proxy V d q client s))"

lemma proxy_run_provenance:
  assumes "cache_provenance (en_json V) tr (gt_Cache g)" and "dp_Caller d = recording_caller c"
    and "proxy_run V d qs (g, (tr, e)) = (g', (tr', e'))"
  shows "cache_provenance (en_json V) tr' (gt_Cache g')"
  using assms(1,3)
proof (induction qs arbitrary: g tr e)
  case (Cons x qs)
  obtain q client where x: "x = (q, client)" by fastforce
  obtain r g1 tr1 e1 where p: "server_proxy V d q client (g, (tr, e)) = (r, g1, (tr1, e1))" by (metis surj_pair)
  have "proxy_run V d qs (g1, (tr1, e1)) = (g', (tr', e'))" using Cons.prems(2) x p by simp
  from Cons.IH [OF _ this] proxy_provenance [OF Cons.prems(1) assms(2) p] show ?case by blast
qed simp

section \<open>Signing\<close>

text \<open>The reply once the signer was called and answered \<open>x\<close>.\<close>

definition signed_reply :: "Prepared \<Rightarrow> gerror + TxResponse \<Rightarrow> Reply" where
  "signed_reply p x = (case x of Inl err \<Rightarrow> signerFail err
     | Inr t \<Rightarrow> Reply 200 (PIntent ''evm'' (Some (pr_Tx p)) (Inl (pr_Simulation p)) (Some t) []))"

lemma sign_prepared_cases:
  assumes "sign_prepared d allowSign b p e = (rep, e')"
  shows "(\<forall>sg. sign_prepared (d\<lparr>dp_SignTx := sg\<rparr>) allowSign b p e = (rep, e')) \<or>
    (\<exists>key. allowSign \<and> ib_Sign b = Some key \<and> sn_Outcome (pr_Simulation p) = ''success'' \<and> tx_To (pr_Tx p) \<noteq> [] \<and>
       (\<exists>x. dp_SignTx d (tx_request key (pr_Tx p)) e = (x, e') \<and> rep = signed_reply p x))"
proof (cases "if allowSign then ib_Sign b else None")
  case None
  with assms show ?thesis by (simp add: sign_prepared_def Let_def)
next
  case (Some key)
  then have "allowSign" "ib_Sign b = Some key" by (auto split: if_splits)
  with assms show ?thesis
    by (cases "sn_Outcome (pr_Simulation p) = ''success'' \<and> tx_To (pr_Tx p) \<noteq> []")
       (auto simp: sign_prepared_def signed_reply_def Let_def split: prod.splits sum.splits)
qed

lemma sim_view_success: "sn_Outcome (sim_view res) = ''success'' \<longleftrightarrow> sm_Outcome res = Success"
  by (cases "sm_Outcome res") (simp_all add: sim_view_def)

definition evm_chain :: "intentBody \<Rightarrow> bool" where
  "evm_chain b \<longleftrightarrow> ib_Chain b = [] \<or> ib_Chain b = ''evm''"

text \<open>The two ways through \<^verbatim>\<open>doIntent\<close>: to the signing step, or past it.\<close>

lemma doIntent_evm:
  assumes "dp_Intents d = Some sv" and "decode_body (en_json V) (64 * 2 ^ 10) dec_intentBody (hi_body r) = Inr b" and "evm_chain b"
    and "in_PrepareEVM sv (ib_EVM b) e = (Inr p, e1)"
  shows "\<exists>g1. \<forall>sg. server_doIntent V (d\<lparr>dp_SignTx := sg\<rparr>) allowSign r (g, e) =
      (fst (sign_prepared (d\<lparr>dp_SignTx := sg\<rparr>) allowSign b p e1), g1, snd (sign_prepared (d\<lparr>dp_SignTx := sg\<rparr>) allowSign b p e1))"
proof -
  have "ib_Chain b \<noteq> ''solana''" "ib_Chain b = [] \<or> ib_Chain b = ''evm''" using assms(3) by (auto simp: evm_chain_def)
  with assms show ?thesis by (simp add: server_doIntent_def Let_def split_beta)
qed

lemma doIntent_other:
  assumes "dp_Intents d = Some sv"
    and "\<nexists>b p e1. decode_body (en_json V) (64 * 2 ^ 10) dec_intentBody (hi_body r) = Inr b \<and> evm_chain b \<and>
           in_PrepareEVM sv (ib_EVM b) e = (Inr p, e1)"
  shows "server_doIntent V (d\<lparr>dp_SignTx := sg\<rparr>) allowSign r (g, e) = server_doIntent V d allowSign r (g, e)"
proof (cases "decode_body (en_json V) (64 * 2 ^ 10) dec_intentBody (hi_body r)")
  case (Inr b)
  show ?thesis
  proof (cases "evm_chain b")
    case True
    obtain x e1 where "in_PrepareEVM sv (ib_EVM b) e = (x, e1)" by fastforce
    with assms Inr True obtain err where "in_PrepareEVM sv (ib_EVM b) e = (Inl err, e1)" by (cases x) auto
    with assms(1) Inr True show ?thesis by (auto simp: server_doIntent_def evm_chain_def)
  qed (use assms(1) Inr in \<open>simp add: server_doIntent_def evm_chain_def\<close>)
qed (use assms(1) in \<open>simp add: server_doIntent_def\<close>)

text \<open>A small gateway for the examples, on the node and the engine of the intent service's example.\<close>

definition demo_env :: "byte Env" where
  "demo_env = \<lparr>en_json = demo_text\<lparr>js_first := (\<lambda>b. Some (JObj [(''chain_id'', JNum ''1''), (''from'', JStr (hx (replicate 20 17))),
       (''to'', JStr (hx (replicate 20 34))), (''value'', JStr ''1000''), (''sign'', JObj [(''key_id'', JStr ''k1'')])]))\<rparr>,
     en_fmt = \<lparr>fm_quote = id, fm_g = (\<lambda>x. []), fm_rnd = id\<rparr>,
     en_net = \<lparr>nt_url = (\<lambda>u. None), nt_ip = (\<lambda>h. None), nt_hmac = (\<lambda>k m. m)\<rparr>,
     en_sha256 = id, en_now = (\<lambda>e. 0)\<rparr>"

definition demo_deps :: "byte Deps" where
  "demo_deps = \<lparr>dp_Caller = (\<lambda>b n. (Inr [n], n + 1)), dp_Health = (\<lambda>e. []),
     dp_Sign = (\<lambda>r n. (Inl ErrNoUpstream, n)),
     dp_SignTx = (\<lambda>r n. (Inr \<lparr>ts_Address = [], ts_SigningHash = [], ts_RawTx = tr_Data r, ts_TxHash = []\<rparr>, n + 100)),
     dp_Intents = Some \<lparr>in_PrepareEVM = PrepareEVM (en_json demo_env) demo_service,
                        in_SimulateSolana = SimulateSolana (en_json demo_env) demo_service\<rparr>,
     dp_Relays = (\<lambda>c. None), dp_APIKeys = [(''secret'', ''alice'')], dp_AllowOrigin = []\<rparr>"

definition demo_in :: HttpIn where
  "demo_in = \<lparr>hi_method = ''POST'', hi_header = (\<lambda>n. if n = ''X-API-Key'' then ''secret'' else []), hi_query = (\<lambda>n. []), hi_path = (\<lambda>n. []),
     hi_body = ([0x5B], None)\<rparr>"

definition demo_gate :: Gate where
  "demo_gate = \<lparr>gt_Limiter = Limiter_New id 5 10, gt_Cache = Cache_New 8 100, gt_Metrics = Registry_New,
     gt_Hooks = Dispatcher_New 3 1 False, gt_Index = Indexer_New 8\<rparr>"

section \<open>Properties\<close>

text \<open>C1: nothing is signed that was not simulated successfully. Behind the intent route, with the intent
  service as its back end, either the signer plays no part in the request (the reply and the effects are
  the same whatever the signer would do), or signing was asked for on a route that allows it, and then: the request's transaction
  was prepared, the engine reported success for a request with the same chain, recipient, value, data and nonce, the
  transaction has a recipient and the gas limit computed from that success; right after that the signer was called once, with the key
  the request names and exactly the fields of the prepared transaction; and the reply is the signer's answer together with that transaction and that
  simulation, or the signer's error.\<close>

theorem intent_signs_only_simulated:
  assumes "dp_Intents d = Some \<lparr>in_PrepareEVM = PrepareEVM (en_json V) s, in_SimulateSolana = SimulateSolana (en_json V) s\<rparr>"
    and "server_doIntent V d allowSign r (g, e) = (rep, g', e')"
  shows "(\<forall>sg. server_doIntent V (d\<lparr>dp_SignTx := sg\<rparr>) allowSign r (g, e) = (rep, g', e')) \<or>
    (\<exists>b key p e1 sim q e2 res x. allowSign \<and>
       decode_body (en_json V) (64 * 2 ^ 10) dec_intentBody (hi_body r) = Inr b \<and> evm_chain b \<and> ib_Sign b = Some key \<and>
       PrepareEVM (en_json V) s (ib_EVM b) e = (Inr p, e1) \<and>
       sv_Sim s = Some sim \<and> sim q e2 = (Inr res, e1) \<and> sm_Outcome res = Success \<and> same_tx (pr_Tx p) q \<and> tx_To (pr_Tx p) \<noteq> [] \<and>
       tx_GasLimit (pr_Tx p) = max 21000 (sm_GasUsed res * 12 div 10) \<and> pr_Simulation p = sim_view res \<and>
       dp_SignTx d \<lparr>tr_KeyID = key, tr_ChainID = tx_ChainID (pr_Tx p), tr_Nonce = tx_Nonce (pr_Tx p), tr_GasPrice = tx_GasPrice (pr_Tx p),
         tr_GasLimit = tx_GasLimit (pr_Tx p), tr_To = tx_To (pr_Tx p), tr_Value = tx_Value (pr_Tx p), tr_Data = tx_Data (pr_Tx p)\<rparr> e1 = (x, e') \<and>
       rep = (case x of Inl err \<Rightarrow> signerFail err
         | Inr t \<Rightarrow> Reply 200 (PIntent ''evm'' (Some (pr_Tx p)) (Inl (pr_Simulation p)) (Some t) [])))"
proof -
  let ?dec = "decode_body (en_json V) (64 * 2 ^ 10) dec_intentBody (hi_body r)"
  show ?thesis
  proof (cases "\<exists>b p e1. ?dec = Inr b \<and> evm_chain b \<and> PrepareEVM (en_json V) s (ib_EVM b) e = (Inr p, e1)")
    case True
    then obtain b p e1 where b: "?dec = Inr b" "evm_chain b" "PrepareEVM (en_json V) s (ib_EVM b) e = (Inr p, e1)" by blast
    obtain sim q e2 res where sim: "sv_Sim s = Some sim" "sim q e2 = (Inr res, e1)" "same_tx (pr_Tx p) q"
      "pr_Simulation p = sim_view res"
      "tx_GasLimit (pr_Tx p) = (if sm_Outcome res = Success then max 21000 (sm_GasUsed res * 12 div 10) else sr_GasLimit q)"
      using prepare_simulated_gas [OF b(3)] by blast
    obtain g1 where run: "\<And>sg. server_doIntent V (d\<lparr>dp_SignTx := sg\<rparr>) allowSign r (g, e) =
        (fst (sign_prepared (d\<lparr>dp_SignTx := sg\<rparr>) allowSign b p e1), g1, snd (sign_prepared (d\<lparr>dp_SignTx := sg\<rparr>) allowSign b p e1))"
      using doIntent_evm [OF assms(1) b(1,2)] b(3) by force
    from run [of "dp_SignTx d"] assms(2) have g1: "g' = g1" and sign: "sign_prepared d allowSign b p e1 = (rep, e')"
      by (simp_all add: prod_eq_iff)
    show ?thesis
      using sign_prepared_cases [OF sign]
    proof
      assume "\<forall>sg. sign_prepared (d\<lparr>dp_SignTx := sg\<rparr>) allowSign b p e1 = (rep, e')"
      then show ?thesis using run g1 by simp
    next
      assume "\<exists>key. allowSign \<and> ib_Sign b = Some key \<and> sn_Outcome (pr_Simulation p) = ''success'' \<and> tx_To (pr_Tx p) \<noteq> [] \<and>
         (\<exists>x. dp_SignTx d (tx_request key (pr_Tx p)) e1 = (x, e') \<and> rep = signed_reply p x)"
      then obtain key x where k: "allowSign" "ib_Sign b = Some key" "sm_Outcome res = Success" "tx_To (pr_Tx p) \<noteq> []"
        "dp_SignTx d (tx_request key (pr_Tx p)) e1 = (x, e')" "rep = signed_reply p x" using sim(4) sim_view_success [of res] by auto
      have gas: "tx_GasLimit (pr_Tx p) = max 21000 (sm_GasUsed res * 12 div 10)" using sim(5) k(3) by simp
      show ?thesis
        by (rule disjI2, intro exI conjI; (rule k(1) b k(2) sim(1,2) k(3) sim(3) k(4) gas sim(4) k(5) [unfolded tx_request_def] k(6) [unfolded signed_reply_def]))
    qed
  next
    case False
    have "server_doIntent V (d\<lparr>dp_SignTx := sg\<rparr>) allowSign r (g, e) = server_doIntent V d allowSign r (g, e)" for sg
      by (rule doIntent_other [OF assms(1)]) (use False in simp)
    then show ?thesis using assms(2) by simp
  qed
qed

definition demo_body :: intentBody where
  "demo_body = \<lparr>ib_Chain = [], ib_EVM = demo_request\<lparr>ev_Data := []\<rparr>, ib_Tx = [], ib_Sign = Some ''k1''\<rparr>"

lemma demo_decode: "decode_body (en_json demo_env) (64 * 2 ^ 10) dec_intentBody (hi_body demo_in) = Inr demo_body"
proof -
  let ?fs = "[(''chain_id'', JNum ''1''), (''from'', JStr (hx (replicate 20 17))),
       (''to'', JStr (hx (replicate 20 34))), (''value'', JStr ''1000''), (''sign'', JObj [(''key_id'', JStr ''k1'')])]"
  have low: "map strings_ToLower [''chain'', ''chain_id'', ''from'', ''to'', ''value'', ''data'', ''gas_limit'', ''gas_price'', ''tx'', ''sign'', ''key_id''] =
    [''chain'', ''chain_id'', ''from'', ''to'', ''value'', ''data'', ''gas_limit'', ''gas_price'', ''tx'', ''sign'', ''key_id'']" by code_simp
  have "dec_value 0 ''1'' = Some 1" by code_simp
  then have "ParseUint10 ''1'' = Inr 1" by (simp add: ParseUint10_def)
  with low have "dec_intentBody (JObj ?fs) = Inr demo_body"
    by (simp add: dec_intentBody_def dec_sign_def only_fields_def json_field_def dec_field_def demo_body_def demo_request_def)
  then show ?thesis by (simp add: decode_body_def demo_env_def demo_in_def)
qed

lemma demo_prepared:
  "\<exists>p. PrepareEVM (en_json demo_env) demo_service (ib_EVM demo_body) 0 = (Inr p, 9) \<and> sn_Outcome (pr_Simulation p) = ''success'' \<and>
     tx_To (pr_Tx p) \<noteq> []"
proof -
  have "map_prod (map_sum id (\<lambda>p. (sn_Outcome (pr_Simulation p), tx_To (pr_Tx p) \<noteq> []))) id
      (PrepareEVM (en_json demo_env) demo_service (ib_EVM demo_body) 0) = (Inr (''success'', True), 9)" by code_simp
  then show ?thesis
    by (cases "PrepareEVM (en_json demo_env) demo_service (ib_EVM demo_body) 0";
        cases "fst (PrepareEVM (en_json demo_env) demo_service (ib_EVM demo_body) 0)") auto
qed

theorem intent_signs_only_simulated_witness:
  "\<exists>rep g' p x. server_doIntent demo_env demo_deps True demo_in (demo_gate, 0) = (rep, g', 109) \<and>
     PrepareEVM (en_json demo_env) demo_service (ib_EVM demo_body) 0 = (Inr p, 9) \<and>
     dp_SignTx demo_deps \<lparr>tr_KeyID = ''k1'', tr_ChainID = tx_ChainID (pr_Tx p), tr_Nonce = tx_Nonce (pr_Tx p), tr_GasPrice = tx_GasPrice (pr_Tx p),
         tr_GasLimit = tx_GasLimit (pr_Tx p), tr_To = tx_To (pr_Tx p), tr_Value = tx_Value (pr_Tx p), tr_Data = tx_Data (pr_Tx p)\<rparr> 9 = (x, 109)"
proof -
  let ?run = "\<lambda>d. server_doIntent demo_env d True demo_in (demo_gate, 0)"
  have ints: "dp_Intents demo_deps = Some \<lparr>in_PrepareEVM = PrepareEVM (en_json demo_env) demo_service,
      in_SimulateSolana = SimulateSolana (en_json demo_env) demo_service\<rparr>"
    by (simp add: demo_deps_def demo_env_def)
  from demo_prepared obtain p where p: "PrepareEVM (en_json demo_env) demo_service (ib_EVM demo_body) 0 = (Inr p, 9)"
    "sn_Outcome (pr_Simulation p) = ''success''" "tx_To (pr_Tx p) \<noteq> []" by blast
  have chain: "evm_chain demo_body" by (simp add: evm_chain_def demo_body_def)
  obtain g1 where g1: "\<And>sg. ?run (demo_deps\<lparr>dp_SignTx := sg\<rparr>) =
      (fst (sign_prepared (demo_deps\<lparr>dp_SignTx := sg\<rparr>) True demo_body p 9), g1, snd (sign_prepared (demo_deps\<lparr>dp_SignTx := sg\<rparr>) True demo_body p 9))"
    using doIntent_evm [OF ints demo_decode chain] p(1) by force
  have sig: "sign_prepared d True demo_body p n = (case dp_SignTx d (tx_request ''k1'' (pr_Tx p)) n of (x, e') \<Rightarrow> (signed_reply p x, e'))" for d n
    using p(2,3) by (simp add: sign_prepared_def demo_body_def signed_reply_def Let_def split: prod.split sum.split)
  have fin: "snd (snd (?run demo_deps)) = 109" "snd (snd (?run (demo_deps\<lparr>dp_SignTx := (\<lambda>r n. (Inl ErrNoUpstream, n))\<rparr>))) = 9"
    using g1 [of "dp_SignTx demo_deps"] g1 [of "\<lambda>r n. (Inl ErrNoUpstream, n)"] by (simp_all add: sig, simp add: demo_deps_def)
  then obtain rep g' where run: "?run demo_deps = (rep, g', 109)" by (metis prod.collapse)
  from intent_signs_only_simulated [OF ints run] show ?thesis
  proof
    assume "\<forall>sg. ?run (demo_deps\<lparr>dp_SignTx := sg\<rparr>) = (rep, g', 109)"
    with fin(2) show ?thesis by simp
  next
    assume "\<exists>b key p e1 sim q e2 res x. True \<and>
       decode_body (en_json demo_env) (64 * 2 ^ 10) dec_intentBody (hi_body demo_in) = Inr b \<and> evm_chain b \<and> ib_Sign b = Some key \<and>
       PrepareEVM (en_json demo_env) demo_service (ib_EVM b) 0 = (Inr p, e1) \<and>
       sv_Sim demo_service = Some sim \<and> sim q e2 = (Inr res, e1) \<and> sm_Outcome res = Success \<and> same_tx (pr_Tx p) q \<and> tx_To (pr_Tx p) \<noteq> [] \<and>
       tx_GasLimit (pr_Tx p) = max 21000 (sm_GasUsed res * 12 div 10) \<and> pr_Simulation p = sim_view res \<and>
       dp_SignTx demo_deps \<lparr>tr_KeyID = key, tr_ChainID = tx_ChainID (pr_Tx p), tr_Nonce = tx_Nonce (pr_Tx p), tr_GasPrice = tx_GasPrice (pr_Tx p),
         tr_GasLimit = tx_GasLimit (pr_Tx p), tr_To = tx_To (pr_Tx p), tr_Value = tx_Value (pr_Tx p), tr_Data = tx_Data (pr_Tx p)\<rparr> e1 = (x, 109) \<and>
       rep = (case x of Inl err \<Rightarrow> signerFail err
         | Inr t \<Rightarrow> Reply 200 (PIntent ''evm'' (Some (pr_Tx p)) (Inl (pr_Simulation p)) (Some t) []))"
    then obtain b key p' e1 x where b: "decode_body (en_json demo_env) (64 * 2 ^ 10) dec_intentBody (hi_body demo_in) = Inr b" "ib_Sign b = Some key"
        "PrepareEVM (en_json demo_env) demo_service (ib_EVM b) 0 = (Inr p', e1)"
      and s: "dp_SignTx demo_deps \<lparr>tr_KeyID = key, tr_ChainID = tx_ChainID (pr_Tx p'), tr_Nonce = tx_Nonce (pr_Tx p'), tr_GasPrice = tx_GasPrice (pr_Tx p'),
         tr_GasLimit = tx_GasLimit (pr_Tx p'), tr_To = tx_To (pr_Tx p'), tr_Value = tx_Value (pr_Tx p'), tr_Data = tx_Data (pr_Tx p')\<rparr> e1 = (x, 109)"
      by blast
    then have "b = demo_body" using demo_decode by simp
    with b have "key = ''k1''" "p' = p" "e1 = 9" using p(1) by (simp_all add: demo_body_def)
    with run p(1) s show ?thesis by blast
  qed
qed

text \<open>A cached answer is an answer of the node. After any run of the proxy from an empty cache, a
  reply served from the cache is for one of the two cacheable methods, sends nothing upstream, and
  carries exactly the result with which the node answered an earlier request with the same method
  and the same parameters.\<close>

theorem proxy_cache_faithful:
  assumes "dp_Caller d = recording_caller c"
    and "json_text (en_json V) valid"
    and "gt_Cache g0 = Cache_New cap ttl"
    and "proxy_run V d qs (g0, ([], e0)) = (g, (tr, e))"
    and "server_proxy V d q client (g, (tr, e)) = ((resp, ''cached''), g', (tr', e'))"
  shows "cacheable (rq_Method q) \<and> tr' = tr \<and> e' = e \<and> rp_Error resp = None \<and>
         answered (en_json V) tr (rq_Method q) (rq_ParamsText q) (rp_Result resp)"
proof -
  have prov: "cache_provenance (en_json V) tr (gt_Cache g)"
    by (rule proxy_run_provenance [OF _ assms(1) assms(4)]) (simp add: assms(3) provenance_New)
  from assms(5) obtain v where v: "cacheable (rq_Method q)" "fst (Cache_Get (en_now V (tr, e)) (cache_key q) (gt_Cache g)) = Some v"
    "resp = \<lparr>rp_JSONRPC = ''2.0'', rp_Result = text_result (en_json V) v, rp_Error = None, rp_ID = idOrNull (rq_ID q)\<rparr>"
    "(tr', e') = (tr, e)" by (elim proxy_cached) simp
  from provenance_hit [OF prov v(2)] obtain m ps res where st: "cacheable m" "cache_key q = m @ string_of ps"
    "v = result_text (en_json V) res" "answered (en_json V) tr m ps res" by (auto simp: stored_ok_def)
  have "m = rq_Method q \<and> ps = rq_ParamsText q"
    using cache_key_inj [of "q\<lparr>rq_Method := m, rq_ParamsText := ps\<rparr>" q] st(1,2) v(1) by (simp add: cache_key_def)
  moreover have "text_result (en_json V) v = res"
    unfolding st(3) by (rule json_text.result_text_back [OF assms(2) st(4)])
  ultimately show ?thesis using v st(4) by simp
qed

definition demo_query :: Request where
  "demo_query = \<lparr>rq_JSONRPC = ''2.0'', rq_Method = ''eth_chainId'', rq_Params = None, rq_ParamsText = [], rq_ID = Some (JNum ''1'')\<rparr>"

definition demo_answer :: json where
  "demo_answer = JObj [(''jsonrpc'', JStr ''2.0''), (''result'', JStr ''0x1'')]"

lemma demo_answer_decodes:
  "dec_response demo_answer = Inr \<lparr>rp_JSONRPC = ''2.0'', rp_Result = Some (JStr ''0x1''), rp_Error = None, rp_ID = JNull\<rparr>"
  by (simp add: demo_answer_def dec_response_def dec_field_def json_field_def strings_ToLower_def lower_char_def Let_def)

lemma demo_answer_text [simp]:
  "js_parse go_text (js_print go_text demo_answer) = Some demo_answer"
  "js_parse go_text (js_print go_text (JStr ''0x1'')) = Some (JStr ''0x1'')" "js_print go_text (JStr ''0x1'') \<noteq> []"
proof -
  have "valid_json max_depth demo_answer" "valid_json max_depth (JStr ''0x1'')" by (simp_all add: demo_answer_def max_depth_def)
  note valid = this
  show "js_parse go_text (js_print go_text demo_answer) = Some demo_answer" by (rule go_json.parse_print [OF valid(1)])
  show "js_parse go_text (js_print go_text (JStr ''0x1'')) = Some (JStr ''0x1'')" by (rule go_json.parse_print [OF valid(2)])
  show "js_print go_text (JStr ''0x1'') \<noteq> []" by (rule go_json.print_nonempty [OF valid(2)])
qed

theorem proxy_cache_faithful_witness:
  "\<exists>tr. answered go_text tr ''eth_chainId'' [] (Some (JStr ''0x1''))"
proof -
  let ?V = "\<lparr>en_json = go_text, en_fmt = \<lparr>fm_quote = id, fm_g = (\<lambda>x. []), fm_rnd = id\<rparr>,
     en_net = en_net demo_env, en_sha256 = id, en_now = (\<lambda>e. 0)\<rparr> :: ((bytes \<times> bytes) list \<times> unit) Env"
  let ?d = "\<lparr>dp_Caller = recording_caller (\<lambda>b e. (Inr (js_print go_text demo_answer), e)), dp_Health = (\<lambda>e. []),
     dp_Sign = (\<lambda>r n. (Inl ErrNoUpstream, n)), dp_SignTx = (\<lambda>r n. (Inl ErrNoUpstream, n)),
     dp_Intents = None, dp_Relays = (\<lambda>c. None), dp_APIKeys = [], dp_AllowOrigin = []\<rparr> :: ((bytes \<times> bytes) list \<times> unit) Deps"
  let ?body = "js_print go_text (json_request demo_query)" and ?raw = "js_print go_text demo_answer"
  let ?hit = "\<lparr>rp_JSONRPC = ''2.0'', rp_Result = Some (JStr ''0x1''), rp_Error = None, rp_ID = JNum ''1''\<rparr>"
  have parse: "text_result go_text (js_print go_text (JStr ''0x1'')) = Some (JStr ''0x1'')" by (simp add: text_result_def)
  have allow: "\<exists>g1. server_proxy ?V ?d demo_query ''a'' (demo_gate, ([], ())) = ((?hit, ''ok''), g1, ([(?body, ?raw)], ())) \<and>
      gt_Limiter g1 = snd (Limiter_Allow id 0 ''a'' (Limiter_New id 5 10)) \<and>
      gt_Cache g1 = Cache_Set 0 ''eth_chainId'' (js_print go_text (JStr ''0x1'')) (Cache_New 8 100)"
    by (simp add: server_proxy_def demo_gate_def Limiter_Allow_def Limiter_New_def refill_def Seconds_def go_quot_def
        Cache_Get_def Cache_New_def Let_def demo_query_def cacheable_def cache_key_def server_forward_def
        recording_caller_def demo_answer_decodes idOrNull_def result_text_def string_of_def)
  then obtain g1 where g1: "server_proxy ?V ?d demo_query ''a'' (demo_gate, ([], ())) = ((?hit, ''ok''), g1, ([(?body, ?raw)], ()))"
    "gt_Limiter g1 = snd (Limiter_Allow id 0 ''a'' (Limiter_New id 5 10))"
    "gt_Cache g1 = Cache_Set 0 ''eth_chainId'' (js_print go_text (JStr ''0x1'')) (Cache_New 8 100)" by blast
  have "\<exists>g2. server_proxy ?V ?d demo_query ''a'' (g1, ([(?body, ?raw)], ())) = ((?hit, ''cached''), g2, ([(?body, ?raw)], ()))"
    using g1(2,3)
    by (simp add: server_proxy_def Limiter_Allow_def Limiter_New_def refill_def Seconds_def go_quot_def
        Cache_Get_def Cache_Set_def Cache_New_def Let_def demo_query_def cacheable_def cache_key_def
        idOrNull_def parse string_of_def)
  then obtain g2 where g2: "server_proxy ?V ?d demo_query ''a'' (g1, ([(?body, ?raw)], ())) = ((?hit, ''cached''), g2, ([(?body, ?raw)], ()))"
    by blast
  have run: "proxy_run ?V ?d [(demo_query, ''a'')] (demo_gate, ([], ())) = (g1, ([(?body, ?raw)], ()))" using g1(1) by simp
  have "answered (en_json ?V) [(?body, ?raw)] (rq_Method demo_query) (rq_ParamsText demo_query) (rp_Result ?hit)"
    using proxy_cache_faithful [OF _ _ _ run g2, of "\<lambda>b e. (Inr ?raw, e)" "valid_json max_depth" 8 100]
    by (simp add: demo_gate_def go_json.json_text_axioms)
  then show ?thesis by (auto simp: demo_query_def)
qed

text \<open>C25: every request of a batch is answered once, in order, under its own id. A body that decodes to a
  batch has between one and a hundred requests, and the reply is the array of that many responses,
  whose ids are those of the requests (null where there is none), whatever the node does.\<close>

theorem rpc_batch_answers:
  assumes "read_body (2 ^ 20) (hi_body r) = Some body" and "Jsonrpc.Decode (en_json V) body = Inr (reqs, True)"
  shows "1 \<le> length reqs \<and> length reqs \<le> 100 \<and>
    (\<exists>out. fst (server_rpc V d r client s) = JArr (map json_response out) \<and>
           map rp_ID out = map (\<lambda>q. normID (rq_ID q)) reqs)"
proof -
  let ?out = "fst (serve_loop (rpc_handler V d client) reqs s)"
  have "fst (server_rpc V d r client s) = JArr (map json_response ?out)"
    using assms by (simp add: server_rpc_def Serve_reply_def split_beta)
  moreover have "map rp_ID ?out = map (\<lambda>q. normID (rq_ID q)) reqs"
    by (rule serve_loop_ids) (rule rpc_handler_id)
  ultimately show ?thesis using Decode_bounds [OF assms(2)] by (auto simp: MaxBatch_def Suc_le_eq)
qed

theorem rpc_batch_answers_witness:
  "\<exists>out. fst (server_rpc (demo_env\<lparr>en_json := demo_text\<lparr>js_parse := (\<lambda>b. Some (JArr [JObj [(''id'', JNum ''7'')], JNull]))\<rparr>\<rparr>)
       demo_deps demo_in ''alice'' (demo_gate, 0)) = JArr (map json_response out) \<and> map rp_ID out = [JNum ''7'', JNull]"
proof -
  let ?V = "demo_env\<lparr>en_json := demo_text\<lparr>js_parse := (\<lambda>b. Some (JArr [JObj [(''id'', JNum ''7'')], JNull]))\<rparr>\<rparr>"
  have trim: "bytes_TrimSpace [0x5B] = [0x5B]" by code_simp
  have "read_body (2 ^ 20) (hi_body demo_in) = Some [0x5B]" by (simp add: demo_in_def read_body_def)
  moreover have "Jsonrpc.Decode (en_json ?V) [0x5B] = Inr ([\<lparr>rq_JSONRPC = [], rq_Method = [], rq_Params = None, rq_ParamsText = [], rq_ID = Some (JNum ''7'')\<rparr>,
      \<lparr>rq_JSONRPC = [], rq_Method = [], rq_Params = None, rq_ParamsText = [], rq_ID = None\<rparr>], True)"
    by (simp add: Jsonrpc.Decode_def trim demo_text_def dec_request_def dec_field_def json_field_def strings_ToLower_def
        lower_char_def MaxBatch_def)
  ultimately show ?thesis
    using rpc_batch_answers [of demo_in "[0x5B]" ?V _ demo_deps "''alice''" "(demo_gate, 0)"] by (simp add: normID_def)
qed

text \<open>Authentication. If the digest has no collision between the configured keys and the one
  presented, a protected handler runs exactly for a configured key, under that key's client name; any
  other request gets status 401 and has no effect.\<close>

theorem auth_exact:
  assumes "inj_on (\<lambda>k. en_sha256 V (bytes_of k)) (insert key (fst ` set (dp_APIKeys d)))"
    and "key = (if hi_header r ''X-API-Key'' = [] then hi_query r ''api_key'' else hi_header r ''X-API-Key'')"
  shows "server_auth V d nxt r s = (case map_of (dp_APIKeys d) key of
      None \<Rightarrow> (Reply 401 (PError ''invalid api key''), s) | Some name \<Rightarrow> nxt r name s)"
  using map_of_digest [OF assms(1)] by (simp add: server_auth_def key_table_def Let_def assms(2) [symmetric])

theorem auth_exact_witness:
  "server_auth demo_env demo_deps (\<lambda>r name s. (Reply 200 (PError name), s + 1)) demo_in (0 :: nat) = (Reply 200 (PError ''alice''), 1)"
  by (subst auth_exact [where key = "''secret''"]) (simp_all add: demo_env_def demo_deps_def demo_in_def)

end
