(* ===== verification/Relay.thy ===== *)
theory Relay
  imports Intent
begin

text \<open>
  Private relays, \<^verbatim>\<open>internal/relay/relay.go\<close>: a raw transaction is checked for its encoding and size
  and submitted by one JSON-RPC call.
\<close>

definition maxRaw :: nat where "maxRaw = 128 * 2 ^ 10"

record 'e Sender =
  sn_c :: "'e Caller"
  sn_solana :: bool

definition NewEVM :: "'e Caller \<Rightarrow> 'e Sender" where
  "NewEVM c = \<lparr>sn_c = c, sn_solana = False\<rparr>"

definition NewSolana :: "'e Caller \<Rightarrow> 'e Sender" where
  "NewSolana c = \<lparr>sn_c = c, sn_solana = True\<rparr>"

definition Sender_Send :: "JsonText \<Rightarrow> 'e Sender \<Rightarrow> string \<Rightarrow> ('e, string) call" where
  "Sender_Send T s raw =
     (if sn_solana s then
        (case base64_DecodeString raw of
           None \<Rightarrow> rlift (Inl ErrRelayInvalid)
         | Some b \<Rightarrow>
             if length b = 0 \<or> length b > maxRaw then rlift (Inl ErrRelayInvalid)
             else Rpcx_Call T (sn_c s) ''sendTransaction''
                    (JArr [JStr raw, JObj [(''encoding'', JStr ''base64''), (''skipPreflight'', JBool False)]]) dec_string)
      else
        (case hex_DecodeString (TrimPrefix raw ''0x'') of
           Inl err \<Rightarrow> rlift (Inl ErrRelayInvalid)
         | Inr b \<Rightarrow>
             if \<not> HasPrefix raw ''0x'' \<or> length b = 0 \<or> length b > maxRaw then rlift (Inl ErrRelayInvalid)
             else Rpcx_Call T (sn_c s) ''eth_sendRawTransaction'' (JArr [JStr raw]) dec_string))"

text \<open>A transaction that is malformed, empty or larger than the limit is refused and nothing is sent.\<close>

definition raw_ok :: "'e Sender \<Rightarrow> string \<Rightarrow> bool" where
  "raw_ok s raw \<longleftrightarrow> (if sn_solana s
     then (case base64_DecodeString raw of None \<Rightarrow> False | Some b \<Rightarrow> 0 < length b \<and> length b \<le> maxRaw)
     else HasPrefix raw ''0x'' \<and> (case hex_DecodeString (drop 2 raw) of Inl err \<Rightarrow> False | Inr b \<Rightarrow> 0 < length b \<and> length b \<le> maxRaw))"

lemma Send_refuses: "\<not> raw_ok s raw \<Longrightarrow> Sender_Send T s raw e = (Inl ErrRelayInvalid, e)"
  by (auto simp: Sender_Send_def raw_ok_def TrimPrefix_def rlift_def not_less numeral_2_eq_2 split: option.splits sum.splits if_splits)

end
