(* ===== verification/Routes.thy ===== *)
theory Routes
  imports Server Relay
begin

text \<open>
  The rest of \<^verbatim>\<open>internal/server\<close>: the read-only routes, signing of messages, webhooks, broadcast, the
  event stream, the middleware, and the root handler that \<^verbatim>\<open>New\<close> puts together. Which pattern a
  request matches is decided by \<^verbatim>\<open>http.ServeMux\<close>: it is the parameter \<open>mt\<close>, and with it the status of
  a request that matches none.

  A handler that writes a status outside 100 to 999 panics in \<^verbatim>\<open>net/http\<close>; the recoverer answers 500.
\<close>

section \<open>Handlers\<close>

definition server_ready :: "'e Deps \<Rightarrow> Gate \<times> 'e \<Rightarrow> Reply" where
  "server_ready d = (\<lambda>(g, e).
     let healthy = length (filter (\<lambda>st. st_State st \<noteq> ''open'') (dp_Health d e)) in
     if Indexer_Head (gt_Index g) = None \<or> healthy = 0 then Reply 503 (PReady False) else Reply 200 (PReady True))"

definition zero_block :: Block where
  "zero_block = \<lparr>bl_Number = 0, bl_Hash = [], bl_ParentHash = [], bl_Timestamp = 0, bl_TxCount = 0\<rparr>"

definition server_status :: "'e Env \<Rightarrow> 'e Deps \<Rightarrow> Gate \<times> 'e \<Rightarrow> Reply" where
  "server_status V d = (\<lambda>(g, e).
     Reply 200 (PStatus (case Indexer_Head (gt_Index g) of None \<Rightarrow> zero_block | Some b \<Rightarrow> b) (dp_Health d e)
       (Cache_Len (gt_Cache g))
       (Registry_Value (en_fmt V) ''gateway_rpc_calls_total'' [(''method'', ''eth_blockNumber''), (''outcome'', ''ok'')] (gt_Metrics g))
       (length (Dispatcher_List (gt_Hooks g)))))"

definition server_blocks :: "HttpIn \<Rightarrow> Gate \<Rightarrow> Reply" where
  "server_blocks r g =
     (let v = hi_query r ''limit'' in
      if v = [] then Reply 200 (PBlocks (Indexer_Blocks 20 (gt_Index g)))
      else case Atoi v of
        Inl err \<Rightarrow> Reply 400 (PError ''limit must be 1..500'')
      | Inr n \<Rightarrow> if n < 1 \<or> n > 500 then Reply 400 (PError ''limit must be 1..500'')
                 else Reply 200 (PBlocks (Indexer_Blocks n (gt_Index g))))"

definition dec_SignRequest :: "json \<Rightarrow> gerror + SignRequest" where
  "dec_SignRequest j = ebind (dec_object j) (\<lambda>fs0. ebind (only_fields [''key_id'', ''message''] fs0) (\<lambda>fs.
     ebind (dec_field ''key_id'' dec_string fs) (\<lambda>k. ebind (dec_field ''message'' dec_string fs) (\<lambda>m.
     Inr \<lparr>sg_KeyID = k, sg_Message = m\<rparr>))))"

definition server_sign :: "'e Env \<Rightarrow> 'e Deps \<Rightarrow> HttpIn \<Rightarrow> 'e \<Rightarrow> Reply \<times> 'e" where
  "server_sign V d r e = (case decode_body (en_json V) (64 * 2 ^ 10) dec_SignRequest (hi_body r) of
     Inl err \<Rightarrow> (Reply 400 (PError ''body must be {key_id, message}''), e)
   | Inr req \<Rightarrow>
       if sg_KeyID req = [] \<or> sg_Message req = [] then (Reply 400 (PError ''body must be {key_id, message}''), e)
       else (case dp_Sign d req e of
          (Inl err, e') \<Rightarrow> (signerFail err, e')
        | (Inr out, e') \<Rightarrow> (Reply 200 (PSigned out), e')))"

definition server_listHooks :: "Gate \<Rightarrow> Reply" where
  "server_listHooks g = Reply 200 (PHooks (Dispatcher_List (gt_Hooks g)))"

definition dec_hook :: "json \<Rightarrow> gerror + string \<times> string" where
  "dec_hook j = ebind (dec_object j) (\<lambda>fs. ebind (dec_field ''URL'' dec_string fs) (\<lambda>u.
     ebind (dec_field ''Secret'' dec_string fs) (\<lambda>s. Inr (u, s))))"

definition server_addHook :: "'e Env \<Rightarrow> HttpIn \<Rightarrow> Gate \<Rightarrow> Reply \<times> Gate" where
  "server_addHook V r g = (case decode_body (en_json V) (16 * 2 ^ 10) dec_hook (hi_body r) of
     Inl err \<Rightarrow> (Reply 400 (PError ''body must be {url, secret (>=16 chars)}''), g)
   | Inr (url, secret) \<Rightarrow>
       if length secret < 16 then (Reply 400 (PError ''body must be {url, secret (>=16 chars)}''), g)
       else (case Dispatcher_Register (en_net V) url secret (gt_Hooks g) of
          (Inl err, h) \<Rightarrow> (Reply 422 (PError ''webhook: invalid or disallowed url''), g\<lparr>gt_Hooks := h\<rparr>)
        | (Inr reg, h) \<Rightarrow> (Reply 201 (PHook reg), g\<lparr>gt_Hooks := h\<rparr>)))"

definition server_delHook :: "HttpIn \<Rightarrow> Gate \<Rightarrow> Reply \<times> Gate" where
  "server_delHook r g = (case Dispatcher_Remove (hi_path r ''id'') (gt_Hooks g) of
     (ok, h) \<Rightarrow> (if \<not> ok then Reply 404 (PError ''not found'') else Reply 204 PNone, g\<lparr>gt_Hooks := h\<rparr>))"

definition dec_broadcast :: "json \<Rightarrow> gerror + string \<times> string" where
  "dec_broadcast j = ebind (dec_object j) (\<lambda>fs0. ebind (only_fields [''chain'', ''raw_tx''] fs0) (\<lambda>fs.
     ebind (dec_field ''chain'' dec_string fs) (\<lambda>c. ebind (dec_field ''raw_tx'' dec_string fs) (\<lambda>t. Inr (c, t)))))"

definition count_broadcast :: "'e Env \<Rightarrow> string \<Rightarrow> string \<Rightarrow> Gate \<Rightarrow> Gate" where
  "count_broadcast V chain outcome g = g\<lparr>gt_Metrics := Registry_Inc (en_fmt V) ''gateway_broadcasts_total''
     [(''chain'', chain), (''outcome'', outcome)] (gt_Metrics g)\<rparr>"

definition server_broadcast :: "'e Env \<Rightarrow> 'e Deps \<Rightarrow> HttpIn \<Rightarrow> Gate \<times> 'e \<Rightarrow> Reply \<times> Gate \<times> 'e" where
  "server_broadcast V d r = (\<lambda>(g, e).
     case decode_body (en_json V) (256 * 2 ^ 10) dec_broadcast (hi_body r) of
       Inl err \<Rightarrow> (Reply 400 (PError ''body must be {chain, raw_tx}''), g, e)
     | Inr (chain0, raw) \<Rightarrow>
         if raw = [] then (Reply 400 (PError ''body must be {chain, raw_tx}''), g, e)
         else let chain = (if chain0 = [] then ''evm'' else chain0) in
           (case dp_Relays d chain of
              None \<Rightarrow> (Reply 501 (PError (''no private relay configured for '' @ chain)), g, e)
            | Some send \<Rightarrow> (case send raw e of
                (Inl err, e') \<Rightarrow> (server_fail err, count_broadcast V chain ''error'' g, e')
              | (Inr i, e') \<Rightarrow> (Reply 200 (PSent chain i), count_broadcast V chain ''sent'' g, e'))))"

section \<open>The event stream\<close>

definition nl :: string where
  "nl = [CHR 0x0A]"

definition sse_frame :: "(Event \<Rightarrow> bytes) \<Rightarrow> Event \<Rightarrow> string" where
  "sse_frame marshal ev = ''id: '' @ big_String (ev_Partition ev) @ ''-'' @ FormatUint10 (ev_Offset ev) @ nl @
     ''event: '' @ ev_Type ev @ nl @ ''data: '' @ string_of (marshal ev) @ nl @ nl"

text \<open>
  The loop of \<^verbatim>\<open>stream\<close> with its channel \<open>ch\<close>, under a schedule: \<open>Some op\<close> is an operation that
  somebody else performs on the log, \<open>None\<close> is a turn of the loop, which receives an event, returns
  because the channel is closed, or finds nothing to receive. The request ends with the schedule.
  The test for \<^verbatim>\<open>http.Flusher\<close> has no branch here: \<^verbatim>\<open>observe\<close> passes a \<^verbatim>\<open>statusWriter\<close>, which is one.
\<close>

fun stream_loop :: "(Event \<Rightarrow> bytes) \<Rightarrow> nat \<Rightarrow> log_op option list \<Rightarrow> Log \<Rightarrow> string \<times> Log" where
  "stream_loop marshal ch [] l = ([], l)"
| "stream_loop marshal ch (Some x # acts) l = stream_loop marshal ch acts (log_exec x l)"
| "stream_loop marshal ch (None # acts) l = (case Chan_Recv ch l of
     (None, l') \<Rightarrow> if ch_closed (lg_chans l' ! ch) then ([], l') else stream_loop marshal ch acts l'
   | (Some ev, l') \<Rightarrow> (case stream_loop marshal ch acts l' of (out, l'') \<Rightarrow> (sse_frame marshal ev @ out, l'')))"

definition stream_hello :: string where
  "stream_hello = '': connected'' @ nl @ nl"

definition server_stream :: "(Event \<Rightarrow> bytes) \<Rightarrow> log_op option list \<Rightarrow> Log \<Rightarrow> string \<times> Log" where
  "server_stream marshal acts l = (case Log_Subscribe 256 l of (ch, l1) \<Rightarrow>
     (case stream_loop marshal ch acts l1 of (out, l2) \<Rightarrow> (stream_hello @ out, Log_Cancel ch l2)))"

section \<open>The root handler\<close>

definition public_patterns :: "string list" where
  "public_patterns = [''GET /healthz'', ''GET /readyz'', ''GET /metrics'']"

text \<open>The handlers behind authentication, by pattern. The reply of \<^verbatim>\<open>GET /v1/stream\<close> is the stream above.\<close>

definition client_route :: "'e Env \<Rightarrow> 'e Deps \<Rightarrow> string \<Rightarrow> HttpIn \<Rightarrow> string \<Rightarrow> Gate \<times> 'e \<Rightarrow> Reply \<times> Gate \<times> 'e" where
  "client_route V d pat r client = (\<lambda>(g, e).
     if pat = ''POST /rpc'' then (case server_rpc V d r client (g, e) of (j, s) \<Rightarrow> (Reply 200 (PJson j), s))
     else if pat = ''GET /v1/status'' then (server_status V d (g, e), g, e)
     else if pat = ''GET /v1/blocks'' then (server_blocks r g, g, e)
     else if pat = ''GET /v1/stream'' then (Reply 200 PStream, g, e)
     else if pat = ''POST /v1/sign'' then (case server_sign V d r e of (rep, e') \<Rightarrow> (rep, g, e'))
     else if pat = ''POST /v1/simulate'' then server_simulate V d r client (g, e)
     else if pat = ''POST /v1/intent'' then server_intentRoute V d r client (g, e)
     else if pat = ''POST /v1/broadcast'' then server_broadcast V d r (g, e)
     else if pat = ''GET /v1/webhooks'' then (server_listHooks g, g, e)
     else if pat = ''POST /v1/webhooks'' then (case server_addHook V r g of (rep, g') \<Rightarrow> (rep, g', e))
     else (case server_delHook r g of (rep, g') \<Rightarrow> (rep, g', e)))"

definition server_route :: "'e Env \<Rightarrow> 'e Deps \<Rightarrow> string \<Rightarrow> HttpIn \<Rightarrow> Gate \<times> 'e \<Rightarrow> Reply \<times> Gate \<times> 'e" where
  "server_route V d pat r s =
     (if pat = ''GET /healthz'' then (Reply 200 PStatusOK, s)
      else if pat = ''GET /readyz'' then (server_ready d s, s)
      else if pat = ''GET /metrics'' then (Reply 200 (PText (Registry_Write (en_fmt V) (gt_Metrics (fst s)))), s)
      else server_auth V d (client_route V d pat) r s)"

definition writable :: "Reply \<Rightarrow> bool" where
  "writable rep \<longleftrightarrow> 100 \<le> rp_status rep \<and> rp_status rep \<le> 999"

text \<open>\<^verbatim>\<open>observe\<close>: a panic passes it by; otherwise the request is counted by route and status.\<close>

definition server_observe ::
  "'e Env \<Rightarrow> 'e Deps \<Rightarrow> (HttpIn \<Rightarrow> string option) \<Rightarrow> (HttpIn \<Rightarrow> Reply) \<Rightarrow> HttpIn \<Rightarrow> Gate \<times> 'e \<Rightarrow> Reply \<times> Gate \<times> 'e" where
  "server_observe V d mt none r s =
     (case (case mt r of None \<Rightarrow> (none r, s) | Some pat \<Rightarrow> server_route V d pat r s) of (rep, g, e) \<Rightarrow>
        if \<not> writable rep then (rep, g, e)
        else (rep, g\<lparr>gt_Metrics := Registry_Inc (en_fmt V) ''gateway_http_requests_total''
          [(''route'', case mt r of None \<Rightarrow> ''unmatched'' | Some pat \<Rightarrow> pat), (''status'', big_String (rp_status rep))] (gt_Metrics g)\<rparr>, e))"

definition cors_headers :: "'e Deps \<Rightarrow> (string \<times> string) list" where
  "cors_headers d = (if dp_AllowOrigin d \<noteq> []
     then [(''Access-Control-Allow-Origin'', dp_AllowOrigin d),
           (''Access-Control-Allow-Headers'', ''content-type, x-api-key''),
           (''Access-Control-Allow-Methods'', ''GET, POST, DELETE, OPTIONS''), (''Vary'', ''Origin'')]
     else [])"

definition server_cors ::
  "'e Env \<Rightarrow> 'e Deps \<Rightarrow> (HttpIn \<Rightarrow> string option) \<Rightarrow> (HttpIn \<Rightarrow> Reply) \<Rightarrow> HttpIn \<Rightarrow> Gate \<times> 'e \<Rightarrow> Reply \<times> Gate \<times> 'e" where
  "server_cors V d mt none r s =
     (if hi_method r = ''OPTIONS'' then (Reply 204 PNone, s) else server_observe V d mt none r s)"

definition server_recoverer ::
  "'e Env \<Rightarrow> 'e Deps \<Rightarrow> (HttpIn \<Rightarrow> string option) \<Rightarrow> (HttpIn \<Rightarrow> Reply) \<Rightarrow> HttpIn \<Rightarrow> Gate \<times> 'e \<Rightarrow> Reply \<times> Gate \<times> 'e" where
  "server_recoverer V d mt none r s = (case server_cors V d mt none r s of (rep, s') \<Rightarrow>
     (if \<not> writable rep then Reply 500 (PError ''internal error'') else rep, s'))"

text \<open>\<^verbatim>\<open>New\<close> describes two metrics and hands out the root handler.\<close>

definition server_New :: "Gate \<Rightarrow> Gate" where
  "server_New g = g\<lparr>gt_Metrics := Registry_Describe ''gateway_rpc_calls_total'' ''JSON-RPC calls by method and outcome''
     (Registry_Describe ''gateway_http_requests_total'' ''HTTP requests by route and status'' (gt_Metrics g))\<rparr>"

section \<open>The state behind the routes\<close>

text \<open>
  What holds of the gateway's state whatever requests it served: the invariants of its components, a
  validated target and a long secret for every webhook, and an index that only the indexer changes.
\<close>

definition gate_inv :: "'e Env \<Rightarrow> Gate \<Rightarrow> Gate \<Rightarrow> bool" where
  "gate_inv V g0 g \<longleftrightarrow> cache_inv (gt_Cache g) \<and> ca_cap (gt_Cache g) = ca_cap (gt_Cache g0) \<and> hooks_inv (en_net V) (gt_Hooks g) \<and>
     (\<forall>r \<in> set (ds_regs (gt_Hooks g)). 16 \<le> length (rn_Secret r)) \<and> registry_inv (gt_Metrics g) \<and>
     gt_Index g = gt_Index g0 \<and> ds_allowPrivate (gt_Hooks g) = ds_allowPrivate (gt_Hooks g0)"

lemma gate_inv_metrics: "gate_inv V g0 g \<Longrightarrow> registry_inv m \<Longrightarrow> gate_inv V g0 (g\<lparr>gt_Metrics := m\<rparr>)"
  by (simp add: gate_inv_def)

lemma gate_inv_cache: "gate_inv V g0 g \<Longrightarrow> cache_inv c \<Longrightarrow> ca_cap c = ca_cap (gt_Cache g) \<Longrightarrow> gate_inv V g0 (g\<lparr>gt_Cache := c\<rparr>)"
  by (simp add: gate_inv_def)

lemma gate_inv_limiter: "gate_inv V g0 g \<Longrightarrow> gate_inv V g0 (g\<lparr>gt_Limiter := l\<rparr>)"
  by (simp add: gate_inv_def)

lemma gate_registry: "gate_inv V g0 g \<Longrightarrow> registry_inv (gt_Metrics g)"
  by (simp add: gate_inv_def)

lemmas gate_inv_count = gate_inv_metrics [OF _ registry_inv_ops(4) [OF gate_registry]]

lemma cache_inv_parts: "gate_inv V g0 g \<Longrightarrow> cache_inv (Cache_Set t k v (gt_Cache g))"
  "gate_inv V g0 g \<Longrightarrow> Cache_Get t k (gt_Cache g) = (r, c) \<Longrightarrow> cache_inv c \<and> ca_cap c = ca_cap (gt_Cache g)"
  using cache_inv_Set cache_inv_Get [of "gt_Cache g" t k] by (auto simp: gate_inv_def)

lemma forward_inv_gate:
  assumes "gate_inv V g0 (fst s)"
  shows "gate_inv V g0 (fst (snd (server_forward V d q s)))"
proof -
  obtain g e where s: "s = (g, e)" by fastforce
  with assms show ?thesis
    by (auto simp: server_forward_def Let_def Cache_Set_params intro!: gate_inv_cache cache_inv_parts(1) split: prod.split sum.split)
qed

lemma proxy_inv_gate:
  assumes "gate_inv V g0 (fst s)"
  shows "gate_inv V g0 (fst (snd (server_proxy V d q client s)))"
proof -
  obtain g e where s: "s = (g, e)" by fastforce
  obtain ok wait lm where lim: "Limiter_Allow (fm_rnd (en_fmt V)) (en_now V e) client (gt_Limiter g) = ((ok, wait), lm)"
    by (metis surj_pair)
  obtain hit ca where get: "Cache_Get (en_now V e) (cache_key q) (gt_Cache g) = (hit, ca)" by fastforce
  have g1: "gate_inv V g0 (g\<lparr>gt_Limiter := lm\<rparr>)" using assms s by (simp add: gate_inv_limiter)
  have g2: "gate_inv V g0 (g\<lparr>gt_Limiter := lm, gt_Cache := ca\<rparr>)"
    using cache_inv_parts(2) [OF _ get, of V g0] assms s by (intro gate_inv_cache [OF g1]) simp_all
  show ?thesis
    using g1 g2 forward_inv_gate [of V g0 "(g\<lparr>gt_Limiter := lm\<rparr>, e)" d q] forward_inv_gate [of V g0 "(g\<lparr>gt_Limiter := lm, gt_Cache := ca\<rparr>, e)" d q]
    by (auto simp: s server_proxy_def lim get Let_def split: bool.split option.split)
qed

lemma rpc_inv_gate:
  assumes "gate_inv V g0 (fst s)"
  shows "gate_inv V g0 (fst (snd (server_rpc V d r client s)))"
proof -
  have handler: "gate_inv V g0 (fst (snd (rpc_handler V d client q s)))" if "gate_inv V g0 (fst s)" for q s
    using proxy_inv_gate [OF that, of d q client] by (simp add: rpc_handler_def split_beta gate_inv_count)
  have "gate_inv V g0 (fst (snd (serve_loop (rpc_handler V d client) qs s)))" for qs
    by (rule serve_loop_preserves [where P = "\<lambda>s. gate_inv V g0 (fst s)"]) (use handler assms in auto)
  with assms show ?thesis
    by (auto simp: server_rpc_def Serve_reply_def split_beta split: option.split sum.split)
qed

lemma intent_inv_gate:
  "gate_inv V g0 (fst s) \<Longrightarrow> gate_inv V g0 (fst (snd (server_doIntent V d a r s)))"
  by (auto simp: server_doIntent_def count_sim_def Let_def split_beta intro!: gate_inv_metrics registry_inv_ops gate_registry split: option.split sum.split)

lemma broadcast_inv_gate:
  "gate_inv V g0 (fst s) \<Longrightarrow> gate_inv V g0 (fst (snd (server_broadcast V d r s)))"
  by (auto simp: server_broadcast_def count_broadcast_def Let_def split_beta intro!: gate_inv_metrics registry_inv_ops gate_registry split: option.split sum.split)

lemma Register_secrets:
  "r \<in> set (ds_regs (snd (Dispatcher_Register N u sec d))) \<Longrightarrow> r \<in> set (ds_regs d) \<or> rn_Secret r = sec"
  by (auto simp: Dispatcher_Register_def Let_def put_reg_def split: option.splits)

lemma addHook_inv_gate:
  assumes "gate_inv V g0 g"
  shows "gate_inv V g0 (snd (server_addHook V r g))"
proof -
  have "gate_inv V g0 (g\<lparr>gt_Hooks := snd (Dispatcher_Register (en_net V) u sec (gt_Hooks g))\<rparr>)" if "16 \<le> length sec" for u sec
    using assms that hooks_inv_Register [of "en_net V" "gt_Hooks g" u sec] Register_secrets [of _ "en_net V" u sec "gt_Hooks g"]
    by (fastforce simp: gate_inv_def)
  with assms show ?thesis
    by (auto simp: server_addHook_def split: sum.split prod.split) (metis not_less snd_conv)+
qed

lemma delHook_inv_gate:
  assumes "gate_inv V g0 g"
  shows "gate_inv V g0 (snd (server_delHook r g))"
  using assms hooks_inv_Remove [of "en_net V" "gt_Hooks g" "hi_path r ''id''"]
  by (auto simp: gate_inv_def server_delHook_def Dispatcher_Remove_def)

lemma route_inv_gate:
  assumes "gate_inv V g0 (fst s)"
  shows "gate_inv V g0 (fst (snd (server_route V d pat r s)))"
proof -
  obtain g e where s: "s = (g, e)" by fastforce
  have "gate_inv V g0 (fst (snd (client_route V d pat r client s)))" for client
    using assms rpc_inv_gate [OF assms, of d r client] intent_inv_gate [OF assms, of d _ r] broadcast_inv_gate [OF assms, of d r]
      addHook_inv_gate [of V g0 g r] delHook_inv_gate [of V g0 g r]
    by (simp add: client_route_def s split_beta server_simulate_def server_intentRoute_def)
  with assms show ?thesis by (simp add: server_route_def server_auth_def Let_def split: option.split)
qed

lemma request_inv_gate:
  assumes "gate_inv V g0 (fst s)"
  shows "gate_inv V g0 (fst (snd (server_recoverer V d mt none r s)))"
  using assms route_inv_gate [OF assms, of d _ r]
  by (auto simp: server_recoverer_def server_cors_def server_observe_def split_beta intro!: gate_inv_count split: option.split)

text \<open>A day at the gateway: one request after the other.\<close>

fun serve_all ::
  "'e Env \<Rightarrow> 'e Deps \<Rightarrow> (HttpIn \<Rightarrow> string option) \<Rightarrow> (HttpIn \<Rightarrow> Reply) \<Rightarrow> HttpIn list \<Rightarrow> Gate \<times> 'e \<Rightarrow> Gate \<times> 'e" where
  "serve_all V d mt none [] s = s"
| "serve_all V d mt none (r # rs) s = serve_all V d mt none rs (snd (server_recoverer V d mt none r s))"

lemma serve_all_inv:
  "gate_inv V g0 (fst s) \<Longrightarrow> gate_inv V g0 (fst (serve_all V d mt none rs s))"
  by (induction rs arbitrary: s) (simp_all add: request_inv_gate)

section \<open>What a stream delivers\<close>

lemma stream_loop_frames:
  "fst (stream_loop marshal ch acts l) = concat (map (sse_frame marshal) (fst (recv_loop ch acts l)))"
  by (induction marshal ch acts l rule: stream_loop.induct) (auto split: prod.split option.split)

section \<open>Properties\<close>

definition request_key :: "HttpIn \<Rightarrow> string" where
  "request_key r = (if hi_header r ''X-API-Key'' = [] then hi_query r ''api_key'' else hi_header r ''X-API-Key'')"

text \<open>A request to a protected route without a configured key is answered 401 and counted; nothing else happens.\<close>

lemma unauthenticated_reply:
  assumes "inj_on (\<lambda>k. en_sha256 V (bytes_of k)) (insert (request_key r) (fst ` set (dp_APIKeys d)))"
    and "request_key r \<notin> fst ` set (dp_APIKeys d)"
    and "mt r = Some pat" and "pat \<notin> set public_patterns" and "hi_method r \<noteq> ''OPTIONS''"
  shows "server_recoverer V d mt none r (g, e) = (Reply 401 (PError ''invalid api key''),
    g\<lparr>gt_Metrics := Registry_Inc (en_fmt V) ''gateway_http_requests_total'' [(''route'', pat), (''status'', ''401'')] (gt_Metrics g)\<rparr>, e)"
proof -
  have "map_of (key_table V d) (en_sha256 V (bytes_of (request_key r))) = None"
    using map_of_digest [OF assms(1)] assms(2) by (simp add: key_table_def map_of_eq_None_iff)
  then have route: "server_route V d pat r (g, e) = (Reply 401 (PError ''invalid api key''), g, e)"
    using assms(4) by (simp add: server_route_def public_patterns_def server_auth_def request_key_def Let_def)
  have "big_String 401 = ''401''" by code_simp
  with route assms(3,5) show ?thesis
    by (simp add: server_recoverer_def server_cors_def server_observe_def writable_def)
qed

text \<open>No request breaks the gateway's state. Starting from \<^verbatim>\<open>New\<close>, after any sequence of requests to
  any routes, with any behaviour of the node, the engine, the signer and the relays: the cache is
  well-formed and within its capacity, every metric series and every webhook id occurs once, every
  webhook has a secret of at least 16 characters and a URL that passes validation, with private targets
  disallowed as they were configured, and the index is as the indexer left it.\<close>

theorem requests_keep_state:
  assumes "gt_Cache g = Cache_New cap ttl" and "gt_Hooks g = Dispatcher_New attempts backoff False" and "gt_Metrics g = Registry_New"
    and "serve_all V d mt none rs (server_New g, e) = (g', e')"
  shows "cache_inv (gt_Cache g') \<and> int (Cache_Len (gt_Cache g')) \<le> max cap 0 \<and> distinct (map fst (rg_vals (gt_Metrics g'))) \<and> distinct (map rn_ID (ds_regs (gt_Hooks g'))) \<and>
    (\<forall>r \<in> set (ds_regs (gt_Hooks g')). 16 \<le> length (rn_Secret r) \<and> public_url (en_net V) (rn_URL r)) \<and>
    gt_Index g' = gt_Index g"
proof -
  have "gate_inv V g (server_New g)"
    using hooks_inv_New [of "en_net V" attempts backoff False] cache_inv_New [of cap ttl]
    by (simp add: gate_inv_def server_New_def assms(1-3) registry_inv_ops Dispatcher_New_def)
  then have "gate_inv V g g'" using serve_all_inv [of V g "(server_New g, e)" d mt none rs] assms(4) by simp
  then show ?thesis
    using assms(1,2) by (auto simp: gate_inv_def hooks_inv_def registry_inv_def Dispatcher_New_def cache_inv_def Cache_Len_def Cache_New_def)
qed

theorem requests_keep_state_witness:
  "cache_inv (gt_Cache (fst (serve_all demo_env demo_deps (\<lambda>r. Some ''POST /v1/intent'') (\<lambda>r. Reply 404 PNone) [demo_in, demo_in]
     (server_New demo_gate, 0))))"
proof -
  obtain g' e' where "serve_all demo_env demo_deps (\<lambda>r. Some ''POST /v1/intent'') (\<lambda>r. Reply 404 PNone) [demo_in, demo_in]
      (server_New demo_gate, 0) = (g', e')" by fastforce
  from requests_keep_state [OF _ _ _ this, of 8 100 3 1] this show ?thesis by (simp add: demo_gate_def)
qed

text \<open>C21: what a client of \<^verbatim>\<open>GET /v1/stream\<close> sees. Whatever is appended, subscribed, cancelled, received by others and
  committed while the stream is open, the response is the greeting followed by one frame per event, and
  these events are the first ones appended since the request subscribed, in that order and without a
  gap. A client that falls behind loses the end of the stream, never an event in the middle.\<close>

theorem stream_gap_free:
  assumes "log_inv l" and "Some (ORecv (lg_nextSub l)) \<notin> set acts"
  shows "\<exists>evs. fst (server_stream marshal acts l) = stream_hello @ concat (map (sse_frame marshal) evs) \<and>
    prefix evs (acts_appended acts l)"
proof (intro exI conjI)
  show "fst (server_stream marshal acts l) = stream_hello @ concat (map (sse_frame marshal) (recv_run 256 acts l))"
    by (simp add: server_stream_def recv_run_def stream_loop_frames split_beta)
  show "prefix (recv_run 256 acts l) (acts_appended acts l)" by (rule recv_run_prefix [OF assms])
qed

theorem stream_gap_free_witness:
  "\<exists>evs. fst (server_stream ev_Payload [Some (OAppend ''0xaa'' ''block'' [65]), None, Some (OAppend ''0xbb'' ''block'' [66])] (Log_New 4)) =
     stream_hello @ concat (map (sse_frame ev_Payload) evs) \<and>
   prefix evs (acts_appended [Some (OAppend ''0xaa'' ''block'' [65]), None, Some (OAppend ''0xbb'' ''block'' [66])] (Log_New 4))"
proof (rule stream_gap_free)
  show "log_inv (Log_New 4)" by (rule log_inv_New) simp
qed simp

end
