(* ===== verification/Encodings.thy ===== *)
theory Encodings
  imports Rpcsource
begin

text \<open>
  What the gateway publishes, as bytes: the JSON forms of blocks (\<^verbatim>\<open>internal/indexer/indexer.go\<close>) and events
  (\<^verbatim>\<open>internal/eventlog/eventlog.go\<close>) by their struct tags, and what a consumer that decodes them back into these structs gets.

  A block whose strings are UTF-8 is read back as it was written. Blocks that came out of a JSON text are
  such blocks, so both node sources only deliver blocks that survive the way through the log.
\<close>

section \<open>Encoding\<close>

definition json_Block :: "Block \<Rightarrow> json" where
  "json_Block b = JObj [(''number'', JNum (FormatUint10 (bl_Number b))), (''hash'', JStr (bl_Hash b)),
     (''parentHash'', JStr (bl_ParentHash b)), (''timestamp'', JNum (FormatUint10 (bl_Timestamp b))),
     (''txCount'', JNum (big_String (bl_TxCount b)))]"

definition block_bytes :: "JsonText \<Rightarrow> Block \<Rightarrow> bytes" where
  "block_bytes T b = js_print T (json_Block b)"

text \<open>
  The payload of an event is a raw message: it is embedded as the value of its text, null if there is none. A payload
  that is no JSON text makes \<^verbatim>\<open>json.Marshal\<close> fail, and the callers, which ignore the error, use no bytes.
\<close>

definition raw_value :: "JsonText \<Rightarrow> bytes \<Rightarrow> json option" where
  "raw_value T b = (if b = [] then Some JNull else js_parse T b)"

definition json_Event :: "Event \<Rightarrow> json \<Rightarrow> json" where
  "json_Event ev payload = JObj [(''partition'', JNum (big_String (ev_Partition ev))), (''offset'', JNum (FormatUint10 (ev_Offset ev))),
     (''key'', JStr (ev_Key ev)), (''type'', JStr (ev_Type ev)), (''payload'', payload)]"

definition event_bytes :: "JsonText \<Rightarrow> Event \<Rightarrow> bytes" where
  "event_bytes T ev = (case raw_value T (ev_Payload ev) of None \<Rightarrow> [] | Some j \<Rightarrow> js_print T (json_Event ev j))"

section \<open>Decoding\<close>

definition dec_Block :: "json \<Rightarrow> gerror + Block" where
  "dec_Block j = ebind (dec_object j) (\<lambda>fs. ebind (dec_field ''number'' dec_uint64 fs) (\<lambda>n.
     ebind (dec_field ''hash'' dec_string fs) (\<lambda>h. ebind (dec_field ''parentHash'' dec_string fs) (\<lambda>p.
     ebind (dec_field ''timestamp'' dec_uint64 fs) (\<lambda>t. ebind (dec_field ''txCount'' dec_int fs) (\<lambda>c.
     Inr \<lparr>bl_Number = n, bl_Hash = h, bl_ParentHash = p, bl_Timestamp = t, bl_TxCount = c\<rparr>))))))"

definition decode_block :: "JsonText \<Rightarrow> bytes \<Rightarrow> Block option" where
  "decode_block T b = (case js_parse T b of None \<Rightarrow> None | Some j \<Rightarrow> (case dec_Block j of Inl err \<Rightarrow> None | Inr x \<Rightarrow> Some x))"

text \<open>A consumer decodes the type and the payload of every event it reads, or gives up.\<close>

fun decode_events :: "JsonText \<Rightarrow> (string \<times> bytes) list \<Rightarrow> (string \<times> Block) list option" where
  "decode_events T [] = Some []"
| "decode_events T ((t, p) # es) =
     Option.bind (decode_block T p) (\<lambda>b. map_option ((#) (t, b)) (decode_events T es))"

section \<open>Numbers\<close>

lemma digit_zero: "(k :: nat) < 10 \<Longrightarrow> char_of (48 + k) = CHR ''0'' \<Longrightarrow> k = 0"
proof -
  assume k: "k < (10 :: nat)" and eq: "char_of (48 + k) = CHR ''0''"
  have "(of_char (char_of (48 + k) :: char) :: nat) = 48 + k" using k by simp
  then show "k = 0" unfolding eq by simp
qed

lemma hd_digits_zero: "hd (dec_digits n) = CHR ''0'' \<Longrightarrow> n = 0"
proof (induction n rule: dec_digits.induct)
  case (1 n)
  then show ?case
    using digit_zero [of n] by (cases "n < 10") (auto simp: dec_digits.simps [of n])
qed

lemma parse_digits: "parse_num (dec_digits n) = Some (dec_digits n, [])"
proof -
  have dig: "\<forall>c \<in> set (dec_digits n). is_digit c" using dec_digits_chars by (simp add: is_digit_def)
  obtain c s where cs: "dec_digits n = c # s" by (cases "dec_digits n") simp_all
  have "s = []" if "c = CHR ''0''"
    using hd_digits_zero [of n] that cs by (simp add: dec_digits.simps [of 0])
  moreover have "c \<noteq> CHR ''-''" using hd_dec_digits [of n] cs by simp
  moreover have digits: "takeWhile is_digit s = s" "dropWhile is_digit s = []" "is_digit c"
    using dig unfolding cs by (simp_all add: takeWhile_eq_all_conv)
  ultimately show ?thesis unfolding cs by (auto simp: parse_num_def num_int_def num_frac_def num_exp_def digits)
qed

lemma FormatUint10_valid [simp]: "number_valid (FormatUint10 v)"
  using parse_digits by (simp add: number_valid_def FormatUint10_def)

lemma big_String_valid [simp]: "0 \<le> v \<Longrightarrow> number_valid (big_String v)"
  using parse_digits by (simp add: number_valid_def big_String_def)

section \<open>Blocks survive the log\<close>

definition block_ok :: "Block \<Rightarrow> bool" where
  "block_ok b \<longleftrightarrow> utf8_valid (bl_Hash b) \<and> utf8_valid (bl_ParentHash b) \<and> 0 \<le> bl_TxCount b \<and> bl_TxCount b \<le> maxInt64"

lemma block_names:
  "map strings_ToLower [''number'', ''hash'', ''parentHash'', ''timestamp'', ''txCount''] =
     [''number'', ''hash'', ''parenthash'', ''timestamp'', ''txcount'']"
  by code_simp

lemma block_names_utf8: "utf8_valid ''number''" "utf8_valid ''hash''" "utf8_valid ''parentHash''" "utf8_valid ''timestamp''" "utf8_valid ''txCount''"
  by simp_all

lemma dec_json_Block: "block_ok b \<Longrightarrow> dec_Block (json_Block b) = Inr b"
  using block_names
  by (simp add: dec_Block_def json_Block_def dec_field_def json_field_def block_ok_def minInt64_def)

lemma json_Block_valid: "block_ok b \<Longrightarrow> valid_json max_depth (json_Block b)"
  by (simp add: json_Block_def block_ok_def max_depth_def)

lemma decode_block_bytes: "block_ok b \<Longrightarrow> decode_block go_text (block_bytes go_text b) = Some b"
  using go_json.parse_print [OF json_Block_valid] by (simp add: decode_block_def block_bytes_def dec_json_Block)

lemma decode_encode_events:
  "\<forall>(t, b) \<in> set evs. block_ok b \<Longrightarrow> decode_events go_text (encode_events (block_bytes go_text) evs) = Some evs"
  by (induction evs) (auto simp: decode_block_bytes)

section \<open>What the sources deliver\<close>

text \<open>Strings that come out of a JSON text are UTF-8.\<close>

lemma dec_string_utf8: "dec_string j = Inr s \<Longrightarrow> valid_json d j \<Longrightarrow> utf8_valid s"
  by (cases j) auto

lemma dec_field_utf8:
  assumes "valid_json max_depth (JObj fs)" and "dec_field name dec_string fs = Inr s"
  shows "utf8_valid s"
proof (cases "json_field name fs")
  case None
  with assms(2) show ?thesis by (simp add: dec_field_def)
next
  case (Some j)
  from json_field_member [OF this] obtain k where "(k, j) \<in> set fs" by blast
  from go_json.member_valid [OF assms(1) this] Some assms(2) show ?thesis
    using dec_string_utf8 by (auto simp: dec_field_def)
qed

lemma dec_object_valid: "dec_object j = Inr fs \<Longrightarrow> valid_json max_depth j \<Longrightarrow> valid_json max_depth (JObj fs)"
  by (cases j) (auto simp: max_depth_def)

lemma field_valid:
  assumes "valid_json max_depth j" and "dec_object j = Inr fs" and "json_field name fs = Some r"
  shows "valid_json max_depth r"
  using go_json.member_valid [OF dec_object_valid [OF assms(2,1)]] json_field_member [OF assms(3)] by blast

lemma src_result_valid: "src_result go_text raw = Inr r \<Longrightarrow> valid_json max_depth r"
  by (auto simp: src_result_def dec_src_envelope_def early_return split: option.splits if_splits
      dest!: go_json.parse_valid intro: field_valid)

lemma rpc_result_valid: "rpc_result go_text raw = Inr r \<Longrightarrow> valid_json max_depth r"
  by (auto simp: rpc_result_def dec_envelope_def early_return split: option.splits if_splits sum.splits prod.splits
      dest!: go_json.parse_valid intro: field_valid)

lemma source_call_ok: "RPCSource_call T c m ps dec e = (Inr x, e') \<Longrightarrow> \<exists>raw r. src_result T raw = Inr r \<and> dec r = Inr x"
  by (auto simp: RPCSource_call_def early_return split: prod.splits sum.splits)

lemma rpcx_call_ok: "Rpcx_Call T c m ps dec e = (Inr x, e') \<Longrightarrow> \<exists>raw r. rpc_result T raw = Inr r \<and> dec r = Inr x"
  by (auto simp: Rpcx_Call_def early_return split: prod.splits sum.splits)

text \<open>The contract: what a source delivers has UTF-8 strings and counts its transactions.\<close>

locale text_source =
  fixes src :: "'e Source"
  assumes delivers: "served src b \<Longrightarrow> utf8_valid (bl_Hash b) \<and> utf8_valid (bl_ParentHash b) \<and> 0 \<le> bl_TxCount b"
begin

lemma served_ok: "served src b \<Longrightarrow> bl_TxCount b \<le> maxInt64 \<Longrightarrow> block_ok b"
  using delivers by (simp add: block_ok_def)

lemma history_decodes:
  assumes "\<forall>(t, b) \<in> set evs. served src b" and "\<forall>b. served src b \<longrightarrow> bl_TxCount b \<le> maxInt64"
  shows "decode_events go_text (encode_events (block_bytes go_text) evs) = Some evs"
  using assms served_ok by (intro decode_encode_events) auto

end

interpretation rpc_text: text_source "RPCSource go_text c" for c
proof
  fix b
  assume "served (RPCSource go_text c) b"
  then obtain x raw r where "block_of_raw x = Inr b" "src_result go_text raw = Inr r" "dec_raw_block r = Inr x"
    by (auto simp: served_def RPCSource_def RPCSource_Block_def early_return dest!: source_call_ok)
  then show "utf8_valid (bl_Hash b) \<and> utf8_valid (bl_ParentHash b) \<and> 0 \<le> bl_TxCount b"
    using dec_field_utf8 [OF dec_object_valid [OF _ src_result_valid]]
    by (auto simp: dec_raw_block_def block_of_raw_def early_return)
qed

interpretation sol_text: text_source "Solana_Source go_text c lookback" for c lookback
proof
  fix b
  assume "served (Solana_Source go_text c lookback) b"
  then obtain n raw r x where "rpc_result go_text raw = Inr r" "dec_sol_block r = Inr x" "sol_block n x = Inr b"
    by (auto simp: served_def Solana_Source_def Solana_Block_def Let_def early_return dest!: rpcx_call_ok)
  then show "utf8_valid (bl_Hash b) \<and> utf8_valid (bl_ParentHash b) \<and> 0 \<le> bl_TxCount b"
    using dec_field_utf8 [OF dec_object_valid [OF _ rpc_result_valid]]
    by (auto simp: dec_sol_block_def sol_block_def early_return)
qed

end
