(* ===== verification/Replies.thy ===== *)
theory Replies
  imports Routes Encodings
begin

text \<open>
  The bytes of the replies: \<^verbatim>\<open>writeJSON\<close> of \<^verbatim>\<open>internal/server/server.go\<close> and the JSON form, by struct tags, of
  every value the handlers pass to it (\<^verbatim>\<open>intents.go\<close>, \<^verbatim>\<open>internal/intent\<close>, \<^verbatim>\<open>internal/upstream\<close>,
  \<^verbatim>\<open>internal/webhook\<close>, \<^verbatim>\<open>internal/signerclient\<close>). The text of a metric's floating-point value is the
  parameter \<open>num\<close>. None of the lists is a nil slice: the code makes each of them.

  The bytes show nothing of a webhook's secret: of two gateways that differ in the secrets of
  their webhooks only, every request gets the same bytes.
\<close>

section \<open>JSON by struct tags\<close>

definition json_u64 :: "u64 \<Rightarrow> json" where
  "json_u64 v = JNum (FormatUint10 v)"

text \<open>A string field with \<^verbatim>\<open>omitempty\<close>.\<close>

definition opt_str :: "string \<Rightarrow> string \<Rightarrow> (string \<times> json) list" where
  "opt_str name s = (if s = [] then [] else [(name, JStr s)])"

definition json_Status :: "Status \<Rightarrow> json" where
  "json_Status st = JObj [(''url'', JStr (st_URL st)), (''state'', JStr (st_State st))]"

definition json_Registration :: "Registration \<Rightarrow> json" where
  "json_Registration r = JObj [(''id'', JStr (rn_ID r)), (''url'', JStr (rn_URL r))]"

definition json_SignResponse :: "SignResponse \<Rightarrow> json" where
  "json_SignResponse r = JObj [(''address'', JStr (sp_Address r)), (''digest'', JStr (sp_Digest r)), (''signature'', JStr (sp_Signature r))]"

definition json_TxResponse :: "TxResponse \<Rightarrow> json" where
  "json_TxResponse r = JObj [(''address'', JStr (ts_Address r)), (''signing_hash'', JStr (ts_SigningHash r)),
     (''raw_tx'', JStr (ts_RawTx r)), (''tx_hash'', JStr (ts_TxHash r))]"

definition json_Tx :: "Tx \<Rightarrow> json" where
  "json_Tx t = JObj [(''chain_id'', json_u64 (tx_ChainID t)), (''nonce'', json_u64 (tx_Nonce t)), (''gas_price'', JStr (tx_GasPrice t)),
     (''gas_limit'', json_u64 (tx_GasLimit t)), (''to'', JStr (tx_To t)), (''value'', JStr (tx_Value t)), (''data'', JStr (tx_Data t))]"

definition json_LogView :: "LogView \<Rightarrow> json" where
  "json_LogView l = JObj [(''address'', JStr (lv_Address l)), (''topics'', JArr (map JStr (lv_Topics l))), (''data'', JStr (lv_Data l))]"

definition json_ChangeView :: "ChangeView \<Rightarrow> json" where
  "json_ChangeView c = JObj [(''address'', JStr (cv_Address c)), (''before'', JStr (cv_Before c)), (''after'', JStr (cv_After c)),
     (''delta'', JStr (cv_Delta c))]"

definition json_Simulation :: "Simulation \<Rightarrow> json" where
  "json_Simulation s = JObj ([(''outcome'', JStr (sn_Outcome s)), (''gas_used'', json_u64 (sn_GasUsed s)), (''output'', JStr (sn_Output s))] @
     opt_str ''reason'' (sn_Reason s) @
     [(''logs'', JArr (map json_LogView (sn_Logs s))), (''balance_changes'', JArr (map json_ChangeView (sn_BalanceChanges s))),
      (''elapsed_us'', json_u64 (sn_ElapsedUS s))] @
     opt_str ''created_address'' (sn_Created s))"

definition json_SolanaSim :: "SolanaSim \<Rightarrow> json" where
  "json_SolanaSim s = JObj ([(''success'', JBool (so_Success s))] @ (case so_Err s of None \<Rightarrow> [] | Some j \<Rightarrow> [(''err'', j)]) @
     [(''logs'', JArr (map JStr (so_Logs s))), (''units_consumed'', json_u64 (so_UnitsConsumed s))])"

definition json_intentResp :: "string \<Rightarrow> Tx option \<Rightarrow> Simulation + SolanaSim \<Rightarrow> TxResponse option \<Rightarrow> string \<Rightarrow> json" where
  "json_intentResp chain tx sim sg skipped = JObj ([(''chain'', JStr chain)] @
     (case tx of None \<Rightarrow> [] | Some t \<Rightarrow> [(''tx'', json_Tx t)]) @
     [(''simulation'', case sim of Inl s \<Rightarrow> json_Simulation s | Inr s \<Rightarrow> json_SolanaSim s)] @
     (case sg of None \<Rightarrow> [] | Some t \<Rightarrow> [(''signed'', json_TxResponse t)]) @
     opt_str ''signing_skipped'' skipped)"

definition json_msg :: "string \<Rightarrow> json" where
  "json_msg m = JObj [(''error'', JStr m)]"

text \<open>The value of a reply; the members of a Go map are written in the order of their keys.\<close>

fun payload_json :: "(rat \<Rightarrow> string) \<Rightarrow> payload \<Rightarrow> json option" where
  "payload_json num (PError m) = Some (json_msg m)"
| "payload_json num PStatusOK = Some (JObj [(''status'', JStr ''ok'')])"
| "payload_json num (PReady b) = Some (JObj [(''ready'', JBool b)])"
| "payload_json num (PStatus head ups entries ok cnt) = Some (JObj [(''cache_entries'', JNum (big_String (int entries))),
     (''head'', json_Block head), (''rpc_ok'', JNum (num ok)), (''upstreams'', JArr (map json_Status ups)),
     (''webhook_cnt'', JNum (big_String (int cnt)))])"
| "payload_json num (PBlocks bs) = Some (JObj [(''blocks'', JArr (map json_Block bs))])"
| "payload_json num (PIntent chain tx sim sg skipped) = Some (json_intentResp chain tx sim sg skipped)"
| "payload_json num (PSent chain i) = Some (JObj [(''chain'', JStr chain), (''tx_id'', JStr i)])"
| "payload_json num (PSigned out) = Some (json_SignResponse out)"
| "payload_json num (PHooks rs) = Some (JObj [(''webhooks'', JArr (map json_Registration rs))])"
| "payload_json num (PHook r) = Some (json_Registration r)"
| "payload_json num (PJson j) = Some j"
| "payload_json num (PText s) = None"
| "payload_json num PStream = None"
| "payload_json num PNone = None"

text \<open>An encoder ends a value with a newline. The metrics are plain text; a stream is written as it goes.\<close>

definition writeJSON :: "JsonText \<Rightarrow> json \<Rightarrow> bytes" where
  "writeJSON T j = js_print T j @ [10]"

definition reply_body :: "JsonText \<Rightarrow> (rat \<Rightarrow> string) \<Rightarrow> payload \<Rightarrow> bytes" where
  "reply_body T num p = (case payload_json num p of
     Some j \<Rightarrow> writeJSON T j
   | None \<Rightarrow> (case p of PText s \<Rightarrow> bytes_of s | _ \<Rightarrow> []))"

definition reply_bytes :: "JsonText \<Rightarrow> (rat \<Rightarrow> string) \<Rightarrow> Reply \<Rightarrow> int \<times> bytes" where
  "reply_bytes T num rep = (rp_status rep, reply_body T num (rp_payload rep))"

section \<open>What a client of the block API reads\<close>

definition decode_blocks :: "JsonText \<Rightarrow> bytes \<Rightarrow> Block list option" where
  "decode_blocks T body = (case js_parse T body of None \<Rightarrow> None | Some j \<Rightarrow>
     (case ebind (dec_object j) (dec_field ''blocks'' (dec_list dec_Block)) of Inl err \<Rightarrow> None | Inr bs \<Rightarrow> Some bs))"

lemma emap_json_Block: "\<forall>b \<in> set bs. block_ok b \<Longrightarrow> emap dec_Block (map json_Block bs) = Inr bs"
  by (induction bs) (simp_all add: dec_json_Block)

lemma parse_writeJSON: "valid_json max_depth j \<Longrightarrow> js_parse go_text (writeJSON go_text j) = Some j"
proof -
  have "string_of [10] = nl" by code_simp
  then have "string_of (bytes_of (print_text j) @ [10]) = print_text j @ nl" by (simp add: string_of_append)
  then show "valid_json max_depth j \<Longrightarrow> ?thesis"
    using parse_print_text [of j nl]
    by (simp add: writeJSON_def go_text_def nl_def separated_def skip_space_def is_space_def)
qed

lemma decode_blocks_body:
  assumes "\<forall>b \<in> set bs. block_ok b"
  shows "decode_blocks go_text (reply_body go_text num (PBlocks bs)) = Some bs"
proof -
  have "valid_json max_depth (JObj [(''blocks'', JArr (map json_Block bs))])"
    using assms by (auto simp: json_Block_def block_ok_def max_depth_def)
  from parse_writeJSON [OF this] show ?thesis
    by (simp add: decode_blocks_def reply_body_def dec_field_def json_field_def emap_json_Block [OF assms])
qed

text \<open>The limit that a request asks for, if it is one that is served.\<close>

definition asked_limit :: "HttpIn \<Rightarrow> int option" where
  "asked_limit r = (if hi_query r ''limit'' = [] then Some 20 else case Atoi (hi_query r ''limit'') of
     Inl err \<Rightarrow> None | Inr n \<Rightarrow> if 1 \<le> n \<and> n \<le> 500 then Some n else None)"

lemma blocks_request:
  assumes "map_of (key_table V d) (en_sha256 V (bytes_of (request_key r))) = Some client"
    and "mt r = Some ''GET /v1/blocks''" and "hi_method r \<noteq> ''OPTIONS''"
  shows "fst (server_recoverer V d mt none r (g, e)) = (case asked_limit r of
      None \<Rightarrow> Reply 400 (PError ''limit must be 1..500'')
    | Some n \<Rightarrow> Reply 200 (PBlocks (take (nat n) (rev (ix_chain (gt_Index g))))))"
proof -
  have "server_route V d ''GET /v1/blocks'' r (g, e) = (server_blocks r g, g, e)"
    using assms(1) by (simp add: server_route_def server_auth_def request_key_def client_route_def Let_def)
  moreover have "server_blocks r g = (case asked_limit r of
      None \<Rightarrow> Reply 400 (PError ''limit must be 1..500'')
    | Some n \<Rightarrow> Reply 200 (PBlocks (take (nat n) (rev (ix_chain (gt_Index g))))))"
    by (auto simp: server_blocks_def asked_limit_def Blocks_newest_first Let_def split: sum.split)
  ultimately show ?thesis
    using assms(2,3) by (simp add: server_recoverer_def server_cors_def server_observe_def writable_def split: option.split)
qed

section \<open>Handlers that do not look at the webhooks\<close>

definition hook_blind :: "(Gate \<times> 'e \<Rightarrow> 'a \<times> Gate \<times> 'e) \<Rightarrow> bool" where
  "hook_blind f \<longleftrightarrow> (\<forall>g e h. f (g\<lparr>gt_Hooks := h\<rparr>, e) = (case f (g, e) of (x, g', e') \<Rightarrow> (x, g'\<lparr>gt_Hooks := h\<rparr>, e')))"

lemma hook_blindI:
  "(\<And>g e h. f (g\<lparr>gt_Hooks := h\<rparr>, e) = (case f (g, e) of (x, g', e') \<Rightarrow> (x, g'\<lparr>gt_Hooks := h\<rparr>, e'))) \<Longrightarrow> hook_blind f"
  by (simp add: hook_blind_def)

lemma hook_blindD:
  "hook_blind f \<Longrightarrow> f (g\<lparr>gt_Hooks := h\<rparr>, e) = (fst (f (g, e)), (fst (snd (f (g, e))))\<lparr>gt_Hooks := h\<rparr>, snd (snd (f (g, e))))"
  by (simp add: hook_blind_def split_beta)

lemma gate_update_commute [simp]:
  "g\<lparr>gt_Hooks := h, gt_Limiter := l\<rparr> = g\<lparr>gt_Limiter := l, gt_Hooks := h\<rparr>"
  "g\<lparr>gt_Hooks := h, gt_Cache := c\<rparr> = g\<lparr>gt_Cache := c, gt_Hooks := h\<rparr>"
  "g\<lparr>gt_Hooks := h, gt_Metrics := m\<rparr> = g\<lparr>gt_Metrics := m, gt_Hooks := h\<rparr>"
  by simp_all

lemma blind_forward: "hook_blind (server_forward V d q)"
  by (rule hook_blindI) (simp add: server_forward_def Let_def split: prod.split sum.split option.split)

lemma blind_proxy: "hook_blind (server_proxy V d q client)"
proof (rule hook_blindI)
  fix g e h
  show "server_proxy V d q client (g\<lparr>gt_Hooks := h\<rparr>, e) =
      (case server_proxy V d q client (g, e) of (x, g', e') \<Rightarrow> (x, g'\<lparr>gt_Hooks := h\<rparr>, e'))"
    by (simp add: server_proxy_def Let_def hook_blindD [OF blind_forward] split_beta split: prod.split bool.split option.split)
qed

lemma blind_rpc_handler: "hook_blind (rpc_handler V d client q)"
  by (rule hook_blindI) (simp add: rpc_handler_def hook_blindD [OF blind_proxy] split_beta)

lemma blind_serve_loop:
  assumes "\<And>q. hook_blind (h q)"
  shows "hook_blind (serve_loop h qs)"
proof (induction qs)
  case Nil
  show ?case by (rule hook_blindI) simp
next
  case (Cons q qs)
  show ?case by (rule hook_blindI) (simp add: hook_blindD [OF assms] hook_blindD [OF Cons.IH] split_beta)
qed

lemma blind_rpc: "hook_blind (server_rpc V d r client)"
  by (rule hook_blindI)
     (simp add: server_rpc_def Serve_reply_def hook_blindD [OF blind_serve_loop [OF blind_rpc_handler]] split_beta Let_def
       split: option.split sum.split)

lemma blind_doIntent: "hook_blind (server_doIntent V d allowSign r)"
  by (rule hook_blindI)
     (simp add: server_doIntent_def count_sim_def split_beta Let_def split: option.split sum.split)

lemma blind_broadcast: "hook_blind (server_broadcast V d r)"
  by (rule hook_blindI)
     (simp add: server_broadcast_def count_broadcast_def split_beta Let_def split: option.split sum.split)

section \<open>Secrets\<close>

definition hide_reg :: "Registration \<Rightarrow> Registration" where
  "hide_reg r = r\<lparr>rn_Secret := []\<rparr>"

definition hide_hooks :: "Dispatcher \<Rightarrow> Dispatcher" where
  "hide_hooks h = h\<lparr>ds_regs := map hide_reg (ds_regs h)\<rparr>"

text \<open>Two gateways that differ in the secrets of their webhooks only.\<close>

definition same_but_secrets :: "Gate \<Rightarrow> Gate \<Rightarrow> bool" where
  "same_but_secrets g1 g2 \<longleftrightarrow> hide_hooks (gt_Hooks g1) = hide_hooks (gt_Hooks g2) \<and> g2 = g1\<lparr>gt_Hooks := gt_Hooks g2\<rparr>"

text \<open>What both answer: the same bytes, in the same world, and they still differ in secrets only.\<close>

definition same_answers :: "JsonText \<Rightarrow> (rat \<Rightarrow> string) \<Rightarrow> Reply \<times> Gate \<times> 'e \<Rightarrow> Reply \<times> Gate \<times> 'e \<Rightarrow> bool" where
  "same_answers T num = (\<lambda>(rep1, g1, e1) (rep2, g2, e2).
     reply_bytes T num rep1 = reply_bytes T num rep2 \<and> same_but_secrets g1 g2 \<and> e1 = e2)"

lemma hide_reg_simps [simp]: "rn_ID (hide_reg r) = rn_ID r" "rn_URL (hide_reg r) = rn_URL r"
  by (simp_all add: hide_reg_def)

lemma json_hide_reg: "json_Registration (hide_reg r) = json_Registration r"
  by (simp add: json_Registration_def)

lemma map_json_hide: "map hide_reg xs = map hide_reg ys \<Longrightarrow> map json_Registration xs = map json_Registration ys"
  by (metis (no_types, lifting) json_hide_reg map_eq_conv map_map o_apply)

lemma map_hide_filter:
  "map hide_reg (filter (\<lambda>r. P (rn_ID r)) xs) = filter (\<lambda>r. P (rn_ID r)) (map hide_reg xs)"
  by (induction xs) simp_all

lemma map_hide_insort: "map hide_reg (insort_key rn_ID r xs) = insort_key rn_ID (hide_reg r) (map hide_reg xs)"
  by (induction xs) simp_all

lemma map_hide_sort: "map hide_reg (sort_key rn_ID xs) = sort_key rn_ID (map hide_reg xs)"
  by (induction xs) (simp_all add: map_hide_insort)

lemma hidden_list:
  assumes "hide_hooks h1 = hide_hooks h2"
  shows "map json_Registration (Dispatcher_List h1) = map json_Registration (Dispatcher_List h2)"
    and "length (Dispatcher_List h1) = length (Dispatcher_List h2)"
proof -
  from assms have "map hide_reg (ds_regs h1) = map hide_reg (ds_regs h2)"
    by (metis Dispatcher.select_convs(1) Dispatcher.surjective Dispatcher.update_convs(1) hide_hooks_def)
  then have eq: "map hide_reg (Dispatcher_List h1) = map hide_reg (Dispatcher_List h2)"
    by (simp add: Dispatcher_List_def map_hide_sort)
  then show "map json_Registration (Dispatcher_List h1) = map json_Registration (Dispatcher_List h2)"
    by (rule map_json_hide)
  from eq show "length (Dispatcher_List h1) = length (Dispatcher_List h2)" by (rule map_eq_imp_length_eq)
qed

lemma hide_hooks_eq:
  "hide_hooks h1 = hide_hooks h2 \<longleftrightarrow> map hide_reg (ds_regs h1) = map hide_reg (ds_regs h2) \<and> ds_seq h1 = ds_seq h2 \<and>
     ds_attempts h1 = ds_attempts h2 \<and> ds_backoff h1 = ds_backoff h2 \<and> ds_allowPrivate h1 = ds_allowPrivate h2"
  by (cases h1; cases h2) (simp add: hide_hooks_def)

lemma hidden_Register:
  assumes "hide_hooks h1 = hide_hooks h2"
  shows "fst (Dispatcher_Register N u sec h1) = fst (Dispatcher_Register N u sec h2)"
    and "hide_hooks (snd (Dispatcher_Register N u sec h1)) = hide_hooks (snd (Dispatcher_Register N u sec h2))"
  using assms map_hide_filter [of "\<lambda>i. i \<noteq> hook_id (wrap64 (ds_seq h1 + 1))"]
  by (auto simp: hide_hooks_eq Dispatcher_Register_def put_reg_def Let_def split: option.split)

lemma hidden_ids: "map hide_reg xs = map hide_reg ys \<Longrightarrow> map rn_ID xs = map rn_ID ys"
  by (metis (no_types, lifting) hide_reg_simps(1) map_eq_conv map_map o_apply)

lemma hidden_Remove:
  assumes "hide_hooks h1 = hide_hooks h2"
  shows "fst (Dispatcher_Remove i h1) = fst (Dispatcher_Remove i h2)"
    and "hide_hooks (snd (Dispatcher_Remove i h1)) = hide_hooks (snd (Dispatcher_Remove i h2))"
proof -
  have "i \<in> set (map rn_ID (ds_regs h1)) \<longleftrightarrow> i \<in> set (map rn_ID (ds_regs h2))"
    using assms hidden_ids by (metis hide_hooks_eq)
  then show "fst (Dispatcher_Remove i h1) = fst (Dispatcher_Remove i h2)" by (auto simp: Dispatcher_Remove_def)
  show "hide_hooks (snd (Dispatcher_Remove i h1)) = hide_hooks (snd (Dispatcher_Remove i h2))"
    using assms map_hide_filter [of "\<lambda>x. x \<noteq> i"] by (simp add: hide_hooks_eq Dispatcher_Remove_def)
qed

lemma same_but_secretsE:
  assumes "same_but_secrets g1 g2"
  obtains h where "g2 = g1\<lparr>gt_Hooks := h\<rparr>" and "hide_hooks (gt_Hooks g1) = hide_hooks h"
  using assms by (auto simp: same_but_secrets_def)

lemma same_but_secretsI:
  "hide_hooks (gt_Hooks g) = hide_hooks h \<Longrightarrow> same_but_secrets g (g\<lparr>gt_Hooks := h\<rparr>)"
  by (simp add: same_but_secrets_def)

text \<open>A blind handler that keeps the webhooks gives the same answers.\<close>

definition keeps_hooks :: "(Gate \<times> 'e \<Rightarrow> 'a \<times> Gate \<times> 'e) \<Rightarrow> bool" where
  "keeps_hooks f \<longleftrightarrow> (\<forall>g e. gt_Hooks (fst (snd (f (g, e)))) = gt_Hooks g)"

lemma blind_keeps: "hook_blind f \<Longrightarrow> keeps_hooks f"
proof -
  assume f: "hook_blind f"
  have "gt_Hooks (fst (snd (f (g\<lparr>gt_Hooks := gt_Hooks g\<rparr>, e)))) = gt_Hooks g" for g e
    unfolding hook_blindD [OF f] by simp
  then show ?thesis by (simp add: keeps_hooks_def)
qed

lemma blind_same:
  assumes "hook_blind f" and "same_but_secrets g1 g2"
  shows "same_answers T num (f (g1, e)) (f (g2, e))"
proof -
  from assms(2) obtain h where g2: "g2 = g1\<lparr>gt_Hooks := h\<rparr>" and h: "hide_hooks (gt_Hooks g1) = hide_hooks h"
    by (rule same_but_secretsE)
  have "gt_Hooks (fst (snd (f (g1, e)))) = gt_Hooks g1" using blind_keeps [OF assms(1)] by (simp add: keeps_hooks_def)
  then show ?thesis
    unfolding g2 hook_blindD [OF assms(1)] by (simp add: same_answers_def split_beta same_but_secretsI h)
qed

lemma hooks_same:
  assumes "same_but_secrets g1 g2"
  shows "same_answers T num (server_listHooks g1, g1, e) (server_listHooks g2, g2, e)"
    and "same_answers T num (server_status V d (g1, e), g1, e) (server_status V d (g2, e), g2, e)"
proof -
  from assms obtain h where g2: "g2 = g1\<lparr>gt_Hooks := h\<rparr>" and h: "hide_hooks (gt_Hooks g1) = hide_hooks h"
    by (rule same_but_secretsE)
  show "same_answers T num (server_listHooks g1, g1, e) (server_listHooks g2, g2, e)"
    using assms hidden_list(1) [OF h] by (simp add: g2 same_answers_def server_listHooks_def reply_bytes_def reply_body_def)
  show "same_answers T num (server_status V d (g1, e), g1, e) (server_status V d (g2, e), g2, e)"
    using assms hidden_list(2) [OF h] by (simp add: g2 same_answers_def server_status_def)
qed

lemma addHook_same:
  assumes "same_but_secrets g1 g2"
  shows "same_answers T num (case server_addHook V r g1 of (rep, g) \<Rightarrow> (rep, g, e)) (case server_addHook V r g2 of (rep, g) \<Rightarrow> (rep, g, e))"
proof -
  from assms obtain h where g2: "g2 = g1\<lparr>gt_Hooks := h\<rparr>" and h: "hide_hooks (gt_Hooks g1) = hide_hooks h"
    by (rule same_but_secretsE)
  have "same_but_secrets (g1\<lparr>gt_Hooks := snd (Dispatcher_Register N u sec (gt_Hooks g1))\<rparr>)
      (g1\<lparr>gt_Hooks := snd (Dispatcher_Register N u sec h)\<rparr>)" for N u sec
    using hidden_Register(2) [OF h] by (simp add: same_but_secrets_def)
  then show ?thesis
    using assms hidden_Register(1) [OF h] unfolding g2
    by (auto simp: same_answers_def server_addHook_def split_beta split: sum.split)
qed

lemma delHook_same:
  assumes "same_but_secrets g1 g2"
  shows "same_answers T num (case server_delHook r g1 of (rep, g) \<Rightarrow> (rep, g, e)) (case server_delHook r g2 of (rep, g) \<Rightarrow> (rep, g, e))"
proof -
  from assms obtain h where g2: "g2 = g1\<lparr>gt_Hooks := h\<rparr>" and h: "hide_hooks (gt_Hooks g1) = hide_hooks h"
    by (rule same_but_secretsE)
  show ?thesis
    using hidden_Remove [OF h] unfolding g2
    by (simp add: same_answers_def server_delHook_def split_beta same_but_secrets_def)
qed

lemma route_same:
  assumes "same_but_secrets g1 g2"
  shows "same_answers T num (server_route V d pat r (g1, e)) (server_route V d pat r (g2, e))"
proof -
  from assms obtain h where g2: "g2 = g1\<lparr>gt_Hooks := h\<rparr>" and h: "hide_hooks (gt_Hooks g1) = hide_hooks h"
    by (rule same_but_secretsE)
  have plain: "same_answers T num (rep, g1, e') (rep, g2, e')" for rep e'
    using assms by (simp add: same_answers_def)
  have blocks: "server_blocks r (g1\<lparr>gt_Hooks := h\<rparr>) = server_blocks r g1"
    by (simp add: server_blocks_def Let_def split: sum.split)
  have rpc: "hook_blind (\<lambda>s. case server_rpc V d r client s of (j, s) \<Rightarrow> (Reply 200 (PJson j), s))" for client
    by (rule hook_blindI) (simp add: hook_blindD [OF blind_rpc] split_beta)
  have sign: "hook_blind (\<lambda>(g, e). case server_sign V d r e of (rep, e') \<Rightarrow> (rep, g, e'))"
    by (rule hook_blindI) (simp add: split_beta)
  have "same_answers T num (client_route V d pat r client (g1, e)) (client_route V d pat r client (g2, e))" for client
    using blind_same [OF rpc assms, of T num client e] hooks_same(1) [OF assms, of T num e] hooks_same(2) [OF assms, of T num V d e]
      blind_same [OF sign assms, of T num e] blind_same [OF blind_doIntent assms, of T num V d True r e]
      blind_same [OF blind_doIntent assms, of T num V d False r e] blind_same [OF blind_broadcast assms, of T num V d r e]
      addHook_same [OF assms, of T num e V r] delHook_same [OF assms, of T num e r] plain [of _ e] blocks
    by (simp add: client_route_def server_simulate_def server_intentRoute_def g2)
  with plain [of _ e] show ?thesis
    by (simp add: server_route_def server_auth_def server_ready_def Let_def g2 split: option.split)
qed

lemma same_bytes_writable:
  "reply_bytes T num rep1 = reply_bytes T num rep2 \<Longrightarrow> writable rep1 = writable rep2 \<and> rp_status rep1 = rp_status rep2"
  by (simp add: reply_bytes_def writable_def)

lemma observe_same:
  assumes "same_but_secrets g1 g2"
  shows "same_answers T num (server_observe V d mt none r (g1, e)) (server_observe V d mt none r (g2, e))"
proof -
  let ?f = "\<lambda>s. case mt r of None \<Rightarrow> (none r, s) | Some pat \<Rightarrow> server_route V d pat r s"
  obtain rep1 h1 e1 rep2 h2 e2 where f: "?f (g1, e) = (rep1, h1, e1)" "?f (g2, e) = (rep2, h2, e2)"
    using prod_cases3 by metis
  have "same_answers T num (?f (g1, e)) (?f (g2, e))"
    using assms route_same [OF assms, of T num V d _ r e] by (simp add: same_answers_def split: option.split)
  then have s: "reply_bytes T num rep1 = reply_bytes T num rep2" "same_but_secrets h1 h2" "e1 = e2"
    unfolding f by (simp_all add: same_answers_def)
  from s(2) obtain h where h: "h2 = h1\<lparr>gt_Hooks := h\<rparr>" "hide_hooks (gt_Hooks h1) = hide_hooks h"
    by (rule same_but_secretsE)
  have upd: "same_but_secrets (h1\<lparr>gt_Metrics := m\<rparr>) (h2\<lparr>gt_Metrics := m\<rparr>)" for m
    using h by (simp add: same_but_secrets_def)
  have "gt_Metrics h2 = gt_Metrics h1" using h by simp
  with s upd same_bytes_writable [OF s(1)] show ?thesis unfolding server_observe_def f by (simp add: same_answers_def)
qed

lemma request_same:
  assumes "same_but_secrets g1 g2"
  shows "same_answers T num (server_recoverer V d mt none r (g1, e)) (server_recoverer V d mt none r (g2, e))"
proof -
  have "same_answers T num (server_cors V d mt none r (g1, e)) (server_cors V d mt none r (g2, e))"
    using observe_same [OF assms] assms
    by (cases "hi_method r = ''OPTIONS''") (simp_all add: server_cors_def, simp add: same_answers_def)
  then show ?thesis
    by (auto simp: server_recoverer_def same_answers_def split_beta dest: same_bytes_writable)
qed

section \<open>A conversation\<close>

text \<open>What the clients read, request after request, and where the gateway ends up.\<close>

fun serve_bytes ::
  "'e Env \<Rightarrow> 'e Deps \<Rightarrow> (rat \<Rightarrow> string) \<Rightarrow> (HttpIn \<Rightarrow> string option) \<Rightarrow> (HttpIn \<Rightarrow> Reply) \<Rightarrow> HttpIn list \<Rightarrow> Gate \<times> 'e \<Rightarrow> (int \<times> bytes) list" where
  "serve_bytes V d num mt none [] s = []"
| "serve_bytes V d num mt none (r # rs) s = (case server_recoverer V d mt none r s of (rep, s') \<Rightarrow>
     reply_bytes (en_json V) num rep # serve_bytes V d num mt none rs s')"

text \<open>C4: webhook secrets do not leave the gateway through its HTTP surface. Take two gateways that differ
  in nothing but the secrets of their registered webhooks and send both the same requests, any number
  of them, to any route: every reply has the same status and, byte for byte, the same body, so no client
  can learn anything of a secret from the answers.\<close>

theorem secrets_not_observable:
  assumes "same_but_secrets g1 g2"
  shows "serve_bytes V d num mt none rs (g1, e) = serve_bytes V d num mt none rs (g2, e)"
  using assms
proof (induction rs arbitrary: g1 g2 e)
  case (Cons r rs)
  obtain rep1 h1 e1 rep2 h2 e2 where f: "server_recoverer V d mt none r (g1, e) = (rep1, h1, e1)"
    "server_recoverer V d mt none r (g2, e) = (rep2, h2, e2)"
    using prod_cases3 by metis
  from request_same [OF Cons.prems, of "en_json V" num V d mt none r e]
  have "reply_bytes (en_json V) num rep1 = reply_bytes (en_json V) num rep2" "same_but_secrets h1 h2" "e1 = e2"
    unfolding f by (simp_all add: same_answers_def)
  with Cons.IH show ?case by (simp add: f)
qed simp

definition demo_hooks :: "string \<Rightarrow> Gate" where
  "demo_hooks secret = (server_New demo_gate)\<lparr>gt_Hooks := \<lparr>ds_regs = [\<lparr>rn_ID = ''wh_0001'', rn_URL = ''https://a'', rn_Secret = secret\<rparr>],
     ds_seq = 1, ds_attempts = 3, ds_backoff = 1, ds_allowPrivate = False\<rparr>\<rparr>"

theorem secrets_not_observable_witness:
  "serve_bytes demo_env demo_deps (\<lambda>x. ''0'') (\<lambda>r. Some ''GET /v1/webhooks'') (\<lambda>r. Reply 404 PNone) [demo_in] (demo_hooks ''0123456789abcdef'', 0) =
   serve_bytes demo_env demo_deps (\<lambda>x. ''0'') (\<lambda>r. Some ''GET /v1/webhooks'') (\<lambda>r. Reply 404 PNone) [demo_in] (demo_hooks ''fedcba9876543210'', 0)"
  by (rule secrets_not_observable) (simp add: same_but_secrets_def demo_hooks_def hide_hooks_def hide_reg_def)

end
