(* ===== verification/Poolsteps.thy ===== *)
theory Poolsteps
  imports Upstream
begin

text \<open>
  Concurrent calls of the endpoint pool, \<^verbatim>\<open>internal/upstream/upstream.go\<close>. \<open>Upstream\<close> runs a call from its
  first instruction to its return; here any number of calls run at once. A call is at the head
  of its loop, in an attempt, or finished, and it advances by one access to shared state at a time:
  the atomic counter, a breaker's \<^verbatim>\<open>Allow\<close>, or the report of an attempt's outcome. What the network does
  and when is up to the schedule.
\<close>

section \<open>Calls in flight\<close>

text \<open>\<open>Loop s i\<close>: before iteration \<open>i\<close> of a call that starts at \<open>s\<close>; \<open>Trying s i j\<close>: iteration \<open>i\<close> tries endpoint \<open>j\<close>.\<close>

datatype call_state = Loop int nat | Trying int nat nat | Finished "(gerror + bytes) outcome"

record CPool =
  cp_pool :: Pool
  cp_calls :: "call_state list"

text \<open>
  What can happen: a call begins, call \<open>k\<close> goes on to its next iteration at some time, the attempt of
  call \<open>k\<close> ends with a result. An action that does not fit the state of its call does nothing.
\<close>

datatype pool_act = ABegin | AAsk nat time | AEnd nat time "gerror + bytes"

definition set_breaker :: "nat \<Rightarrow> Breaker \<Rightarrow> Pool \<Rightarrow> Pool" where
  "set_breaker j br p = p\<lparr>pl_eps := (pl_eps p)[j := (pl_eps p ! j)\<lparr>ep_br := br\<rparr>]\<rparr>"

definition call_begin :: "CPool \<Rightarrow> CPool" where
  "call_begin c = (let p = cp_pool c in
     \<lparr>cp_pool = p\<lparr>pl_next := pl_next p + 1\<rparr>,
      cp_calls = cp_calls c @ [Loop (go_rem (sint (pl_next p)) (max (int (length (pl_eps p))) 1)) 0]\<rparr>)"

definition call_ask :: "nat \<Rightarrow> time \<Rightarrow> int \<Rightarrow> nat \<Rightarrow> CPool \<Rightarrow> CPool" where
  "call_ask k t s i c = (let eps = pl_eps (cp_pool c); j = go_rem (s + int i) (int (length eps)) in
     if i \<ge> length eps then c\<lparr>cp_calls := (cp_calls c)[k := Finished (Returns (Inl ErrNoUpstream))]\<rparr>
     else if j < 0 then c\<lparr>cp_calls := (cp_calls c)[k := Finished Panics]\<rparr>
     else (case Breaker_Allow t (ep_br (eps ! nat j)) of (ok, br) \<Rightarrow>
       \<lparr>cp_pool = set_breaker (nat j) br (cp_pool c),
        cp_calls = (cp_calls c)[k := (if ok then Trying s i (nat j) else Loop s (Suc i))]\<rparr>))"

definition call_end :: "nat \<Rightarrow> time \<Rightarrow> gerror + bytes \<Rightarrow> int \<Rightarrow> nat \<Rightarrow> nat \<Rightarrow> CPool \<Rightarrow> CPool" where
  "call_end k t r s i j c = (let br = ep_br (pl_eps (cp_pool c) ! j) in
     case r of
       Inl err \<Rightarrow> \<lparr>cp_pool = set_breaker j (Breaker_Failure t br) (cp_pool c), cp_calls = (cp_calls c)[k := Loop s (Suc i)]\<rparr>
     | Inr out \<Rightarrow> \<lparr>cp_pool = set_breaker j (Breaker_Success br) (cp_pool c), cp_calls = (cp_calls c)[k := Finished (Returns (Inr out))]\<rparr>)"

fun pool_exec :: "pool_act \<Rightarrow> CPool \<Rightarrow> CPool" where
  "pool_exec ABegin c = call_begin c"
| "pool_exec (AAsk k t) c = (if k < length (cp_calls c)
     then (case cp_calls c ! k of Loop s i \<Rightarrow> call_ask k t s i c | _ \<Rightarrow> c) else c)"
| "pool_exec (AEnd k t r) c = (if k < length (cp_calls c)
     then (case cp_calls c ! k of Trying s i j \<Rightarrow> call_end k t r s i j c | _ \<Rightarrow> c) else c)"

definition pool_run :: "pool_act list \<Rightarrow> CPool \<Rightarrow> CPool" where
  "pool_run acts c = fold pool_exec acts c"

lemma pool_run_simps [simp]: "pool_run [] c = c" "pool_run (a # acts) c = pool_run acts (pool_exec a c)"
  by (simp_all add: pool_run_def)

lemma pool_run_append: "pool_run (xs @ ys) c = pool_run ys (pool_run xs c)"
  by (simp add: pool_run_def)

definition CPool_New :: "string list \<Rightarrow> int \<Rightarrow> duration \<Rightarrow> CPool" where
  "CPool_New urls th cd = \<lparr>cp_pool = NewPool urls th cd, cp_calls = []\<rparr>"

section \<open>A call on its own\<close>

lemma go_rem_index: "n > 0 \<Longrightarrow> nat (go_rem a (int n)) < n"
proof (cases "0 \<le> a")
  case True
  then show "n > 0 \<Longrightarrow> ?thesis" by (simp add: nat_less_iff)
qed (simp add: go_rem_def)

text \<open>A pool whose newest call is in state \<open>st\<close>, and what the two kinds of steps of that call do.\<close>

definition newest :: "Endpoint list \<Rightarrow> u64 \<Rightarrow> call_state list \<Rightarrow> call_state \<Rightarrow> CPool" where
  "newest eps n cs st = \<lparr>cp_pool = \<lparr>pl_eps = eps, pl_next = n\<rparr>, cp_calls = cs @ [st]\<rparr>"

lemma exec_ask:
  assumes "i < length eps" and "0 \<le> go_rem (s + int i) (int (length eps))"
    and "j = nat (go_rem (s + int i) (int (length eps)))" and "Breaker_Allow t (ep_br (eps ! j)) = (ok, br)"
  shows "pool_exec (AAsk (length cs) t) (newest eps n cs (Loop s i)) =
    newest (eps[j := (eps ! j)\<lparr>ep_br := br\<rparr>]) n cs (if ok then Trying s i j else Loop s (Suc i))"
  using assms by (simp add: newest_def call_ask_def set_breaker_def Let_def)

lemma exec_end:
  assumes "j < length eps"
  shows "pool_exec (AEnd (length cs) t r) (newest (eps[j := (eps ! j)\<lparr>ep_br := br\<rparr>]) n cs (Trying s i j)) =
    (case r of
       Inl err \<Rightarrow> newest (eps[j := (eps ! j)\<lparr>ep_br := Breaker_Failure t br\<rparr>]) n cs (Loop s (Suc i))
     | Inr out \<Rightarrow> newest (eps[j := (eps ! j)\<lparr>ep_br := Breaker_Success br\<rparr>]) n cs (Finished (Returns (Inr out))))"
  using assms by (simp add: newest_def call_end_def set_breaker_def Let_def split: sum.split)

text \<open>The loop of \<open>Upstream\<close> is the schedule in which nobody else moves.\<close>

lemma loop_is_run:
  assumes "pool_loop hc body s i k eps e = (r, eps', e')" and "i + k = length eps"
  shows "\<exists>acts. pool_run acts (newest eps n cs (Loop s i)) = newest eps' n cs (Finished r)"
  using assms
proof (induction k arbitrary: i eps e)
  case 0
  then show ?case
    by (intro exI [of _ "[AAsk (length cs) 0]"]) (simp add: newest_def call_ask_def Let_def)
next
  case (Suc k)
  let ?m = "go_rem (s + int i) (int (length eps))"
  let ?j = "nat ?m" and ?ask = "AAsk (length cs) (hc_now hc e)"
  let ?ep = "\<lambda>br. eps[?j := (eps ! ?j)\<lparr>ep_br := br\<rparr>]"
  obtain ok br where a: "Breaker_Allow (hc_now hc e) (ep_br (eps ! ?j)) = (ok, br)" by fastforce
  obtain res e1 where t: "Pool_try hc (eps ! ?j) body e = (res, e1)" by fastforce
  let ?fin = "AEnd (length cs) (hc_now hc e1) res"
  have i: "i < length eps" using Suc.prems(2) by simp
  then have j: "?j < length eps" by (intro go_rem_index) auto
  show ?case
  proof (cases "?m < 0")
    case True
    then show ?thesis using Suc.prems(1) i by (intro exI [of _ "[?ask]"]) (auto simp: newest_def call_ask_def Let_def)
  next
    case False
    then have ask: "pool_exec ?ask (newest eps n cs (Loop s i)) = newest (?ep br) n cs (if ok then Trying s i ?j else Loop s (Suc i))"
      by (intro exec_ask [OF i _ refl a]) simp
    note loop = Suc.prems(1) False a t and step = Suc.IH [of "Suc i"]
    show ?thesis
    proof (cases ok)
      case no: False
      with loop step [of "?ep br" e] Suc.prems(2) obtain acts where
        "pool_run acts (newest (?ep br) n cs (Loop s (Suc i))) = newest eps' n cs (Finished r)" by (auto simp: Let_def)
      then show ?thesis by (intro exI [of _ "?ask # acts"]) (simp add: ask no del: pool_exec.simps)
    next
      case ok: True
      show ?thesis
      proof (cases res)
        case (Inl err)
        with ok loop step [of "?ep (Breaker_Failure (hc_now hc e1) br)" e1] Suc.prems(2) obtain acts where
          "pool_run acts (newest (?ep (Breaker_Failure (hc_now hc e1) br)) n cs (Loop s (Suc i))) = newest eps' n cs (Finished r)" by (auto simp: Let_def)
        then show ?thesis by (intro exI [of _ "?ask # ?fin # acts"]) (simp add: ask ok exec_end [OF j] Inl del: pool_exec.simps)
      next
        case (Inr out)
        with ok loop show ?thesis
          by (intro exI [of _ "[?ask, ?fin]"]) (auto simp: ask exec_end [OF j] Let_def simp del: pool_exec.simps)
      qed
    qed
  qed
qed

text \<open>The sequential model of a call is one schedule of the concurrent one. Whatever a call of
  \<^verbatim>\<open>Pool.Call\<close> does to the breakers and the counter, and whatever it returns, is what its own steps do
  when no other call moves in between.\<close>

theorem Pool_Call_is_schedule:
  assumes "Pool_Call hc body p e = (r, p', e')"
  shows "\<exists>acts. pool_run (ABegin # acts) \<lparr>cp_pool = p, cp_calls = cs\<rparr> =
    \<lparr>cp_pool = p', cp_calls = cs @ [Finished r]\<rparr>"
proof -
  let ?s = "go_rem (sint (pl_next p)) (max (int (length (pl_eps p))) 1)"
  obtain eps' where l: "pool_loop hc body ?s 0 (length (pl_eps p)) (pl_eps p) e = (r, eps', e')"
    and p': "p' = \<lparr>pl_eps = eps', pl_next = pl_next p + 1\<rparr>"
    using assms by (auto simp: Pool_Call_def Let_def split: prod.splits)
  from loop_is_run [OF l, of "pl_next p + 1" cs] p' show ?thesis
    by (cases p) (simp add: call_begin_def newest_def Let_def)
qed

theorem Pool_Call_is_schedule_witness:
  "\<exists>acts r p'. pool_run (ABegin # acts) (CPool_New [''a'', ''b''] 1 10) = \<lparr>cp_pool = p', cp_calls = [Finished r]\<rparr>"
proof -
  obtain r p' e' where c: "Pool_Call demo_client [] (NewPool [''a'', ''b''] 1 10) 0 = (r, p', e')"
    using prod_cases3 by blast
  from Pool_Call_is_schedule [OF c, of "[]"] show ?thesis by (auto simp: CPool_New_def)
qed

section \<open>The invariant of a pool\<close>

text \<open>A pool keeps its endpoints, and their breakers are well-formed. Every step of every call keeps that, so a call does.\<close>

definition pool_inv :: "string list \<Rightarrow> Pool \<Rightarrow> bool" where
  "pool_inv urls p \<longleftrightarrow> map ep_url (pl_eps p) = urls \<and> (\<forall>ep \<in> set (pl_eps p). breaker_inv (ep_br ep))"

lemma pool_inv_New: "th \<le> maxInt64 \<Longrightarrow> pool_inv urls (NewPool urls th cd)"
  using breaker_inv_New [of th cd] by (auto simp: pool_inv_def NewPool_def comp_def)

lemma pool_inv_breaker: "pool_inv urls p \<Longrightarrow> j < length (pl_eps p) \<Longrightarrow> breaker_inv (ep_br (pl_eps p ! j))"
  by (simp add: pool_inv_def)

lemma pool_inv_set:
  assumes "pool_inv urls p" and "j < length (pl_eps p) \<Longrightarrow> breaker_inv br"
  shows "pool_inv urls (set_breaker j br p)"
proof (cases "j < length (pl_eps p)")
  case True
  with assms show ?thesis
    by (auto simp: pool_inv_def set_breaker_def map_update list_update_same_conv dest!: set_update_subset_insert [THEN subsetD])
qed (use assms in \<open>simp add: set_breaker_def list_update_beyond\<close>)

lemma pool_inv_exec:
  assumes "pool_inv urls (cp_pool c)"
  shows "pool_inv urls (cp_pool (pool_exec a c))"
proof (cases a)
  case ABegin
  with assms show ?thesis by (simp add: call_begin_def Let_def pool_inv_def)
next
  case (AAsk k t)
  have "pool_inv urls (cp_pool (call_ask k t s i c))" for s i
    using assms by (auto simp: call_ask_def Let_def split: prod.split intro!: pool_inv_set breaker_inv_Allow [OF pool_inv_breaker])
  with AAsk assms show ?thesis by (auto split: call_state.split)
next
  case (AEnd k t r)
  have "pool_inv urls (cp_pool (call_end k t r s i j c))" for s i j
    using assms
    by (auto simp: call_end_def Let_def split: sum.split intro!: pool_inv_set breaker_inv_Success breaker_inv_Failure pool_inv_breaker)
  with AEnd assms show ?thesis by (auto split: call_state.split)
qed

lemma pool_inv_run: "pool_inv urls (cp_pool c) \<Longrightarrow> pool_inv urls (cp_pool (pool_run acts c))"
  by (induction acts arbitrary: c) (simp_all add: pool_inv_exec)

lemma Pool_Call_inv:
  assumes "pool_inv urls p" and "Pool_Call hc body p e = (r, p', e')"
  shows "pool_inv urls p'"
proof -
  from Pool_Call_is_schedule [OF assms(2), of "[]"] obtain acts where
    "pool_run (ABegin # acts) \<lparr>cp_pool = p, cp_calls = []\<rparr> = \<lparr>cp_pool = p', cp_calls = [Finished r]\<rparr>" by auto
  with pool_inv_run [of urls "\<lparr>cp_pool = p, cp_calls = []\<rparr>" "ABegin # acts"] assms(1) show ?thesis by simp
qed

section \<open>What one breaker sees\<close>

text \<open>The method calls that the breaker of endpoint \<open>j\<close> receives while a schedule runs.\<close>

definition breaker_at :: "nat \<Rightarrow> CPool \<Rightarrow> Breaker" where
  "breaker_at j c = ep_br (pl_eps (cp_pool c) ! j)"

fun act_calls :: "nat \<Rightarrow> pool_act \<Rightarrow> CPool \<Rightarrow> breaker_call list" where
  "act_calls j ABegin c = []"
| "act_calls j (AAsk k t) c = (if k < length (cp_calls c)
     then (case cp_calls c ! k of
         Loop s i \<Rightarrow> if i < length (pl_eps (cp_pool c)) \<and> go_rem (s + int i) (int (length (pl_eps (cp_pool c)))) = int j
           then [CAllow t] else []
       | _ \<Rightarrow> []) else [])"
| "act_calls j (AEnd k t r) c = (if k < length (cp_calls c)
     then (case cp_calls c ! k of
         Trying s i j' \<Rightarrow> if j' = j then [case r of Inl err \<Rightarrow> CFailure t | Inr out \<Rightarrow> CSuccess] else []
       | _ \<Rightarrow> []) else [])"

fun run_calls :: "nat \<Rightarrow> pool_act list \<Rightarrow> CPool \<Rightarrow> breaker_call list" where
  "run_calls j [] c = []"
| "run_calls j (a # acts) c = act_calls j a c @ run_calls j acts (pool_exec a c)"

fun tries :: "nat \<Rightarrow> call_state \<Rightarrow> bool" where
  "tries j (Trying s i j') = (j' = j)"
| "tries j cs = False"

definition attempts :: "nat \<Rightarrow> CPool \<Rightarrow> nat" where
  "attempts j c = length (filter (tries j) (cp_calls c))"

lemmas poolstep_defs = call_begin_def call_ask_def call_end_def set_breaker_def Let_def

lemma pool_exec_length [simp]: "length (pl_eps (cp_pool (pool_exec a c))) = length (pl_eps (cp_pool c))"
  by (cases a) (auto simp: poolstep_defs split: call_state.split prod.split sum.split)

lemma exec_projects:
  assumes "j < length (pl_eps (cp_pool c))"
  shows "breaker_at j (pool_exec a c) = snd (breaker_run (act_calls j a c) (breaker_at j c))"
proof (cases a)
  case ABegin
  then show ?thesis by (simp add: breaker_at_def poolstep_defs)
next
  case (AAsk k t)
  then show ?thesis using assms
    by (auto simp: breaker_at_def poolstep_defs nth_list_update split: call_state.split prod.split)
next
  case (AEnd k t r)
  then show ?thesis using assms
    by (auto simp: breaker_at_def poolstep_defs nth_list_update split: call_state.split sum.split)
qed

lemma run_projects:
  "j < length (pl_eps (cp_pool c)) \<Longrightarrow>
     breaker_at j (pool_run acts c) = snd (breaker_run (run_calls j acts c) (breaker_at j c))"
  by (induction acts arbitrary: c) (simp_all add: exec_projects breaker_run_append)

lemma filter_update_drop: "\<not> P y \<Longrightarrow> length (filter P (xs[k := y])) \<le> length (filter P xs)"
  by (induction xs arbitrary: k) (auto split: nat.split intro: le_SucI)

lemma filter_update_le: "length (filter P (xs[k := y])) \<le> Suc (length (filter P xs))"
  by (induction xs arbitrary: k) (auto split: nat.split intro: le_SucI)

text \<open>An attempt starts at \<open>j\<close> only when the breaker of \<open>j\<close> has admitted it.\<close>

lemma exec_attempts:
  assumes "j < length (pl_eps (cp_pool c))"
  shows "attempts j (pool_exec a c) \<le> attempts j c + fst (breaker_run (act_calls j a c) (breaker_at j c))"
proof (cases a)
  case ABegin
  then show ?thesis by (simp add: attempts_def poolstep_defs)
next
  case (AAsk k t)
  then show ?thesis
    using assms filter_update_drop [of "tries j" _ "cp_calls c" k] filter_update_le [of "tries j" "cp_calls c" k]
    by (auto simp: attempts_def breaker_at_def poolstep_defs split: call_state.split prod.split)
next
  case (AEnd k t r)
  then show ?thesis
    using assms filter_update_drop [of "tries j" _ "cp_calls c" k] filter_update_le [of "tries j" "cp_calls c" k]
    by (auto simp: attempts_def poolstep_defs split: call_state.split sum.split)
qed

lemma run_attempts:
  "j < length (pl_eps (cp_pool c)) \<Longrightarrow>
     attempts j (pool_run acts c) \<le> attempts j c + fst (breaker_run (run_calls j acts c) (breaker_at j c))"
proof (induction acts arbitrary: c)
  case (Cons a acts)
  from Cons.IH [of "pool_exec a c"] exec_attempts [OF Cons.prems, of a] Cons.prems show ?case
    by (simp add: breaker_run_append exec_projects)
qed simp


lemma pool_run_length [simp]: "length (pl_eps (cp_pool (pool_run acts c))) = length (pl_eps (cp_pool c))"
  by (induction acts arbitrary: c) simp_all

lemma reachable_breaker_inv:
  assumes "th \<le> maxInt64" and "j < length urls"
  shows "breaker_inv (breaker_at j (pool_run acts (CPool_New urls th cd)))"
proof -
  have "pool_inv urls (cp_pool (pool_run acts (CPool_New urls th cd)))"
    by (rule pool_inv_run) (simp add: CPool_New_def pool_inv_New [OF assms(1)])
  with pool_inv_breaker assms(2) show ?thesis by (simp add: breaker_at_def CPool_New_def NewPool_def)
qed

lemma allows_are_map: "\<forall>x \<in> set cs. is_allow x \<Longrightarrow> \<exists>ts. cs = map CAllow ts"
proof (induction cs)
  case (Cons x cs)
  then obtain ts where "cs = map CAllow ts" by auto
  moreover obtain t where "x = CAllow t" using Cons.prems by (cases x) auto
  ultimately have "x # cs = map CAllow (t # ts)" by simp
  then show ?case by (rule exI)
qed simp

section \<open>Round robin\<close>

text \<open>
  The state of call \<open>k\<close>, counted in the order in which the calls drew their number from the counter,
  in a pool of \<open>n\<close> endpoints.
\<close>

fun call_ok :: "nat \<Rightarrow> nat \<Rightarrow> call_state \<Rightarrow> bool" where
  "call_ok n k (Loop s i) = (s = int (k mod max n 1) \<and> i \<le> n)"
| "call_ok n k (Trying s i j) = (s = int (k mod max n 1) \<and> i < n \<and> j = (k + i) mod n)"
| "call_ok n k (Finished r) = (r \<noteq> Panics)"

definition fair_pool :: "nat \<Rightarrow> CPool \<Rightarrow> bool" where
  "fair_pool n c \<longleftrightarrow> length (pl_eps (cp_pool c)) = n \<and> pl_next (cp_pool c) = of_nat (length (cp_calls c)) \<and>
     (\<forall>k < length (cp_calls c). call_ok n k (cp_calls c ! k))"

fun begins :: "pool_act list \<Rightarrow> nat" where
  "begins [] = 0"
| "begins (a # acts) = (case a of ABegin \<Rightarrow> 1 | _ \<Rightarrow> 0) + begins acts"

lemma fair_update:
  assumes "fair_pool n c" and "k < length (cp_calls c)" and "call_ok n k st" and "length (pl_eps p) = n"
    and "pl_next p = pl_next (cp_pool c)"
  shows "fair_pool n \<lparr>cp_pool = p, cp_calls = (cp_calls c)[k := st]\<rparr>"
  using assms by (auto simp: fair_pool_def nth_list_update)

lemma next_index:
  assumes "s = int (k mod max n 1)" and "i < n"
  shows "go_rem (s + int i) (int n) = int ((k + i) mod n)"
proof -
  have "go_rem (int (k mod n + i)) (int n) = int ((k mod n + i) mod n)" using assms(2) by (intro go_rem_of_nat) simp
  moreover have "max n 1 = n" using assms(2) by simp
  ultimately show ?thesis using assms(1) by (simp add: mod_add_left_eq)
qed

lemma fair_begin:
  assumes "fair_pool n c" and "length (cp_calls c) < 2 ^ 63"
  shows "fair_pool n (call_begin c)"
proof -
  have u: "unat (pl_next (cp_pool c)) = length (cp_calls c)"
    using assms by (simp add: fair_pool_def unat_of_nat take_bit_nat_eq_self)
  with pool_start_int [of "cp_pool c"] assms
  have "go_rem (sint (pl_next (cp_pool c))) (max (int n) 1) = int (length (cp_calls c) mod max n 1)"
    by (simp add: pool_start_def fair_pool_def)
  with assms(1) show ?thesis by (auto simp: fair_pool_def call_begin_def Let_def nth_append less_Suc_eq)
qed

lemma fair_ask:
  assumes "fair_pool n c" and "k < length (cp_calls c)" and "cp_calls c ! k = Loop s i"
  shows "fair_pool n (call_ask k t s i c)"
proof -
  from assms have n: "length (pl_eps (cp_pool c)) = n" and ok: "call_ok n k (Loop s i)" by (auto simp: fair_pool_def)
  show ?thesis
  proof (cases "i < n")
    case False
    then show ?thesis
      using fair_update [OF assms(1,2), of "Finished (Returns (Inl ErrNoUpstream))" "cp_pool c"] n
      by (cases c) (simp add: call_ask_def Let_def)
  next
    case True
    with ok next_index [of s k n i] have "go_rem (s + int i) (int n) = int ((k + i) mod n)" by simp
    with True n ok assms(1) show ?thesis
      by (auto simp: call_ask_def set_breaker_def Let_def split: prod.split intro!: fair_update assms(2))
  qed
qed

lemma fair_end:
  assumes "fair_pool n c" and "k < length (cp_calls c)" and "cp_calls c ! k = Trying s i j"
  shows "fair_pool n (call_end k t r s i j c)"
proof -
  from assms have n: "length (pl_eps (cp_pool c)) = n" and ok: "call_ok n k (Trying s i j)" by (auto simp: fair_pool_def)
  then show ?thesis using assms(1)
    by (auto simp: call_end_def set_breaker_def Let_def split: sum.split intro!: fair_update assms(2))
qed

lemma fair_exec:
  assumes "fair_pool n c" and "length (cp_calls c) < 2 ^ 63"
  shows "fair_pool n (pool_exec a c)"
  using assms fair_begin fair_ask fair_end by (cases a) (auto split: call_state.split)

lemma exec_calls_length: "length (cp_calls (pool_exec a c)) = length (cp_calls c) + begins [a]"
  by (cases a) (auto simp: poolstep_defs split: call_state.split prod.split sum.split)

lemma fair_run:
  assumes "fair_pool n c" and "length (cp_calls c) + begins acts < 2 ^ 63"
  shows "fair_pool n (pool_run acts c)"
  using assms
proof (induction acts arbitrary: c)
  case (Cons a acts)
  then show ?case using fair_exec [of n c a] exec_calls_length [of a c] by simp
qed simp

lemma fair_New: "fair_pool (length urls) (CPool_New urls th cd)"
  by (simp add: fair_pool_def CPool_New_def NewPool_def)

section \<open>Progress\<close>

text \<open>How far a call is from its end, and what a turn of call \<open>k\<close> is: a part of the schedule in which
  the call may ask and, if an attempt of it is under way, the attempt ends.\<close>

fun call_rank :: "nat \<Rightarrow> call_state \<Rightarrow> nat" where
  "call_rank n (Loop s i) = 2 * (n - i) + 1"
| "call_rank n (Trying s i j) = 2 * max 1 (n - i)"
| "call_rank n (Finished r) = 0"

fun asks_of :: "nat \<Rightarrow> pool_act \<Rightarrow> bool" where
  "asks_of k (AAsk k' t) = (k' = k)"
| "asks_of k a = False"

fun ends_of :: "nat \<Rightarrow> pool_act \<Rightarrow> bool" where
  "ends_of k (AEnd k' t r) = (k' = k)"
| "ends_of k a = False"

definition gives_turn :: "nat \<Rightarrow> pool_act list \<Rightarrow> bool" where
  "gives_turn k b \<longleftrightarrow> (\<exists>a \<in> set b. asks_of k a) \<and> (\<exists>a \<in> set b. ends_of k a)"


definition rank_at :: "nat \<Rightarrow> CPool \<Rightarrow> nat" where
  "rank_at k c = call_rank (length (pl_eps (cp_pool c))) (cp_calls c ! k)"

text \<open>Only its own actions move a call, and they bring it nearer to its end.\<close>

lemma exec_moves:
  assumes "k < length (cp_calls c)"
  shows "cp_calls (pool_exec a c) ! k = cp_calls c ! k \<or> rank_at k (pool_exec a c) < rank_at k c"
proof (cases a)
  case ABegin
  then show ?thesis using assms by (simp add: call_begin_def Let_def nth_append)
next
  case (AAsk k' t)
  then show ?thesis using assms
    by (auto simp: rank_at_def call_ask_def set_breaker_def Let_def nth_list_update split: call_state.split prod.split)
next
  case (AEnd k' t r)
  then show ?thesis using assms
    by (auto simp: rank_at_def call_end_def set_breaker_def Let_def nth_list_update split: call_state.split sum.split)
qed

lemma exec_rank: "k < length (cp_calls c) \<Longrightarrow> rank_at k (pool_exec a c) \<le> rank_at k c"
  using exec_moves [of k c a] by (auto simp: rank_at_def)


lemma exec_awaited:
  assumes "k < length (cp_calls c)"
    and "(case cp_calls c ! k of Loop s i \<Rightarrow> asks_of k a | Trying s i j \<Rightarrow> ends_of k a | Finished r \<Rightarrow> False)"
  shows "rank_at k (pool_exec a c) < rank_at k c"
  using assms
  by (cases a) (auto simp: rank_at_def call_ask_def call_end_def set_breaker_def Let_def
    split: call_state.splits prod.split sum.split)

lemma exec_in_range: "k < length (cp_calls c) \<Longrightarrow> k < length (cp_calls (pool_exec a c))"
  by (simp add: exec_calls_length)

lemma run_in_range: "k < length (cp_calls c) \<Longrightarrow> k < length (cp_calls (pool_run acts c))"
  by (induction acts arbitrary: c) (simp_all add: exec_in_range)

lemma run_rank: "k < length (cp_calls c) \<Longrightarrow> rank_at k (pool_run acts c) \<le> rank_at k c"
proof (induction acts arbitrary: c)
  case (Cons a acts)
  from Cons.IH [of "pool_exec a c"] exec_rank [OF Cons.prems, of a] Cons.prems show ?case
    by (simp add: exec_in_range)
qed simp

text \<open>A turn brings a call that has not returned strictly nearer to its end.\<close>

lemma awaited_run:
  assumes "k < length (cp_calls c)"
    and "\<exists>a \<in> set b. (case cp_calls c ! k of Loop s i \<Rightarrow> asks_of k a | Trying s i j \<Rightarrow> ends_of k a | Finished r \<Rightarrow> False)"
  shows "rank_at k (pool_run b c) < rank_at k c"
  using assms
proof (induction b arbitrary: c)
  case (Cons a b)
  note k = exec_in_range [OF Cons.prems(1), of a]
  show ?case
  proof (cases "rank_at k (pool_exec a c) < rank_at k c")
    case True
    with run_rank [OF k, of b] show ?thesis by simp
  next
    case False
    with exec_moves [OF Cons.prems(1)] have same: "cp_calls (pool_exec a c) ! k = cp_calls c ! k" by blast
    then have "rank_at k (pool_exec a c) = rank_at k c" by (simp add: rank_at_def)
    with Cons.IH [OF k] Cons.prems False same exec_awaited [OF Cons.prems(1), of a] show ?thesis
      by (auto split: call_state.splits)
  qed
qed simp

lemma turn_rank:
  assumes "k < length (cp_calls c)" and "gives_turn k b" and "0 < rank_at k c"
  shows "rank_at k (pool_run b c) < rank_at k c"
proof (rule awaited_run [OF assms(1)])
  show "\<exists>a \<in> set b. (case cp_calls c ! k of Loop s i \<Rightarrow> asks_of k a | Trying s i j \<Rightarrow> ends_of k a | Finished r \<Rightarrow> False)"
    using assms(2,3) by (cases "cp_calls c ! k") (simp_all add: gives_turn_def rank_at_def)
qed

lemma turns_rank:
  assumes "k < length (cp_calls c)" and "\<forall>b \<in> set bs. gives_turn k b"
  shows "rank_at k (pool_run (concat bs) c) \<le> rank_at k c - length bs"
  using assms
proof (induction bs arbitrary: c)
  case (Cons b bs)
  have "rank_at k (pool_run b c) \<le> rank_at k c - 1"
    using turn_rank [of k c b] run_rank [of k c b] Cons.prems by (cases "rank_at k c") auto
  with Cons.IH [of "pool_run b c"] Cons.prems show ?case by (simp add: pool_run_append run_in_range)
qed simp

lemma rank_zero: "rank_at k c = 0 \<Longrightarrow> \<exists>r. cp_calls c ! k = Finished r"
  by (cases "cp_calls c ! k") (simp_all add: rank_at_def)

lemma fair_rank: "fair_pool n c \<Longrightarrow> k < length (cp_calls c) \<Longrightarrow> rank_at k c \<le> 2 * n + 1"
  by (cases "cp_calls c ! k") (auto simp: rank_at_def fair_pool_def)

lemma begins_append [simp]: "begins (xs @ ys) = begins xs + begins ys"
  by (induction xs) auto

section \<open>Properties\<close>

text \<open>C14: one probe among concurrent calls. However the calls of a pool interleave, once the breaker
  of an endpoint has tripped at most one further attempt at that endpoint starts before an attempt
  at it ends.\<close>

theorem concurrent_single_probe:
  assumes "c = pool_run hist (CPool_New urls th cd)" and "th \<le> maxInt64" and "j < length urls"
    and "br_state (breaker_at j c) \<noteq> Closed" and "\<forall>m \<in> set (run_calls j acts c). is_allow m"
  shows "attempts j (pool_run acts c) \<le> attempts j c + 1"
proof -
  from allows_are_map [OF assms(5)] obtain ts where ts: "run_calls j acts c = map CAllow ts" by blast
  have "fst (breaker_run (run_calls j acts c) (breaker_at j c)) \<le> 1"
    using tripped_run_once [OF _ assms(4)] reachable_breaker_inv [OF assms(2,3)] assms(1) unfolding ts by blast
  moreover have "j < length (pl_eps (cp_pool c))" using assms(1,3) by (simp add: CPool_New_def NewPool_def)
  ultimately show ?thesis using run_attempts [of j c acts] by linarith
qed

definition demo_trip :: "pool_act list" where
  "demo_trip = [ABegin, AAsk 0 0, AEnd 0 1 (Inl ErrNoUpstream)]"

lemmas demo_steps = demo_trip_def CPool_New_def NewPool_def poolstep_defs breaker_defs wrap64_def time_Sub_def

theorem concurrent_single_probe_witness:
  "attempts 0 (pool_run [ABegin, ABegin, AAsk 1 20, AAsk 2 21] (pool_run demo_trip (CPool_New [''a''] 1 10))) \<le>
   attempts 0 (pool_run demo_trip (CPool_New [''a''] 1 10)) + 1"
  by (rule concurrent_single_probe [OF refl, where th = 1])
     (simp_all add: demo_steps breaker_at_def maxInt64_def minInt64_def)

text \<open>C15: round robin among concurrent calls. While fewer than \<^verbatim>\<open>1<<63\<close> calls have begun, the call that
  drew number \<open>k\<close> is, in its iteration \<open>i\<close>, at endpoint \<open>(k + i) mod n\<close>, in every interleaving: it visits
  every endpoint at most once, starting at \<open>k mod n\<close>; and no call panics.\<close>

theorem concurrent_round_robin:
  assumes "begins acts < 2 ^ 63" and "c = pool_run acts (CPool_New urls th cd)" and "k < length (cp_calls c)"
  shows "cp_calls c ! k \<noteq> Finished Panics \<and>
    (\<forall>s i j. cp_calls c ! k = Trying s i j \<longrightarrow> i < length urls \<and> j = (k + i) mod length urls)"
proof -
  have "fair_pool (length urls) c"
    using fair_run [OF fair_New, of urls th cd acts] assms(1,2) by (simp add: CPool_New_def)
  with assms(3) have "call_ok (length urls) k (cp_calls c ! k)" by (simp add: fair_pool_def)
  then show ?thesis by auto
qed

theorem concurrent_round_robin_witness:
  "cp_calls (pool_run [ABegin, ABegin, AAsk 1 0] (CPool_New [''a'', ''b''] 1 10)) ! 1 = Trying 1 0 1 \<and>
   cp_calls (pool_run [ABegin, ABegin, AAsk 1 0] (CPool_New [''a'', ''b''] 1 10)) ! 1 \<noteq> Finished Panics"
proof -
  let ?c = "pool_run [ABegin, ABegin, AAsk 1 0] (CPool_New [''a'', ''b''] 1 10)"
  have "cp_calls ?c ! 1 = Trying 1 0 1" and "1 < length (cp_calls ?c)" by (simp_all add: demo_steps)
  with concurrent_round_robin [OF _ refl, of "[ABegin, ABegin, AAsk 1 0]" 1 "[''a'', ''b'']" 1 10] show ?thesis by simp
qed

text \<open>C16: every call returns. In any schedule that gives a call \<open>2 * n + 1\<close> turns, the call has returned at
  its end, with an answer or an error and never by a panic, whatever the other calls do meanwhile.\<close>

theorem concurrent_calls_return:
  assumes "c = pool_run acts (CPool_New urls th cd)" and "k < length (cp_calls c)"
    and "begins acts + begins (concat bs) < 2 ^ 63"
    and "\<forall>b \<in> set bs. gives_turn k b" and "2 * length urls + 1 \<le> length bs"
  shows "\<exists>r. cp_calls (pool_run (concat bs) c) ! k = Finished (Returns r)"
proof -
  have f: "fair_pool (length urls) (pool_run hist (CPool_New urls th cd))" if "begins hist < 2 ^ 63" for hist
    using fair_run [OF fair_New, of urls th cd hist] that by (simp add: CPool_New_def)
  have "rank_at k (pool_run (concat bs) c) = 0"
    using turns_rank [OF assms(2,4)] fair_rank [OF _ assms(2)] f [of acts] assms(1,3,5) by fastforce
  then obtain r where r: "cp_calls (pool_run (concat bs) c) ! k = Finished r" using rank_zero by blast
  have "fair_pool (length urls) (pool_run (concat bs) c)"
    using f [of "acts @ concat bs"] assms(1,3) by (simp add: pool_run_append)
  with r run_in_range [OF assms(2)] have "r \<noteq> Panics" by (auto simp: fair_pool_def dest: spec [of _ k])
  with r show ?thesis by (cases r) auto
qed

theorem concurrent_calls_return_witness:
  "\<exists>r. cp_calls (pool_run (concat (replicate 3 [AAsk 0 5, AEnd 0 6 (Inr [])])) (pool_run [ABegin] (CPool_New [''a''] 1 10))) ! 0 =
     Finished (Returns r)"
  by (rule concurrent_calls_return [OF refl]) (auto simp: gives_turn_def call_begin_def CPool_New_def Let_def numeral_3_eq_3)

end
