(* ===== verification/Syncsteps.thy ===== *)
theory Syncsteps
  imports Indexer
begin

text \<open>
  \<^verbatim>\<open>Sync\<close> of \<^verbatim>\<open>internal/indexer/indexer.go\<close> taken apart. A poll does not hold the index's lock while it runs: it copies
  the stored window, asks the node block by block, publishes every event at once, and stores the new
  window only at the end, in a deferred call. So the log is ahead of the index during a poll, and requests
  and streams can see that. Here one step is one access to what a poll shares with the rest of the program: a call of
  the node, the copy of the window, an append to the log, the store. \<open>poll\<close> is where the poll stands, with
  its local variables. \<^verbatim>\<open>syncMu\<close> keeps two polls from overlapping, so one poll is enough.

  An uninterrupted sequence of steps is \<open>Indexer_Sync\<close> (\<open>Sync_is_schedule\<close>). Whatever happens between the steps,
  the events published so far take a strict consumer to the poll's own window, and the index is
  what a prefix of them gives (\<open>sync_inv\<close>).
\<close>

section \<open>The steps of a poll\<close>

text \<open>
  \<open>Idle r\<close>: no poll runs, the last one returned \<open>r\<close>. \<open>Copying\<close>: the head is read. \<open>Unwinding\<close> and \<open>Forwarding\<close>: at the
  head of the first and of the second loop. \<open>Reorging\<close> and \<open>Adding\<close>: before the \<^verbatim>\<open>emit\<close> of the two loops, with the
  window as it was before the block was dropped or appended. \<open>Storing\<close>: before the deferred \<^verbatim>\<open>store\<close>.
\<close>

datatype poll =
    Idle "gerror option"
  | Copying u64
  | Unwinding u64 "Block list"
  | Reorging u64 "Block list"
  | Forwarding u64 u64 "Block list"
  | Adding u64 u64 "Block list" Block
  | Storing "gerror option" "Block list"

fun poll_running :: "poll \<Rightarrow> bool" where
  "poll_running (Idle r) = False"
| "poll_running _ = True"

fun Sync_step ::
  "(Block \<Rightarrow> bytes) \<Rightarrow> 'e Source \<Rightarrow> poll \<Rightarrow> Indexer \<Rightarrow> Log \<Rightarrow> 'e \<Rightarrow> poll \<times> Indexer \<times> Log \<times> 'e" where
  "Sync_step marshal src (Idle r) ix l e = (case src_Head src e of
     (Inl err, e') \<Rightarrow> (Idle (Some err), ix, l, e')
   | (Inr head, e') \<Rightarrow> (Copying head, ix, l, e'))"
| "Sync_step marshal src (Copying head) ix l e = (Unwinding head (ix_chain ix), ix, l, e)"
| "Sync_step marshal src (Unwinding head chain) ix l e =
     (if chain = [] then (Forwarding head (sync_next (ix_window ix) head chain) chain, ix, l, e)
      else let tip = last chain in
        (case src_Block src (bl_Number tip) e of
           (Inr b, e') \<Rightarrow>
             if bl_Hash b = bl_Hash tip then (Forwarding head (sync_next (ix_window ix) head chain) chain, ix, l, e')
             else (Reorging head chain, ix, l, e')
         | (Inl err, e') \<Rightarrow>
             if err \<noteq> ErrNotFound then (Storing (Some err) chain, ix, l, e')
             else (Reorging head chain, ix, l, e')))"
| "Sync_step marshal src (Reorging head chain) ix l e =
     (Unwinding head (butlast chain), ix, Indexer_emit marshal ''block.reorged'' (last chain) l, e)"
| "Sync_step marshal src (Forwarding head n chain) ix l e =
     (if n \<le> head then
        (case src_Block src n e of
           (Inl err, e') \<Rightarrow> (Storing (Some err) chain, ix, l, e')
         | (Inr b, e') \<Rightarrow>
             if chain \<noteq> [] \<and> bl_ParentHash b \<noteq> bl_Hash (last chain)
             then (Storing (Some ErrParentMismatch) chain, ix, l, e')
             else (Adding head n chain b, ix, l, e'))
      else (Storing None chain, ix, l, e))"
| "Sync_step marshal src (Adding head n chain b) ix l e =
     (Forwarding head (n + 1) (if length (chain @ [b]) > ix_window ix then tl (chain @ [b]) else chain @ [b]), ix,
      Indexer_emit marshal ''block.new'' b l, e)"
| "Sync_step marshal src (Storing err chain) ix l e = (Idle err, Indexer_store chain ix, l, e)"

section \<open>A poll without interruptions\<close>

text \<open>Step until the poll is idle again, with fuel.\<close>

fun Sync_finish ::
  "nat \<Rightarrow> (Block \<Rightarrow> bytes) \<Rightarrow> 'e Source \<Rightarrow> poll \<times> Indexer \<times> Log \<times> 'e \<Rightarrow> (gerror option \<times> Indexer \<times> Log \<times> 'e) option" where
  "Sync_finish 0 m src s = None"
| "Sync_finish (Suc k) m src (p, ix, l, e) = (case Sync_step m src p ix l e of
     (Idle err, ix', l', e') \<Rightarrow> Some (err, ix', l', e')
   | s' \<Rightarrow> Sync_finish k m src s')"

lemma finish_step:
  assumes "Sync_step m src p ix l e = s'" and "poll_running (fst s')" and "\<exists>k. Sync_finish k m src s' = Some r"
  shows "\<exists>k. Sync_finish k m src (p, ix, l, e) = Some r"
proof -
  from assms(3) obtain k where k: "Sync_finish k m src s' = Some r" ..
  obtain p' ix' l' e' where s': "s' = (p', ix', l', e')" by (metis prod_cases4)
  have "Sync_finish (Suc k) m src (p, ix, l, e) = Some r"
    using assms(1,2) k s' by (cases p') simp_all
  then show ?thesis ..
qed

lemma finish_Storing: "\<exists>k. Sync_finish k m src (Storing err chain, ix, l, e) = Some (err, ix\<lparr>ix_chain := chain\<rparr>, l, e)"
  by (rule exI [of _ 1]) simp

lemma finish_forward:
  assumes "sync_forward m src w head n chain l e = Some r" and "w = ix_window ix"
  shows "\<exists>k. Sync_finish k m src (Forwarding head n chain, ix, l, e) = Some (fst r, ix\<lparr>ix_chain := fst (snd r)\<rparr>, snd (snd r))"
  using assms(1)
proof (induction rule: sync_forward_rule)
  case (step n chain l e b e' r)
  let ?c = "push_window w chain b" and ?l = "Indexer_emit m ''block.new'' b l"
  have add: "Sync_step m src (Adding head n chain b) ix l e' = (Forwarding head (n + 1) ?c, ix, ?l, e')"
    by (simp add: push_window_def assms(2))
  have "Sync_step m src (Forwarding head n chain) ix l e = (Adding head n chain b, ix, l, e')" using step.hyps by auto
  from finish_step [OF this _ finish_step [OF add _ step.IH]] show ?case by simp
qed (rule finish_step [OF refl], simp, simp add: finish_Storing)+

lemma finish_unwind:
  assumes "sync_unwind m src chain l e = (err, c, l1, e1)"
    and "err = None \<Longrightarrow> \<exists>k. Sync_finish k m src (Forwarding head (sync_next (ix_window ix) head c) c, ix, l1, e1) = Some r"
    and "\<And>x. err = Some x \<Longrightarrow> r = (Some x, ix\<lparr>ix_chain := c\<rparr>, l1, e1)"
  shows "\<exists>k. Sync_finish k m src (Unwinding head chain, ix, l, e) = Some r"
  using assms(1)
proof (induction chain arbitrary: l e rule: rev_induct)
  case Nil
  with assms(2) show ?case by (intro finish_step [OF refl]) auto
next
  case (snoc tip xs)
  let ?l = "Indexer_emit m ''block.reorged'' tip l"
  obtain res e' where b: "src_Block src (bl_Number tip) e = (res, e')" by fastforce
  have reorg: "\<exists>k. Sync_finish k m src (Unwinding head (xs @ [tip]), ix, l, e) = Some r"
    if "sync_unwind m src xs ?l e' = (err, c, l1, e1)" and "Sync_step m src (Unwinding head (xs @ [tip])) ix l e = (Reorging head (xs @ [tip]), ix, l, e')"
    using finish_step [OF that(2) _ finish_step [of m src "Reorging head (xs @ [tip])", OF refl _]] snoc.IH [OF that(1)] by simp
  show ?case
  proof (cases res)
    case (Inl x)
    show ?thesis
    proof (cases "x = ErrNotFound")
      case True
      with snoc.prems b Inl reorg show ?thesis by (simp add: sync_unwind_snoc)
    next
      case False
      with snoc.prems b Inl have "err = Some x" "c = xs @ [tip]" "l1 = l" "e1 = e'" by (auto simp: sync_unwind_snoc)
      with assms(3) b Inl False finish_Storing [of m src "Some x" c ix l e'] show ?thesis by (intro finish_step [OF refl]) auto
    qed
  next
    case (Inr blk)
    show ?thesis
    proof (cases "bl_Hash blk = bl_Hash tip")
      case False
      with snoc.prems b Inr reorg show ?thesis by (simp add: sync_unwind_snoc)
    next
      case True
      with snoc.prems b Inr have "err = None" "c = xs @ [tip]" "l1 = l" "e1 = e'" by (auto simp: sync_unwind_snoc)
      with assms(2) b Inr True show ?thesis by (intro finish_step [OF refl]) auto
    qed
  qed
qed

text \<open>The steps are those of \<^verbatim>\<open>Sync\<close>: a poll that is not interrupted ends as \<open>Indexer_Sync\<close> does.\<close>

lemma Sync_is_schedule:
  assumes "Indexer_Sync m src ix l e = Some r"
  shows "\<exists>k. Sync_finish k m src (Idle r0, ix, l, e) = Some r"
proof -
  obtain err ix' l' e' where r: "r = (err, ix', l', e')" by (metis prod_cases4)
  have start: "\<exists>k. Sync_finish k m src (Idle r0, ix, l, e) = Some r"
    if "src_Head src e = (Inr head, e0)" and "\<exists>k. Sync_finish k m src (Unwinding head (ix_chain ix), ix, l, e0) = Some r" for head e0
    by (rule finish_step [OF refl], simp add: that(1), simp add: that(1), rule finish_step [OF refl]) (use that(2) in simp_all)
  from assms [unfolded r] show ?thesis
  proof (cases rule: Indexer_Sync_cases)
    case (head_error x)
    then have "Sync_finish 1 m src (Idle r0, ix, l, e) = Some r" by (simp add: r)
    then show ?thesis ..
  next
    case (unwind_error head e0 c x)
    then show ?thesis by (intro start [OF unwind_error(1)] finish_unwind [OF unwind_error(2)]) (simp_all add: r)
  next
    case (forward head e0 c l1 e1 chain')
    have "\<exists>k. Sync_finish k m src (Forwarding head (sync_next (ix_window ix) head c) c, ix, l1, e1) = Some r"
      using finish_forward [OF forward(3) refl] forward(4) by (simp add: r)
    then show ?thesis by (intro start [OF forward(1)] finish_unwind [OF forward(2)]) simp_all
  qed
qed

section \<open>What holds during a poll\<close>

text \<open>The window a poll works on; between polls it is the index.\<close>

fun poll_view :: "poll \<Rightarrow> Indexer \<Rightarrow> Block list" where
  "poll_view (Unwinding head chain) ix = chain"
| "poll_view (Reorging head chain) ix = chain"
| "poll_view (Forwarding head n chain) ix = chain"
| "poll_view (Adding head n chain b) ix = chain"
| "poll_view (Storing err chain) ix = chain"
| "poll_view _ ix = ix_chain ix"

text \<open>What a poll has checked at each point: \<open>S\<close> holds of the blocks it got.\<close>

fun poll_ok :: "(Block \<Rightarrow> bool) \<Rightarrow> poll \<Rightarrow> bool" where
  "poll_ok S (Reorging head chain) \<longleftrightarrow> chain \<noteq> []"
| "poll_ok S (Adding head n chain b) \<longleftrightarrow> S b \<and> (chain \<noteq> [] \<longrightarrow> bl_ParentHash b = bl_Hash (last chain))"
| "poll_ok S _ \<longleftrightarrow> True"

text \<open>
  The events in the log are \<open>evs @ more\<close>: \<open>evs\<close> gives the index, \<open>more\<close> was published by the poll that runs and takes a consumer
  on to the poll's window.
\<close>

definition sync_inv :: "(Block \<Rightarrow> bool) \<Rightarrow> (Block \<Rightarrow> bytes) \<Rightarrow> nat \<Rightarrow> poll \<Rightarrow> Indexer \<Rightarrow> Log \<Rightarrow> bool" where
  "sync_inv S m w p ix l \<longleftrightarrow> log_inv l \<and> ix_window ix = w \<and> poll_ok S p \<and>
     window_linked w (ix_chain ix) \<and> window_linked w (poll_view p ix) \<and>
     (\<exists>evs more. log_history ''chain'' l = encode_events m (evs @ more) \<and> replay w evs [] = Some (ix_chain ix) \<and>
        replay w more (ix_chain ix) = Some (poll_view p ix) \<and> (\<not> poll_running p \<longrightarrow> more = []) \<and>
        (\<forall>b. (''block.new'', b) \<in> set (evs @ more) \<longrightarrow> S b))"

lemma sync_inv_start:
  assumes "log_inv l" and "log_history ''chain'' l = []"
  shows "sync_inv S m w (Idle r) \<lparr>ix_window = w, ix_chain = []\<rparr> l"
  using assms by (auto simp: sync_inv_def window_linked_def)

text \<open>A step that changes neither the index nor the log, and keeps the poll's window.\<close>

lemma sync_inv_local:
  assumes "sync_inv S m w p ix l" and "poll_view p' ix = poll_view p ix" and "poll_ok S p'"
    and "poll_running p' \<or> (\<not> poll_running p)"
  shows "sync_inv S m w p' ix l"
  using assms by (auto simp: sync_inv_def)

text \<open>A step that publishes one event.\<close>

lemma sync_inv_emit:
  assumes inv: "sync_inv S m w p ix l" and "consume w (t, b) (poll_view p ix) = Some (poll_view p' ix)"
    and "t = ''block.new'' \<longrightarrow> S b" and "poll_ok S p'" and "poll_running p'" and "window_linked w (poll_view p' ix)"
  shows "sync_inv S m w p' ix (Indexer_emit m t b l)"
proof -
  from inv obtain evs more where h: "log_history ''chain'' l = encode_events m (evs @ more)" "replay w evs [] = Some (ix_chain ix)"
    "replay w more (ix_chain ix) = Some (poll_view p ix)" "\<forall>b. (''block.new'', b) \<in> set (evs @ more) \<longrightarrow> S b" and log: "log_inv l"
    unfolding sync_inv_def by blast
  have "log_history ''chain'' (Indexer_emit m t b l) = encode_events m (evs @ more @ [(t, b)])"
    using log_sink.history_put [OF log] h(1) by (simp add: emit_put)
  moreover have "replay w (more @ [(t, b)]) (ix_chain ix) = Some (poll_view p' ix)" using h(3) assms(2) by (simp add: replay_append)
  moreover have "\<forall>x. (''block.new'', x) \<in> set (evs @ more @ [(t, b)]) \<longrightarrow> S x" using h(4) assms(3) by auto
  moreover have "log_inv (Indexer_emit m t b l)" using log_sink.inv_put [OF log] by (simp add: emit_put)
  ultimately show ?thesis using inv h(2) assms(4-6) unfolding sync_inv_def by blast
qed

lemma sync_inv_store:
  assumes "sync_inv S m w (Storing err chain) ix l"
  shows "sync_inv S m w (Idle err) (ix\<lparr>ix_chain := chain\<rparr>) l"
proof -
  from assms obtain evs more where "log_history ''chain'' l = encode_events m (evs @ more)" "replay w (evs @ more) [] = Some chain"
    "\<forall>b. (''block.new'', b) \<in> set (evs @ more) \<longrightarrow> S b"
    unfolding sync_inv_def replay_append by auto
  with assms show ?thesis unfolding sync_inv_def by (intro conjI exI [of _ "evs @ more"] exI [of _ "[]"]) simp_all
qed

text \<open>The other steps only ask the node or copy the window.\<close>

lemma Sync_step_local:
  assumes "Sync_step m src p ix l e = (p', ix', l', e')"
    and "\<forall>head n chain b err. p \<noteq> Reorging head chain \<and> p \<noteq> Adding head n chain b \<and> p \<noteq> Storing err chain"
  shows "ix' = ix \<and> l' = l \<and> poll_view p' ix = poll_view p ix \<and> poll_ok (served src) p' \<and> (poll_running p' \<or> \<not> poll_running p)"
  using assms by (cases p) (auto simp: Let_def intro: servedI split: if_splits prod.splits sum.splits)

lemma Sync_step_inv:
  assumes "sync_inv (served src) m w p ix l" and "1 \<le> w" and "Sync_step m src p ix l e = (p', ix', l', e')"
  shows "sync_inv (served src) m w p' ix' l'"
proof (cases p)
  case (Reorging head chain)
  with assms(1) have c: "chain \<noteq> []" "window_linked w chain" by (simp_all add: sync_inv_def)
  then have "window_linked w (butlast chain)" using window_linked_take [of w chain] by (simp add: butlast_conv_take)
  moreover have "p' = Unwinding head (butlast chain)" "ix' = ix" "l' = Indexer_emit m ''block.reorged'' (last chain) l"
    using assms(3) Reorging by simp_all
  ultimately show ?thesis using c Reorging by (auto intro!: sync_inv_emit [OF assms(1)] simp: consume_def)
next
  case (Adding head n chain b)
  with assms(1) have b: "served src b" "chain \<noteq> [] \<longrightarrow> bl_ParentHash b = bl_Hash (last chain)" and w: "window_linked w chain" "ix_window ix = w"
    by (simp_all add: sync_inv_def)
  have "p' = Forwarding head (n + 1) (push_window w chain b)" "ix' = ix" "l' = Indexer_emit m ''block.new'' b l"
    using assms(3) Adding w(2) by (simp_all add: push_window_def)
  with b Adding window_linked_push [OF w(1) b(2) assms(2)] show ?thesis by (auto intro!: sync_inv_emit [OF assms(1)] simp: consume_def)
next
  case (Storing err chain)
  with assms sync_inv_store show ?thesis by auto
qed (use sync_inv_local [OF assms(1)] Sync_step_local [OF assms(3)] in auto)

text \<open>With a source that numbers its blocks the windows have no gaps.\<close>

fun poll_numbered :: "poll \<Rightarrow> bool" where
  "poll_numbered (Forwarding head n chain) \<longleftrightarrow> chain \<noteq> [] \<longrightarrow> n = bl_Number (last chain) + 1"
| "poll_numbered (Adding head n chain b) \<longleftrightarrow> bl_Number b = n \<and> (chain \<noteq> [] \<longrightarrow> n = bl_Number (last chain) + 1)"
| "poll_numbered _ \<longleftrightarrow> True"

definition sync_contiguous :: "poll \<Rightarrow> Indexer \<Rightarrow> bool" where
  "sync_contiguous p ix \<longleftrightarrow> contiguous (ix_chain ix) \<and> contiguous (poll_view p ix) \<and> poll_numbered p"

context numbered_source
begin

lemma Sync_step_contiguous:
  assumes "sync_contiguous p ix" and "1 \<le> ix_window ix" and "Sync_step m src p ix l e = (p', ix', l', e')"
  shows "sync_contiguous p' ix'"
proof (cases p)
  case (Adding head n chain b)
  with assms(1) have b: "bl_Number b = n" "contiguous (chain @ [b])" by (auto simp: sync_contiguous_def contiguous_snoc)
  with Adding assms last_push_window [OF assms(2), of chain b] contiguous_tl [OF b(2)] show ?thesis
    by (auto simp: sync_contiguous_def push_window_def)
qed (use assms block_number in \<open>auto simp: sync_contiguous_def sync_next_def Let_def contiguous_butlast split: if_splits prod.splits sum.splits\<close>)

end

end
