(* ===== verification/Gateway.thy ===== *)
theory Gateway
  imports Appconfig Chainsim Replies Poolsteps Syncsteps
begin

text \<open>
  The processes of \<^verbatim>\<open>internal/app/app.go\<close>: how \<^verbatim>\<open>Serve\<close> puts the gateway together, the steps of the running
  gateway, and the loop of the simulated node in \<^verbatim>\<open>SimMain\<close>.

  The world of the server's dependencies is here the pool of nodes, the pool of relays, which keep
  state of their own, and the network behind them. A step of the gateway is a request, one step of a poll of the
  indexer (\<open>Syncsteps\<close>), a turn of the webhook runner, an operation of a stream on the log, or a change of the
  network. A poll is interleaved with everything else at each of its accesses to shared state. A request and a delivery
  are one step each here; how calls of a pool and requests through the proxy interleave with each other is shown on their own steps, in
  \<open>Poolsteps\<close> and \<open>Proxysteps\<close>.

  What a process returns and with which status it exits is modelled; logging and what \<^verbatim>\<open>net/http\<close> does while
  it serves and shuts down are not.
\<close>

section \<open>Wiring\<close>

record 'w World =
  wd_pool :: Pool
  wd_relay :: Pool
  wd_net :: 'w

text \<open>The parameters of a process: its network, the libraries, and the TLS files.\<close>

record 'w Platform =
  pf_http :: "'w HttpClient"
  pf_json :: JsonText
  pf_fmt :: Fmt
  pf_net :: Net
  pf_sha256 :: "bytes \<Rightarrow> bytes"
  pf_hmac :: "bytes \<Rightarrow> bytes \<Rightarrow> bytes"
  pf_etext :: "gerror \<Rightarrow> string"
  pf_files :: TlsFiles

text \<open>
  A pool's \<^verbatim>\<open>Call\<close> as its users see it. The panic of a negative index, which takes \<^verbatim>\<open>1<<63\<close> calls, ends a call like an
  error here.
\<close>

definition outcome_result :: "(gerror + 'a) outcome \<Rightarrow> gerror + 'a" where
  "outcome_result r = (case r of Returns x \<Rightarrow> x | Panics \<Rightarrow> Inl (RuntimeError ''index out of range''))"

definition pool_caller :: "'w HttpClient \<Rightarrow> 'w World Caller" where
  "pool_caller hc body w = (case Pool_Call hc body (wd_pool w) (wd_net w) of
     (r, p, n) \<Rightarrow> (outcome_result r, w\<lparr>wd_pool := p, wd_net := n\<rparr>))"

definition relay_caller :: "'w HttpClient \<Rightarrow> 'w World Caller" where
  "relay_caller hc body w = (case Pool_Call hc body (wd_relay w) (wd_net w) of
     (r, p, n) \<Rightarrow> (outcome_result r, w\<lparr>wd_relay := p, wd_net := n\<rparr>))"

text \<open>A call that only uses the network.\<close>

definition net_call :: "('w, 'a) call \<Rightarrow> ('w World, 'a) call" where
  "net_call f w = (case f (wd_net w) of (r, n) \<Rightarrow> (r, w\<lparr>wd_net := n\<rparr>))"

definition gateway_env :: "'w Platform \<Rightarrow> 'w World Env" where
  "gateway_env P = \<lparr>en_json = pf_json P, en_fmt = pf_fmt P, en_net = pf_net P, en_sha256 = pf_sha256 P,
     en_now = (\<lambda>w. hc_now (pf_http P) (wd_net w))\<rparr>"

definition gateway_source :: "'w Platform \<Rightarrow> Config \<Rightarrow> 'w World Source" where
  "gateway_source P c = (if cf_Chain c = ''solana'' then Solana_Source (pf_json P) (pool_caller (pf_http P)) 0
     else RPCSource (pf_json P) (pool_caller (pf_http P)))"

text \<open>The contexts of HTTP requests carry no deadline.\<close>

definition gateway_service :: "'w Platform \<Rightarrow> GrpcClient option \<Rightarrow> 'w World Service" where
  "gateway_service P eng = \<lparr>sv_RPC = pool_caller (pf_http P),
     sv_Sim = map_option (\<lambda>g r. net_call (Client_Simulate (Grpc_Invoke (pf_etext P) (pf_http P) g None) r)) eng, sv_MaxGas = 0\<rparr>"

definition gateway_intents :: "'w Platform \<Rightarrow> Config \<Rightarrow> GrpcClient option \<Rightarrow> 'w World Intents option" where
  "gateway_intents P c eng = (if eng \<noteq> None \<or> cf_Chain c = ''solana''
     then let svc = gateway_service P eng in
       Some \<lparr>in_PrepareEVM = PrepareEVM (pf_json P) svc, in_SimulateSolana = SimulateSolana (pf_json P) svc\<rparr>
     else None)"

definition gateway_relays :: "'w Platform \<Rightarrow> Config \<Rightarrow> string \<rightharpoonup> (string \<Rightarrow> ('w World, string) call)" where
  "gateway_relays P c = (if cf_RelayURLs c \<noteq> []
     then [cf_Chain c \<mapsto> Sender_Send (pf_json P) (if cf_Chain c = ''solana'' then NewSolana (relay_caller (pf_http P))
             else NewEVM (relay_caller (pf_http P)))]
     else Map.empty)"

definition gateway_signer :: "'w Platform \<Rightarrow> Config \<Rightarrow> 'w SignerClient" where
  "gateway_signer P c = \<lparr>sc_BaseURL = cf_SignerURL c, sc_Secret = cf_SignerSecret c, sc_HTTP = pf_http P\<rparr>"

definition gateway_deps :: "'w Platform \<Rightarrow> Config \<Rightarrow> GrpcClient option \<Rightarrow> 'w World Deps" where
  "gateway_deps P c eng = \<lparr>dp_Caller = pool_caller (pf_http P), dp_Health = (\<lambda>w. Pool_Health (wd_pool w)),
     dp_Sign = (\<lambda>r. net_call (SignerClient_Sign (pf_json P) (pf_hmac P) (gateway_signer P c) r)),
     dp_SignTx = (\<lambda>r. net_call (SignerClient_SignTx (pf_json P) (pf_hmac P) (gateway_signer P c) r)),
     dp_Intents = gateway_intents P c eng, dp_Relays = gateway_relays P c,
     dp_APIKeys = cf_APIKeys c, dp_AllowOrigin = cf_CORSOrigin c\<rparr>"

record 'w Gateway =
  gw_gate :: Gate
  gw_log :: Log
  gw_world :: "'w World"
  gw_poll :: poll

text \<open>Durations are in nanoseconds. \<open>rps\<close> is the configured rate, which is modelled where it is finite.\<close>

definition gateway_gate :: "'w Platform \<Rightarrow> Config \<Rightarrow> rat \<Rightarrow> Gate" where
  "gateway_gate P c rps = \<lparr>gt_Limiter = Limiter_New (fm_rnd (pf_fmt P)) rps (cf_RateBurst c),
     gt_Cache = Cache_New 4096 (10 * 60 * 1000000000), gt_Metrics = Registry_New,
     gt_Hooks = Dispatcher_New 4 (500 * 1000000) (cf_HooksPrivate c), gt_Index = Indexer_New 256\<rparr>"

definition gateway_world :: "Config \<Rightarrow> 'w \<Rightarrow> 'w World" where
  "gateway_world c n = \<lparr>wd_pool = NewPool (cf_Upstreams c) 3 (10 * 1000000000),
     wd_relay = NewPool (cf_RelayURLs c) 3 (10 * 1000000000), wd_net = n\<rparr>"

text \<open>\<^verbatim>\<open>Serve\<close> up to the point where it starts its goroutines.\<close>

definition Serve_setup :: "'w Platform \<Rightarrow> Config \<Rightarrow> rat \<Rightarrow> 'w \<Rightarrow> gerror + 'w World Deps \<times> 'w Gateway" where
  "Serve_setup P c rps n = ebind (dialEngine (pf_etext P) (pf_files P) c) (\<lambda>eng.
     Inr (gateway_deps P c eng,
          \<lparr>gw_gate = server_New (gateway_gate P c rps), gw_log = Log_New 4, gw_world = gateway_world c n, gw_poll = Idle None\<rparr>))"

section \<open>The running gateway\<close>

text \<open>
  \<open>marshal\<close> and \<open>emarshal\<close> are the JSON encodings of blocks and events, \<open>sleep\<close> lets time pass, \<open>mt\<close> and
  \<open>none\<close> are the multiplexer. \<open>ch\<close> is the channel of the webhook runner; streams do not append.
\<close>

fun appends :: "log_op \<Rightarrow> bool" where
  "appends (OAppend k t raw) = True"
| "appends _ = False"

inductive gw_step ::
  "'w Platform \<Rightarrow> Config \<Rightarrow> 'w World Deps \<Rightarrow> (Block \<Rightarrow> bytes) \<Rightarrow> (Event \<Rightarrow> bytes) \<Rightarrow> (duration \<Rightarrow> 'w \<Rightarrow> 'w) \<Rightarrow>
   (HttpIn \<Rightarrow> string option) \<Rightarrow> (HttpIn \<Rightarrow> Reply) \<Rightarrow> 'w Gateway \<Rightarrow> 'w Gateway \<Rightarrow> bool"
  for P c d marshal emarshal sleep mt none where
  step_request: "server_recoverer (gateway_env P) d mt none r (gw_gate s, gw_world s) = (rep, g, w) \<Longrightarrow>
     gw_step P c d marshal emarshal sleep mt none s (s\<lparr>gw_gate := g, gw_world := w\<rparr>)"
| step_poll: "Sync_step marshal (gateway_source P c) (gw_poll s) (gt_Index (gw_gate s)) (gw_log s) (gw_world s) = (p, ix, l, w) \<Longrightarrow>
     gw_step P c d marshal emarshal sleep mt none s (s\<lparr>gw_gate := (gw_gate s)\<lparr>gt_Index := ix\<rparr>, gw_log := l, gw_world := w, gw_poll := p\<rparr>)"
| step_deliver: "Chan_Recv ch (gw_log s) = (Some ev, l) \<Longrightarrow>
     Dispatcher_Deliver emarshal (pf_net P) (pf_http P) sleep ev (gt_Hooks (gw_gate s)) (wd_net (gw_world s)) = (counts, n) \<Longrightarrow>
     gw_step P c d marshal emarshal sleep mt none s (s\<lparr>gw_log := l, gw_world := (gw_world s)\<lparr>wd_net := n\<rparr>\<rparr>)"
| step_stream: "\<not> appends x \<Longrightarrow> gw_step P c d marshal emarshal sleep mt none s (s\<lparr>gw_log := log_exec x (gw_log s)\<rparr>)"
| step_net: "gw_step P c d marshal emarshal sleep mt none s (s\<lparr>gw_world := (gw_world s)\<lparr>wd_net := n\<rparr>\<rparr>)"

inductive gw_run ::
  "'w Platform \<Rightarrow> Config \<Rightarrow> 'w World Deps \<Rightarrow> (Block \<Rightarrow> bytes) \<Rightarrow> (Event \<Rightarrow> bytes) \<Rightarrow> (duration \<Rightarrow> 'w \<Rightarrow> 'w) \<Rightarrow>
   (HttpIn \<Rightarrow> string option) \<Rightarrow> (HttpIn \<Rightarrow> Reply) \<Rightarrow> 'w Gateway \<Rightarrow> 'w Gateway \<Rightarrow> bool"
  for P c d marshal emarshal sleep mt none where
  run_refl: "gw_run P c d marshal emarshal sleep mt none s s"
| run_step: "gw_run P c d marshal emarshal sleep mt none s s' \<Longrightarrow> gw_step P c d marshal emarshal sleep mt none s' s'' \<Longrightarrow>
     gw_run P c d marshal emarshal sleep mt none s s''"

section \<open>The simulated node's process\<close>

record SimConfig =
  sm_id :: u64
  sm_ms :: int
  sm_every :: int

definition SimMain_config :: "(string \<Rightarrow> string) \<Rightarrow> gerror + SimConfig" where
  "SimMain_config getenv = (case ParseUint10 (go_or (getenv ''SIM_CHAIN_ID'') ''1337'') of
     Inl err \<Rightarrow> Inl (OtherErr ''SIM_CHAIN_ID must be an integer'')
   | Inr i \<Rightarrow> (case Atoi (go_or (getenv ''SIM_BLOCK_MS'') ''2000'') of
       Inl err \<Rightarrow> Inl (OtherErr ''SIM_BLOCK_MS must be a positive integer'')
     | Inr ms \<Rightarrow>
         if ms < 1 then Inl (OtherErr ''SIM_BLOCK_MS must be a positive integer'')
         else (case Atoi (go_or (getenv ''SIM_REORG_EVERY'') ''0'') of
            Inl err \<Rightarrow> Inl (OtherErr ''SIM_REORG_EVERY must be a non-negative integer'')
          | Inr every \<Rightarrow>
              if every < 0 then Inl (OtherErr ''SIM_REORG_EVERY must be a non-negative integer'')
              else Inr \<lparr>sm_id = i, sm_ms = ms, sm_every = every\<rparr>)))"

text \<open>One tick, the \<open>n\<close>th; the loop for \<open>k\<close> ticks, which counts \<open>n\<close> up as a 64-bit integer.\<close>

definition sim_tick :: "int \<Rightarrow> int \<Rightarrow> Node \<Rightarrow> Node option" where
  "sim_tick every n node = (if every > 0 \<and> go_rem n every = 0 then Node_Reorg 2 node else Some (Node_Mine node))"

fun sim_loop :: "int \<Rightarrow> nat \<Rightarrow> int \<Rightarrow> Node \<Rightarrow> Node option" where
  "sim_loop every 0 n node = Some node"
| "sim_loop every (Suc k) n node = Option.bind (sim_tick every n node) (sim_loop every k (wrap64 (n + 1)))"

text \<open>
  \<open>None\<close> is a panic: \<^verbatim>\<open>time.NewTicker\<close> panics on an interval that is not positive, and the product of the
  interval wraps around.
\<close>

definition SimMain :: "(string \<Rightarrow> string) \<Rightarrow> nat \<Rightarrow> gerror + Node option" where
  "SimMain getenv ticks = ebind (SimMain_config getenv) (\<lambda>c.
     Inr (if wrap64 (sm_ms c * 1000000) \<le> 0 then None else sim_loop (sm_every c) ticks 1 (Node_New (sm_id c))))"

section \<open>The processes\<close>

text \<open>
  How \<^verbatim>\<open>Serve\<close> ends: \<^verbatim>\<open>srv.Serve\<close> fails, or the context is cancelled and \<^verbatim>\<open>Shutdown\<close> returns what it returns.
  \<open>listen\<close> opens the socket of an address, \<open>rps\<close> is the configured rate.
\<close>

datatype serve_end = ServeFailed gerror | Cancelled "gerror option"

definition Serve_wait :: "serve_end \<Rightarrow> gerror option" where
  "Serve_wait fin = (case fin of ServeFailed err \<Rightarrow> Some err | Cancelled res \<Rightarrow> res)"

definition Serve_process :: "'w Platform \<Rightarrow> Config \<Rightarrow> rat \<Rightarrow> 'w \<Rightarrow> serve_end \<Rightarrow> gerror option" where
  "Serve_process P c rps n fin = (case Serve_setup P c rps n of Inl err \<Rightarrow> Some err | Inr s \<Rightarrow> Serve_wait fin)"

definition Main_process ::
  "Parsers \<Rightarrow> 'w Platform \<Rightarrow> (string \<Rightarrow> gerror option) \<Rightarrow> (string \<Rightarrow> string) \<Rightarrow> rat \<Rightarrow> 'w \<Rightarrow> serve_end \<Rightarrow> gerror option" where
  "Main_process Ps P listen getenv rps n fin = (case LoadConfig Ps getenv of
     Inl err \<Rightarrow> Some err
   | Inr c \<Rightarrow> (case listen (cf_Addr c) of
       Some err \<Rightarrow> Some (OtherErr (''listen: '' @ pf_etext P err))
     | None \<Rightarrow> Serve_process P c rps n fin))"

text \<open>The simulated node runs for some ticks and then returns what \<^verbatim>\<open>srv.Close\<close> returns.\<close>

definition SimMain_process ::
  "(gerror \<Rightarrow> string) \<Rightarrow> (string \<Rightarrow> gerror option) \<Rightarrow> (string \<Rightarrow> string) \<Rightarrow> nat \<Rightarrow> gerror option \<Rightarrow> gerror option outcome" where
  "SimMain_process etext listen getenv ticks res = (case SimMain_config getenv of
     Inl err \<Rightarrow> Returns (Some err)
   | Inr c \<Rightarrow> (case listen (go_or (getenv ''SIM_ADDR'') '':8545'') of
       Some err \<Rightarrow> Returns (Some (OtherErr (''listen: '' @ etext err)))
     | None \<Rightarrow> (case SimMain getenv ticks of Inr None \<Rightarrow> Panics | _ \<Rightarrow> Returns res)))"

text \<open>The exit status of a command; the run-time system exits with 2 on a panic.\<close>

definition main_status :: "gerror option outcome \<Rightarrow> nat" where
  "main_status r = (case r of Panics \<Rightarrow> 2 | Returns None \<Rightarrow> 0 | Returns (Some err) \<Rightarrow> 1)"

definition gateway_main ::
  "Parsers \<Rightarrow> 'w Platform \<Rightarrow> (string \<Rightarrow> gerror option) \<Rightarrow> (string \<Rightarrow> string) \<Rightarrow> rat \<Rightarrow> 'w \<Rightarrow> serve_end \<Rightarrow> nat" where
  "gateway_main Ps P listen getenv rps n fin = main_status (Returns (Main_process Ps P listen getenv rps n fin))"

definition chainsim_main ::
  "(gerror \<Rightarrow> string) \<Rightarrow> (string \<Rightarrow> gerror option) \<Rightarrow> (string \<Rightarrow> string) \<Rightarrow> nat \<Rightarrow> gerror option \<Rightarrow> nat" where
  "chainsim_main etext listen getenv ticks res = main_status (SimMain_process etext listen getenv ticks res)"

text \<open>The gateway's process ends with status 0 only if it was asked to stop: its configuration is complete, its socket
  and its engine connection could be set up, and its context was cancelled and the server shut down cleanly.\<close>

lemma gateway_exits_zero:
  "gateway_main Ps P listen getenv rps n fin = 0 \<longleftrightarrow>
     (\<exists>c d s. LoadConfig Ps getenv = Inr c \<and> listen (cf_Addr c) = None \<and> Serve_setup P c rps n = Inr (d, s) \<and> fin = Cancelled None)"
  by (auto simp: gateway_main_def main_status_def Main_process_def Serve_process_def Serve_wait_def split: sum.splits option.splits serve_end.splits)

section \<open>What the dependencies keep\<close>

definition keeps :: "('e \<Rightarrow> bool) \<Rightarrow> ('e, 'a) call \<Rightarrow> bool" where
  "keeps Q f \<longleftrightarrow> (\<forall>e. Q e \<longrightarrow> Q (snd (f e)))"

lemma keepsD: "keeps Q f \<Longrightarrow> Q e \<Longrightarrow> f e = (r, e') \<Longrightarrow> Q e'"
  unfolding keeps_def by (metis snd_conv)

lemma keeps_rlift [simp, intro]: "keeps Q (rlift r)"
  by (simp add: keeps_def rlift_def)

lemma keeps_rbind [intro]: "keeps Q m \<Longrightarrow> (\<And>x. keeps Q (f x)) \<Longrightarrow> keeps Q (rbind m f)"
  by (auto simp: keeps_def rbind_def split_beta split: sum.split)

lemma keeps_Rpcx: "(\<And>b. keeps Q (c b)) \<Longrightarrow> keeps Q (Rpcx_Call T c m ps dec)"
  by (auto simp: keeps_def Rpcx_Call_def split_beta split: sum.split)

lemma keeps_PrepareEVM:
  assumes rpc: "\<And>b. keeps Q (sv_RPC s b)" and sim: "\<And>sim r. sv_Sim s = Some sim \<Longrightarrow> keeps Q (sim r)"
  shows "keeps Q (PrepareEVM T s r)"
proof -
  note call = keeps_Rpcx [of Q, OF rpc]
  have qty: "keeps Q (qty T (sv_RPC s) m ps)" for m ps
    unfolding qty_def by (intro keeps_rbind call) (auto split: option.split)
  have acct: "keeps Q (Service_account T s a)" for a
    unfolding Service_account_def Let_def by (intro keeps_rbind call qty) (auto split: sum.split)
  have block: "keeps Q (latest_block T s)"
    unfolding latest_block_def by (intro keeps_rbind call) (auto split: option.split prod.split)
  have state: "keeps Q (load_state T s k)" for k
    unfolding load_state_def by (intro keeps_rbind acct) (auto intro: acct split: option.split)
  have price: "keeps Q (gas_price T s r)" unfolding gas_price_def using qty by auto
  show ?thesis
    unfolding PrepareEVM_def using price block state sim
    by (auto intro!: keeps_rbind split: option.split prod.split)
qed

lemma keeps_SimulateSolana:
  assumes "\<And>b. keeps Q (sv_RPC s b)"
  shows "keeps Q (SimulateSolana T s tx)"
  unfolding SimulateSolana_def using keeps_Rpcx [of Q, OF assms]
  by (auto simp: Let_def intro!: keeps_rbind split: option.split prod.split)

lemma keeps_Send: "(\<And>b. keeps Q (sn_c s b)) \<Longrightarrow> keeps Q (Sender_Send T s raw)"
  unfolding Sender_Send_def by (auto intro!: keeps_Rpcx split: option.split sum.split)

lemma keeps_RPCSource:
  assumes "\<And>b. keeps Q (c b)"
  shows "keeps Q (src_Head (RPCSource T c))" "keeps Q (src_Block (RPCSource T c) n)"
proof -
  have "keeps Q (RPCSource_call T c m ps dec)" for m ps and dec :: "json \<Rightarrow> gerror + 'b"
    using assms by (auto simp: keeps_def RPCSource_call_def split_beta split: sum.split)
  then show "keeps Q (src_Head (RPCSource T c))" "keeps Q (src_Block (RPCSource T c) n)"
    by (auto simp: RPCSource_def RPCSource_Head_def RPCSource_Block_def intro!: keeps_rbind)
qed

lemma keeps_Solana:
  assumes "\<And>b. keeps Q (c b)"
  shows "keeps Q (src_Head (Solana_Source T c k))" "keeps Q (src_Block (Solana_Source T c k) n)"
proof -
  have slots: "keeps Q (Rpcx_Call T c m ps dec)" for m ps and dec :: "json \<Rightarrow> gerror + u64 list" by (rule keeps_Rpcx) (rule assms)
  have blk: "keeps Q (Rpcx_Call T c m ps dec)" for m ps and dec :: "json \<Rightarrow> gerror + RawSolBlock" by (rule keeps_Rpcx) (rule assms)
  have num: "keeps Q (Rpcx_Call T c m ps dec)" for m ps and dec :: "json \<Rightarrow> gerror + u64" by (rule keeps_Rpcx) (rule assms)
  show "keeps Q (src_Head (Solana_Source T c k))" "keeps Q (src_Block (Solana_Source T c k) n)"
    by (auto simp: Solana_Source_def Solana_Head_def Solana_Block_def Let_def intro!: keeps_rbind num slots blk)
qed

lemma keeps_Sync_step:
  assumes "keeps Q (src_Head src)" and "\<And>n. keeps Q (src_Block src n)" and "Q e" and "Sync_step m src p ix l e = (p', ix', l', e')"
  shows "Q e'"
  using assms(4)
proof (cases p)
  case (Idle r)
  then show ?thesis using assms(3,4) by (auto dest: keepsD [OF assms(1)] split: prod.splits sum.splits)
qed (use assms(3) in \<open>auto simp: Let_def dest: keepsD [OF assms(2)] split: if_splits prod.splits sum.splits\<close>)

text \<open>
  The contract between the server and its dependencies, as far as a property \<open>Q\<close> of the world goes: if
  every dependency keeps \<open>Q\<close>, so does every request.
\<close>

locale keeping_deps =
  fixes d :: "'e Deps" and Q :: "'e \<Rightarrow> bool"
  assumes caller: "keeps Q (dp_Caller d b)"
    and sign: "keeps Q (dp_Sign d sr)"
    and sign_tx: "keeps Q (dp_SignTx d tr)"
    and prepare: "dp_Intents d = Some sv \<Longrightarrow> keeps Q (in_PrepareEVM sv r)"
    and simulate: "dp_Intents d = Some sv \<Longrightarrow> keeps Q (in_SimulateSolana sv tx)"
    and relays: "dp_Relays d chain = Some send \<Longrightarrow> keeps Q (send raw)"
begin

lemma forward_keeps: "Q (snd s) \<Longrightarrow> Q (snd (snd (server_forward V d q s)))"
  by (cases s) (auto simp: server_forward_def Let_def dest: keepsD [OF caller] split: prod.splits sum.splits)

lemma proxy_keeps: "Q (snd s) \<Longrightarrow> Q (snd (snd (server_proxy V d q client s)))"
  using forward_keeps
  by (cases s) (auto simp: server_proxy_def Let_def split: prod.split bool.split option.split)

lemma rpc_keeps:
  assumes "Q (snd s)"
  shows "Q (snd (snd (server_rpc V d r client s)))"
proof -
  have "Q (snd (snd (rpc_handler V d client q s)))" if "Q (snd s)" for q s
    using proxy_keeps [OF that, of V q client] by (simp add: rpc_handler_def split_beta)
  then have "Q (snd (snd (serve_loop (rpc_handler V d client) qs s)))" for qs
    by (intro serve_loop_preserves [where P = "\<lambda>s. Q (snd s)"] assms) auto
  with assms show ?thesis
    by (auto simp: server_rpc_def Serve_reply_def split_beta split: option.split sum.split)
qed

lemma sign_prepared_keeps: "Q e \<Longrightarrow> Q (snd (sign_prepared d a b p e))"
  by (auto simp: sign_prepared_def Let_def dest: keepsD [OF sign_tx] split: option.splits prod.splits sum.splits)

lemma intent_keeps:
  assumes "Q (snd s)"
  shows "Q (snd (snd (server_doIntent V d a r s)))"
proof -
  obtain g e where s: "s = (g, e)" by fastforce
  show ?thesis
    using assms sign_prepared_keeps
    by (auto simp: s server_doIntent_def Let_def split_beta intro!: sign_prepared_keeps
        split: option.split sum.split; metis keepsD prepare simulate prod.collapse)
qed

lemma broadcast_keeps: "Q (snd s) \<Longrightarrow> Q (snd (snd (server_broadcast V d r s)))"
  by (cases s) (auto simp: server_broadcast_def Let_def dest: keepsD [OF relays] split: prod.splits option.splits sum.splits)

lemma route_keeps:
  assumes "Q (snd s)"
  shows "Q (snd (snd (server_route V d pat r s)))"
proof -
  obtain g e where s: "s = (g, e)" by fastforce
  have "Q (snd (server_sign V d r e))"
    using assms s by (auto simp: server_sign_def dest: keepsD [OF sign] split: prod.splits sum.splits)
  then have "Q (snd (snd (client_route V d pat r client s)))" for client
    using assms rpc_keeps [OF assms, of V r client] intent_keeps [OF assms, of V _ r] broadcast_keeps [OF assms, of V r]
    by (simp add: client_route_def s split_beta server_simulate_def server_intentRoute_def)
  with assms show ?thesis by (simp add: server_route_def server_auth_def Let_def split: option.split)
qed

lemma request_keeps:
  "Q (snd s) \<Longrightarrow> Q (snd (snd (server_recoverer V d mt none r s)))"
  using route_keeps [of s V _ r]
  by (auto simp: server_recoverer_def server_cors_def server_observe_def split_beta split: option.split)

end

section \<open>The pools\<close>

definition world_inv :: "Config \<Rightarrow> 'w World \<Rightarrow> bool" where
  "world_inv c w \<longleftrightarrow> pool_inv (cf_Upstreams c) (wd_pool w) \<and> pool_inv (cf_RelayURLs c) (wd_relay w)"

lemma keeps_net [intro]: "keeps (world_inv c) (net_call f)"
  by (simp add: keeps_def net_call_def world_inv_def split_beta)

lemma keeps_pool [intro]: "keeps (world_inv c) (pool_caller hc b)"
  by (auto simp: keeps_def pool_caller_def world_inv_def split: prod.split dest: Pool_Call_inv)

lemma keeps_relay [intro]: "keeps (world_inv c) (relay_caller hc b)"
  by (auto simp: keeps_def relay_caller_def world_inv_def split: prod.split dest: Pool_Call_inv)

lemma keeps_source: "keeps (world_inv c) (src_Head (gateway_source P c))" "keeps (world_inv c) (src_Block (gateway_source P c) n)"
  unfolding gateway_source_def using keeps_Solana [OF keeps_pool] keeps_RPCSource [OF keeps_pool] by auto

interpretation gateway: keeping_deps "gateway_deps P c eng" "world_inv c" for P c eng
proof
  fix sv chain send and b :: bytes and sr tr r tx raw
  show "keeps (world_inv c) (dp_Caller (gateway_deps P c eng) b)" "keeps (world_inv c) (dp_Sign (gateway_deps P c eng) sr)"
    "keeps (world_inv c) (dp_SignTx (gateway_deps P c eng) tr)"
    by (simp_all add: gateway_deps_def keeps_pool keeps_net)
  show "keeps (world_inv c) (in_PrepareEVM sv r)" if "dp_Intents (gateway_deps P c eng) = Some sv"
    using that by (auto simp: gateway_deps_def gateway_intents_def gateway_service_def Let_def intro!: keeps_PrepareEVM keeps_pool keeps_net split: if_splits)
  show "keeps (world_inv c) (in_SimulateSolana sv tx)" if "dp_Intents (gateway_deps P c eng) = Some sv"
    using that by (auto simp: gateway_deps_def gateway_intents_def gateway_service_def Let_def intro!: keeps_SimulateSolana keeps_pool split: if_splits)
  show "keeps (world_inv c) (send raw)" if "dp_Relays (gateway_deps P c eng) chain = Some send"
    using that by (auto simp: gateway_deps_def gateway_relays_def NewEVM_def NewSolana_def intro!: keeps_Send keeps_relay split: if_splits)
qed

section \<open>The invariant of the running gateway\<close>

definition gateway_inv :: "'w Platform \<Rightarrow> Config \<Rightarrow> Gate \<Rightarrow> (Block \<Rightarrow> bytes) \<Rightarrow> 'w Gateway \<Rightarrow> bool" where
  "gateway_inv P c g0 marshal s \<longleftrightarrow> world_inv c (gw_world s) \<and>
     gate_inv (gateway_env P) (g0\<lparr>gt_Index := gt_Index (gw_gate s)\<rparr>) (gw_gate s) \<and>
     (cf_Chain c = ''solana'' \<longrightarrow> sync_contiguous (gw_poll s) (gt_Index (gw_gate s))) \<and>
     sync_inv (served (gateway_source P c)) marshal 256 (gw_poll s) (gt_Index (gw_gate s)) (gw_log s)"

lemma listen_sync_inv:
  assumes "sync_inv S m w p ix l" and "\<not> appends x"
  shows "sync_inv S m w p ix (log_exec x l)"
proof -
  have parts: "lg_parts (log_exec x l) = lg_parts l" using assms(2) by (cases x) (simp_all add: Log_Commit_def)
  then have "log_history ''chain'' (log_exec x l) = log_history ''chain'' l"
    using log_part_cong [of "log_exec x l" l "''chain''"] by (simp add: log_history_def)
  with assms(1) log_exec_inv [of l x] show ?thesis by (simp add: sync_inv_def)
qed

lemma step_keeps:
  assumes "gw_step P c (gateway_deps P c eng) marshal emarshal sleep mt none s s'" and "gateway_inv P c g0 marshal s"
  shows "gateway_inv P c g0 marshal s'"
  using assms
proof (induction rule: gw_step.induct)
  case (step_request r s rep g w)
  let ?V = "gateway_env P" and ?g0 = "g0\<lparr>gt_Index := gt_Index (gw_gate s)\<rparr>"
  have w: "world_inv c w"
    using gateway.request_keeps [of c "(gw_gate s, gw_world s)" ?V P eng mt none r] step_request by (simp add: gateway_inv_def)
  have g: "gate_inv ?V ?g0 g"
    using request_inv_gate [of ?V ?g0 "(gw_gate s, gw_world s)" "gateway_deps P c eng" mt none r] step_request by (simp add: gateway_inv_def)
  then have "gt_Index g = gt_Index (gw_gate s)" by (simp add: gate_inv_def)
  with g w step_request.prems show ?case by (simp add: gateway_inv_def)
next
  case (step_poll s p ix l w)
  then have inv: "world_inv c (gw_world s)" "sync_inv (served (gateway_source P c)) marshal 256 (gw_poll s) (gt_Index (gw_gate s)) (gw_log s)"
    by (simp_all add: gateway_inv_def)
  have "world_inv c w" using keeps_Sync_step [OF keeps_source inv(1) step_poll.hyps] .
  moreover have "sync_inv (served (gateway_source P c)) marshal 256 p ix l" using Sync_step_inv [OF inv(2) _ step_poll.hyps] by simp
  moreover have "sync_contiguous p ix" if solana: "cf_Chain c = ''solana''"
  proof -
    have "sync_contiguous (gw_poll s) (gt_Index (gw_gate s))" using step_poll.prems solana by (simp add: gateway_inv_def)
    with numbered_source.Sync_step_contiguous [OF solana.numbered_source_axioms _ _ step_poll.hyps [unfolded gateway_source_def if_P [OF solana]]] inv(2)
    show ?thesis by (simp add: sync_inv_def)
  qed
  ultimately show ?case using step_poll.prems by (simp add: gateway_inv_def gate_inv_def)
next
  case (step_deliver ch s ev l counts n)
  then have "log_exec (ORecv ch) (gw_log s) = l" by simp
  then have "sync_inv (served (gateway_source P c)) marshal 256 (gw_poll s) (gt_Index (gw_gate s)) l"
    using listen_sync_inv [of _ marshal 256 _ _ "gw_log s" "ORecv ch"] step_deliver.prems by (simp add: gateway_inv_def)
  with step_deliver.prems show ?case by (simp add: gateway_inv_def world_inv_def)
next
  case (step_stream x s)
  then show ?case using listen_sync_inv [OF _ step_stream.hyps] by (simp add: gateway_inv_def)
next
  case (step_net s n)
  then show ?case by (simp add: gateway_inv_def world_inv_def)
qed

lemma setup_inv:
  assumes "Serve_setup P c rps n = Inr (d, s)"
  shows "\<exists>eng. d = gateway_deps P c eng \<and> gateway_inv P c (gateway_gate P c rps) marshal s"
proof -
  from assms obtain eng where d: "d = gateway_deps P c eng"
    and s: "s = \<lparr>gw_gate = server_New (gateway_gate P c rps), gw_log = Log_New 4, gw_world = gateway_world c n, gw_poll = Idle None\<rparr>"
    by (auto simp: Serve_setup_def early_return)
  have "gate_inv (gateway_env P) (gateway_gate P c rps) (server_New (gateway_gate P c rps))"
    using hooks_inv_New [of "pf_net P" 4 "500 * 1000000" "cf_HooksPrivate c"] cache_inv_New [of 4096 "10 * 60 * 1000000000"]
    by (simp add: gate_inv_def server_New_def gateway_gate_def gateway_env_def registry_inv_ops Dispatcher_New_def)
  moreover have "log_history ''chain'' (Log_New 4) = []"
    using log_part_less [of "Log_New 4" "''chain''"] by (simp add: log_history_def Log_New_def)
  ultimately have "gateway_inv P c (gateway_gate P c rps) marshal s"
    using log_inv_New [of 4] sync_inv_start [of "Log_New 4" "served (gateway_source P c)" marshal 256 None]
    by (simp add: gateway_inv_def sync_contiguous_def s world_inv_def gateway_world_def pool_inv_New maxInt64_def Indexer_New_def server_New_def gateway_gate_def)
  with d show ?thesis by blast
qed

lemma run_keeps:
  assumes "gw_run P c (gateway_deps P c eng) marshal emarshal sleep mt none s s'" and "gateway_inv P c g0 marshal s"
  shows "gateway_inv P c g0 marshal s'"
  using assms by (induction rule: gw_run.induct) (auto intro: step_keeps)

text \<open>The events in the log: those that gave the index, and those of the poll that runs.\<close>

lemma run_history:
  assumes "gateway_inv P c g0 marshal s"
  shows "\<exists>evs more. log_history ''chain'' (gw_log s) = encode_events marshal (evs @ more) \<and>
    replay 256 evs [] = Some (ix_chain (gt_Index (gw_gate s))) \<and>
    replay 256 (evs @ more) [] = Some (poll_view (gw_poll s) (gt_Index (gw_gate s))) \<and> (\<not> poll_running (gw_poll s) \<longrightarrow> more = []) \<and>
    (\<forall>(t, b) \<in> set (evs @ more). served (gateway_source P c) b)"
proof -
  from assms obtain evs more where h: "log_history ''chain'' (gw_log s) = encode_events marshal (evs @ more)"
    "replay 256 evs [] = Some (ix_chain (gt_Index (gw_gate s)))"
    "replay 256 more (ix_chain (gt_Index (gw_gate s))) = Some (poll_view (gw_poll s) (gt_Index (gw_gate s)))"
    "\<not> poll_running (gw_poll s) \<longrightarrow> more = []" "\<forall>b. (''block.new'', b) \<in> set (evs @ more) \<longrightarrow> served (gateway_source P c) b"
    unfolding gateway_inv_def sync_inv_def by blast
  have all: "replay 256 (evs @ more) [] = Some (poll_view (gw_poll s) (gt_Index (gw_gate s)))" using h(2,3) by (simp add: replay_append)
  have "\<forall>(t, b) \<in> set (evs @ more). served (gateway_source P c) b" by (rule conjunct1 [OF replay_blocks [OF all h(5)]]) simp
  with h all show ?thesis by (intro exI [of _ evs] exI [of _ more] conjI) assumption+
qed

section \<open>Ticks\<close>

lemma tick_reach:
  assumes "node_reach node"
  shows "\<exists>node'. sim_tick every n node = Some node' \<and> node_reach node' \<and>
    length (nd_blocks node') = Suc (length (nd_blocks node)) \<and> nd_chainID node' = nd_chainID node"
proof -
  have chain: "nd_chainID ((node_mine ^^ k) x) = nd_chainID x" for k x
    by (induction k) (simp_all add: node_mine_def Let_def)
  have "nd_blocks node \<noteq> []" using reach_nonempty [OF assms] .
  then obtain node' where r: "Node_Reorg 2 node = Some node'" "nd_chainID node' = nd_chainID node"
    using chain by (cases "length (nd_blocks node) \<le> 2") (auto simp: Node_Reorg_def Let_def)
  with Reorg_length [OF r(1)] \<open>nd_blocks node \<noteq> []\<close> assms show ?thesis
    using chain [of 1 node] by (auto simp: sim_tick_def Node_Mine_def intro: node_reorg node_mined [unfolded Node_Mine_def])
qed

lemma loop_reach:
  assumes "node_reach node"
  shows "\<exists>node'. sim_loop every k n node = Some node' \<and> node_reach node' \<and>
    length (nd_blocks node') = length (nd_blocks node) + k \<and> nd_chainID node' = nd_chainID node"
  using assms
proof (induction k arbitrary: n node)
  case (Suc k)
  from tick_reach [OF Suc.prems] obtain node1 where t: "sim_tick every n node = Some node1" "node_reach node1"
    "length (nd_blocks node1) = Suc (length (nd_blocks node))" "nd_chainID node1 = nd_chainID node" by blast
  from Suc.IH [OF t(2), of "wrap64 (n + 1)"] t show ?case by auto
qed simp

section \<open>Properties\<close>

text \<open>C2: the running gateway. After \<^verbatim>\<open>Serve\<close> has put the gateway together, and then any interleaving of requests, deliveries to webhooks,
  streams and the single steps of the indexer's polls, with any behaviour of the network (a request and a delivery are one step
  each). The events published to the log so
  far, all with blocks returned by a node, replay from the beginning without a violation, to the window of the poll that runs; the index is
  what a prefix of these events gives, since a poll publishes as it goes and stores at its end; and when no poll runs the
  index is what all of them give. The index has at most 256 blocks, each the parent of the next by its hash, and on Solana also by
  its height; the cache holds at most 4096 entries; both pools have the configured endpoints in the
  configured order, each with a well-formed breaker; and every registered webhook has a secret of 16 characters and, unless
  private targets were allowed by the configuration, a public URL.\<close>

theorem gateway_reachable:
  assumes "Serve_setup P c rps n = Inr (d, s)" and "gw_run P c d marshal emarshal sleep mt none s s'"
  shows "(\<exists>evs more. log_history ''chain'' (gw_log s') = encode_events marshal (evs @ more) \<and>
      replay 256 evs [] = Some (ix_chain (gt_Index (gw_gate s'))) \<and>
      replay 256 (evs @ more) [] = Some (poll_view (gw_poll s') (gt_Index (gw_gate s'))) \<and> (\<not> poll_running (gw_poll s') \<longrightarrow> more = []) \<and>
      (\<forall>(t, b) \<in> set (evs @ more). served (gateway_source P c) b)) \<and>
    length (ix_chain (gt_Index (gw_gate s'))) \<le> 256 \<and> linked (ix_chain (gt_Index (gw_gate s'))) \<and>
    (cf_Chain c = ''solana'' \<longrightarrow> contiguous (ix_chain (gt_Index (gw_gate s')))) \<and>
    cache_inv (gt_Cache (gw_gate s')) \<and> Cache_Len (gt_Cache (gw_gate s')) \<le> 4096 \<and>
    map ep_url (pl_eps (wd_pool (gw_world s'))) = cf_Upstreams c \<and>
    map ep_url (pl_eps (wd_relay (gw_world s'))) = cf_RelayURLs c \<and>
    (\<forall>ep \<in> set (pl_eps (wd_pool (gw_world s'))) \<union> set (pl_eps (wd_relay (gw_world s'))). breaker_inv (ep_br ep)) \<and>
    (\<forall>r \<in> set (ds_regs (gt_Hooks (gw_gate s'))). 16 \<le> length (rn_Secret r) \<and>
       (cf_HooksPrivate c \<or> public_url (pf_net P) (rn_URL r)))"
proof -
  from setup_inv [OF assms(1)] obtain eng where d: "d = gateway_deps P c eng"
    and inv: "gateway_inv P c (gateway_gate P c rps) marshal s" by blast
  have inv': "gateway_inv P c (gateway_gate P c rps) marshal s'" using run_keeps [OF assms(2) [unfolded d] inv] .
  show ?thesis
    by (rule conjI [OF run_history [OF inv']])
      (use inv' in \<open>auto simp: gateway_inv_def sync_inv_def sync_contiguous_def window_linked_def world_inv_def pool_inv_def gate_inv_def
        cache_inv_def Cache_Len_def hooks_inv_def gateway_env_def gateway_gate_def Cache_New_def Dispatcher_New_def\<close>)
qed

definition demo_platform :: "nat Platform" where
  "demo_platform = \<lparr>pf_http = \<lparr>hc_newreq = (\<lambda>u. None), hc_do = (\<lambda>q n. (Inl ErrCanceled, Suc n)), hc_now = int\<rparr>, pf_json = go_text,
     pf_fmt = \<lparr>fm_quote = (\<lambda>s. s), fm_g = (\<lambda>x. []), fm_rnd = (\<lambda>x. x)\<rparr>,
     pf_net = \<lparr>nt_url = (\<lambda>u. None), nt_ip = (\<lambda>h. None), nt_hmac = (\<lambda>k b. b)\<rparr>, pf_sha256 = (\<lambda>b. b), pf_hmac = (\<lambda>k b. b),
     pf_etext = (\<lambda>err. []), pf_files = \<lparr>tf_pair = (\<lambda>a b. Inl ErrNotFound), tf_read = (\<lambda>p. Inl ErrNotFound), tf_pem = (\<lambda>b. False)\<rparr>\<rparr>"

lemma demo_setup: "\<exists>d s. Serve_setup demo_platform demo_config 50 n = Inr (d, s)"
  by (simp add: Serve_setup_def dialEngine_def demo_config_def)

text \<open>A network in which a node answers by turns with its height, 0, and with its block.\<close>

definition node_reply :: "nat \<Rightarrow> json" where
  "node_reply n = JObj [(''result'', if even n then JStr ''0x0'' else JObj [(''number'', JStr ''0x0''), (''hash'', JStr ''0xa''),
     (''parentHash'', JStr ''0x''), (''timestamp'', JStr ''0x5''), (''transactions'', JArr [JStr ''0x1''])])]"

definition tip_block :: Block where
  "tip_block = \<lparr>bl_Number = 0, bl_Hash = ''0xa'', bl_ParentHash = ''0x'', bl_Timestamp = 5, bl_TxCount = 1\<rparr>"

definition node_platform :: "nat Platform" where
  "node_platform = demo_platform\<lparr>pf_http := \<lparr>hc_newreq = (\<lambda>u. None), hc_do = (\<lambda>q n. (Inr \<lparr>rs_status = 200, rs_header = (\<lambda>_. []),
     rs_trailer = (\<lambda>_. []), rs_body = (js_print go_text (node_reply n), None)\<rparr>, Suc n)), hc_now = int\<rparr>\<rparr>"

lemma node_reply_short: "length (js_print go_text (node_reply n)) < 8 * 2 ^ 20"
proof -
  have "length (print_text (node_reply 0)) < 200" "length (print_text (node_reply 1)) < 200" by code_simp+
  moreover have "node_reply n = node_reply 0 \<or> node_reply n = node_reply 1" by (simp add: node_reply_def)
  ultimately show ?thesis by (auto simp: go_text_def)
qed

lemma node_try: "Pool_try (pf_http node_platform) ep body n = (Inr (js_print go_text (node_reply n)), Suc n)"
  using node_reply_short [of n] by (simp add: Pool_try_def node_platform_def read_limited_def)

lemma node_reply_valid: "valid_json max_depth (node_reply n)"
  by (simp add: node_reply_def max_depth_def)

lemma node_result: "src_result go_text (js_print go_text (node_reply n)) = Inr (snd (hd (case node_reply n of JObj fs \<Rightarrow> fs)))"
proof -
  have "strings_ToLower ''result'' = ''result''" "strings_ToLower ''error'' = ''error''" by code_simp+
  then show ?thesis
    using go_json.parse_print [OF node_reply_valid, of n] by (simp add: src_result_def dec_src_envelope_def node_reply_def json_field_def)
qed

lemma node_dec: "dec_raw_block (JObj [(''number'', JStr ''0x0''), (''hash'', JStr ''0xa''),
     (''parentHash'', JStr ''0x''), (''timestamp'', JStr ''0x5''), (''transactions'', JArr [JStr ''0x1''])]) =
   Inr \<lparr>rb_Number = ''0x0'', rb_Hash = ''0xa'', rb_ParentHash = ''0x'', rb_Timestamp = ''0x5'', rb_Transactions = [''0x1'']\<rparr>"
  by code_simp

lemma node_qty: "parseQty ''0x0'' = Inr 0" "parseQty ''0x5'' = Inr 5"
proof -
  have "hex_value 0 ''0'' = Some 0" "hex_value 0 ''5'' = Some 5" by code_simp+
  then show "parseQty ''0x0'' = Inr 0" "parseQty ''0x5'' = Inr 5"
    by (simp_all add: parseQty_def HasPrefix_def ParseUint16_def)
qed

lemma node_pool:
  "Pool_Call (pf_http node_platform) body p n = (r, p', n') \<Longrightarrow> outcome_result r = Inr raw \<Longrightarrow> \<exists>m. raw = js_print go_text (node_reply m)"
proof -
  have "fst (pool_loop (pf_http node_platform) body s i k eps e) = Returns (Inr raw) \<Longrightarrow> \<exists>m. raw = js_print go_text (node_reply m)" for s i k eps e
    by (induction k arbitrary: i eps e) (auto simp: Let_def node_try split_beta split: if_splits)
  then show "Pool_Call (pf_http node_platform) body p n = (r, p', n') \<Longrightarrow> outcome_result r = Inr raw \<Longrightarrow> ?thesis"
    by (auto simp: Pool_Call_def Let_def outcome_result_def split_beta split: outcome.splits) 
qed

definition node_value :: "nat \<Rightarrow> json" where
  "node_value n = snd (hd (case node_reply n of JObj fs \<Rightarrow> fs))"

lemma node_source_call:
  assumes "RPCSource_call go_text (pool_caller (pf_http node_platform)) m ps dec w = (Inr x, w')"
  shows "\<exists>n. dec (node_value n) = Inr x"
proof -
  let ?call = "Pool_Call (pf_http node_platform) (js_print go_text (rpc_request m ps)) (wd_pool w) (wd_net w)"
  obtain r p n where c: "?call = (r, p, n)" using prod_cases3 by blast
  with assms obtain raw where "outcome_result r = Inr raw" "ebind (src_result go_text raw) dec = Inr x"
    by (auto simp: RPCSource_call_def pool_caller_def split: sum.splits)
  with node_pool [OF c] show ?thesis by (auto simp: node_result node_value_def)
qed

lemma node_json: "pf_json node_platform = go_text"
  by (simp add: node_platform_def demo_platform_def)

lemma node_serves:
  assumes "served (gateway_source node_platform demo_config) b"
  shows "b = tip_block"
proof -
  from assms node_json obtain k w w' where "RPCSource_Block go_text (pool_caller (pf_http node_platform)) k w = (Inr b, w')"
    by (auto simp: served_def gateway_source_def demo_config_def RPCSource_def)
  then obtain n x where x: "dec_raw_block (node_value n) = Inr x" "block_of_raw x = Inr b"
    by (auto simp: RPCSource_Block_def rbind_eq_Inr dest!: node_source_call)
  then have "odd n" by (cases "even n") (auto simp: node_value_def node_reply_def dec_raw_block_def type_err_def)
  with x show ?thesis by (auto simp: node_value_def node_reply_def node_dec block_of_raw_def node_qty tip_block_def)
qed

lemma node_counts: "\<forall>b. served (gateway_source node_platform demo_config) b \<longrightarrow> bl_TxCount b \<le> maxInt64"
  by (auto dest!: node_serves simp: tip_block_def maxInt64_def)

lemma node_pool_fresh:
  "Pool_Call (pf_http node_platform) body (NewPool [''http://a'', ''http://b''] 3 cd) n =
     (Returns (Inr (js_print go_text (node_reply n))), (NewPool [''http://a'', ''http://b''] 3 cd)\<lparr>pl_next := 1\<rparr>, Suc n)"
  "Pool_Call (pf_http node_platform) body ((NewPool [''http://a'', ''http://b''] 3 cd)\<lparr>pl_next := 1\<rparr>) n =
     (Returns (Inr (js_print go_text (node_reply n))), (NewPool [''http://a'', ''http://b''] 3 cd)\<lparr>pl_next := 2\<rparr>, Suc n)"
  by (simp_all add: Pool_Call_def NewPool_def Let_def numeral_2_eq_2 node_try breaker_defs)

lemma node_head:
  "src_Head (gateway_source node_platform demo_config) (gateway_world demo_config 0) =
     (Inr 0, (gateway_world demo_config 0)\<lparr>wd_pool := (NewPool [''http://a'', ''http://b''] 3 10000000000)\<lparr>pl_next := 1\<rparr>, wd_net := 1\<rparr>)"
proof -
  note node_json
  moreover have "node_value 0 = JStr ''0x0''" by (simp add: node_value_def node_reply_def)
  ultimately show ?thesis
    using node_pool_fresh(1) [of _ 10000000000 0]
    by (simp add: gateway_source_def demo_config_def RPCSource_def RPCSource_Head_def RPCSource_call_def rbind_def rlift_def pool_caller_def
      gateway_world_def outcome_result_def node_result [folded node_value_def] node_qty)
qed

lemma node_blk:
  "src_Block (gateway_source node_platform demo_config) k
     ((gateway_world demo_config 0)\<lparr>wd_pool := (NewPool [''http://a'', ''http://b''] 3 10000000000)\<lparr>pl_next := 1\<rparr>, wd_net := 1\<rparr>) =
     (Inr tip_block, (gateway_world demo_config 0)\<lparr>wd_pool := (NewPool [''http://a'', ''http://b''] 3 10000000000)\<lparr>pl_next := 2\<rparr>, wd_net := 2\<rparr>)"
proof -
  note node_json
  moreover have "dec_raw_block (node_value 1) = Inr \<lparr>rb_Number = ''0x0'', rb_Hash = ''0xa'', rb_ParentHash = ''0x'', rb_Timestamp = ''0x5'', rb_Transactions = [''0x1'']\<rparr>"
    by (simp add: node_value_def node_reply_def node_dec)
  ultimately show ?thesis
    using node_pool_fresh(2) [of _ 10000000000 1]
    by (simp add: gateway_source_def demo_config_def RPCSource_def RPCSource_Block_def RPCSource_call_def rbind_def rlift_def pool_caller_def
      gateway_world_def outcome_result_def node_result [folded node_value_def] block_of_raw_def node_qty tip_block_def)
qed

lemma poll_run:
  assumes "gw_run P c d m em sleep mt none s \<lparr>gw_gate = g, gw_log = l, gw_world = w, gw_poll = p\<rparr>"
    and "Sync_step m (gateway_source P c) p (gt_Index g) l w = (p', ix, l', w')"
  shows "gw_run P c d m em sleep mt none s \<lparr>gw_gate = g\<lparr>gt_Index := ix\<rparr>, gw_log = l', gw_world = w', gw_poll = p'\<rparr>"
  using run_step [OF assms(1) step_poll] assms(2) by simp

text \<open>The gateway in front of this node: during its first poll the log is ahead of the index, and then the poll ends.\<close>

lemma node_run:
  "\<exists>d s s1 s2. Serve_setup node_platform demo_config 50 0 = Inr (d, s) \<and>
     gw_run node_platform demo_config d m em sleep mt none s s1 \<and> gw_run node_platform demo_config d m em sleep mt none s s2 \<and>
     ix_chain (gt_Index (gw_gate s1)) = [] \<and> poll_view (gw_poll s1) (gt_Index (gw_gate s1)) = [tip_block] \<and> poll_running (gw_poll s1) \<and>
     ix_chain (gt_Index (gw_gate s2)) = [tip_block] \<and> \<not> poll_running (gw_poll s2)"
proof -
  let ?d = "gateway_deps node_platform demo_config None" and ?g = "server_New (gateway_gate node_platform demo_config 50)"
  let ?w = "\<lambda>k n. (gateway_world demo_config 0)\<lparr>wd_pool := (NewPool [''http://a'', ''http://b''] 3 10000000000)\<lparr>pl_next := k\<rparr>, wd_net := n\<rparr>"
  let ?s = "\<lambda>p l w. \<lparr>gw_gate = ?g, gw_log = l, gw_world = w, gw_poll = p\<rparr>" and ?l = "Indexer_emit m ''block.new'' tip_block (Log_New 4)"
  let ?run = "gw_run node_platform demo_config ?d m em sleep mt none (?s (Idle None) (Log_New 4) (gateway_world demo_config 0))"
  have ix: "gt_Index ?g = \<lparr>ix_window = 256, ix_chain = []\<rparr>" by (simp add: server_New_def gateway_gate_def Indexer_New_def)
  have same: "?g\<lparr>gt_Index := \<lparr>ix_window = 256, ix_chain = []\<rparr>\<rparr> = ?g" unfolding ix [symmetric] by simp
  have "?run (?s (Copying 0) (Log_New 4) (?w 1 1))"
    using poll_run [OF run_refl, of m node_platform demo_config "Idle None" ?g "Log_New 4" "gateway_world demo_config 0"] node_head
    by (simp add: ix same)
  from poll_run [OF this] have "?run (?s (Unwinding 0 []) (Log_New 4) (?w 1 1))" by (simp add: ix same)
  from poll_run [OF this] have "?run (?s (Forwarding 0 0 []) (Log_New 4) (?w 1 1))" by (simp add: ix same sync_next_def)
  from poll_run [OF this] have "?run (?s (Adding 0 0 [] tip_block) (Log_New 4) (?w 2 2))" by (simp add: ix same node_blk [unfolded One_nat_def])
  from poll_run [OF this] have 1: "?run (?s (Forwarding 0 1 [tip_block]) ?l (?w 2 2))" by (simp add: ix same)
  from poll_run [OF this] have "?run (?s (Storing None [tip_block]) ?l (?w 2 2))" by (simp add: ix same)
  from poll_run [OF this] have 2: "?run ((?s (Idle None) ?l (?w 2 2))\<lparr>gw_gate := ?g\<lparr>gt_Index := \<lparr>ix_window = 256, ix_chain = [tip_block]\<rparr>\<rparr>\<rparr>)"
    by (simp add: ix)
  have "Serve_setup node_platform demo_config 50 0 = Inr (?d, ?s (Idle None) (Log_New 4) (gateway_world demo_config 0))"
    by (simp add: Serve_setup_def dialEngine_def demo_config_def)
  with 1 2 show ?thesis by (intro exI conjI) (assumption, assumption, assumption, simp_all add: ix)
qed

theorem gateway_reachable_witness:
  "\<exists>d s s1 s2 evs. Serve_setup node_platform demo_config 50 0 = Inr (d, s) \<and>
    gw_run node_platform demo_config d (block_bytes go_text) (\<lambda>ev. []) (\<lambda>w n. n + nat w) (\<lambda>r. None) (\<lambda>r. Reply 404 PNone) s s1 \<and>
    gw_run node_platform demo_config d (block_bytes go_text) (\<lambda>ev. []) (\<lambda>w n. n + nat w) (\<lambda>r. None) (\<lambda>r. Reply 404 PNone) s s2 \<and>
    ix_chain (gt_Index (gw_gate s1)) = [] \<and>
    log_history ''chain'' (gw_log s1) = encode_events (block_bytes go_text) evs \<and> replay 256 evs [] = Some [tip_block] \<and>
    ix_chain (gt_Index (gw_gate s2)) = [tip_block] \<and> linked [tip_block] \<and>
    map ep_url (pl_eps (wd_pool (gw_world s2))) = [''http://a'', ''http://b''] \<and> Cache_Len (gt_Cache (gw_gate s2)) \<le> 4096"
proof -
  from node_run obtain d s s1 s2 where sv: "Serve_setup node_platform demo_config 50 0 = Inr (d, s)" and
    run1: "gw_run node_platform demo_config d (block_bytes go_text) (\<lambda>ev. []) (\<lambda>w n. n + nat w) (\<lambda>r. None) (\<lambda>r. Reply 404 PNone) s s1" and
    run: "gw_run node_platform demo_config d (block_bytes go_text) (\<lambda>ev. []) (\<lambda>w n. n + nat w) (\<lambda>r. None) (\<lambda>r. Reply 404 PNone) s s2"
    and mid: "ix_chain (gt_Index (gw_gate s1)) = []" "poll_view (gw_poll s1) (gt_Index (gw_gate s1)) = [tip_block]"
    and tip: "ix_chain (gt_Index (gw_gate s2)) = [tip_block]" by blast
  from gateway_reachable [OF sv run1] mid(2)
  obtain evs where ahead: "log_history ''chain'' (gw_log s1) = encode_events (block_bytes go_text) evs" "replay 256 evs [] = Some [tip_block]" by metis
  from gateway_reachable [OF sv run] have "map ep_url (pl_eps (wd_pool (gw_world s2))) = [''http://a'', ''http://b'']"
    "Cache_Len (gt_Cache (gw_gate s2)) \<le> 4096" "linked [tip_block]" by (simp_all add: demo_config_def tip)
  with sv run1 run mid(1) ahead tip show ?thesis by (intro exI conjI) assumption+
qed

lemma run_events:
  assumes "Serve_setup P c rps n = Inr (d, s)" and "gw_run P c d marshal emarshal sleep mt none s s'"
  obtains evs more where "log_history ''chain'' (gw_log s') = encode_events marshal (evs @ more)"
    and "replay 256 evs [] = Some (ix_chain (gt_Index (gw_gate s')))"
    and "replay 256 (evs @ more) [] = Some (poll_view (gw_poll s') (gt_Index (gw_gate s')))" and "\<not> poll_running (gw_poll s') \<longrightarrow> more = []"
    and "\<forall>(t, b) \<in> set (evs @ more). served (gateway_source P c) b"
proof -
  from setup_inv [OF assms(1)] obtain eng where d: "d = gateway_deps P c eng"
    and inv: "gateway_inv P c (gateway_gate P c rps) marshal s" by blast
  from run_history [OF run_keeps [OF assms(2) [unfolded d] inv]] that show ?thesis by blast
qed

lemma gateway_text_source: "pf_json P = go_text \<Longrightarrow> text_source (gateway_source P c)"
  by (simp add: gateway_source_def rpc_text.text_source_axioms sol_text.text_source_axioms)

text \<open>C6: a consumer of the events rebuilds the index. In every state of the running gateway, in the middle of a poll too, whoever reads the
  \<^verbatim>\<open>chain\<close> events from the log's beginning and decodes their payloads, the JSON texts that \<^verbatim>\<open>Append\<close> stored,
  back into blocks gets every block exactly, and can apply them all in order, checking every parent link and every reorged
  tip. On the way it holds exactly the blocks of the index; what is left then are events of the poll that is running, which lead to the window that this poll
  has built so far, and without a running poll there are none. (A block counts its transactions with an
  \<^verbatim>\<open>int\<close>.)\<close>

theorem consumer_rebuilds_index:
  assumes "Serve_setup P c rps n = Inr (d, s)" and "pf_json P = go_text"
    and "gw_run P c d (block_bytes go_text) emarshal sleep mt none s s'"
    and "\<forall>b. served (gateway_source P c) b \<longrightarrow> bl_TxCount b \<le> maxInt64"
  shows "\<exists>evs more. decode_events go_text (log_history ''chain'' (gw_log s')) = Some (evs @ more) \<and>
    replay 256 evs [] = Some (ix_chain (gt_Index (gw_gate s'))) \<and>
    replay 256 (evs @ more) [] = Some (poll_view (gw_poll s') (gt_Index (gw_gate s'))) \<and> (\<not> poll_running (gw_poll s') \<longrightarrow> more = [])"
proof -
  obtain evs more where evs: "log_history ''chain'' (gw_log s') = encode_events (block_bytes go_text) (evs @ more)"
      "replay 256 evs [] = Some (ix_chain (gt_Index (gw_gate s')))"
      "replay 256 (evs @ more) [] = Some (poll_view (gw_poll s') (gt_Index (gw_gate s')))" "\<not> poll_running (gw_poll s') \<longrightarrow> more = []"
      "\<forall>(t, b) \<in> set (evs @ more). served (gateway_source P c) b" by (rule run_events [OF assms(1,3)])
  have "decode_events go_text (log_history ''chain'' (gw_log s')) = Some (evs @ more)"
    using text_source.history_decodes [OF gateway_text_source [OF assms(2)] evs(5) assms(4)] evs(1) by simp
  with evs(2-4) show ?thesis by blast
qed

theorem consumer_rebuilds_index_witness:
  "\<exists>d s s1 s2 evs1 evs2. Serve_setup node_platform demo_config 50 0 = Inr (d, s) \<and>
    gw_run node_platform demo_config d (block_bytes go_text) (\<lambda>ev. []) (\<lambda>w n. n + nat w) (\<lambda>r. None) (\<lambda>r. Reply 404 PNone) s s1 \<and>
    gw_run node_platform demo_config d (block_bytes go_text) (\<lambda>ev. []) (\<lambda>w n. n + nat w) (\<lambda>r. None) (\<lambda>r. Reply 404 PNone) s s2 \<and>
    decode_events go_text (log_history ''chain'' (gw_log s1)) = Some evs1 \<and> replay 256 evs1 [] = Some [tip_block] \<and>
    ix_chain (gt_Index (gw_gate s1)) = [] \<and>
    decode_events go_text (log_history ''chain'' (gw_log s2)) = Some evs2 \<and> replay 256 evs2 [] = Some [tip_block] \<and>
    ix_chain (gt_Index (gw_gate s2)) = [tip_block]"
proof -
  from node_run obtain d s s1 s2 where sv: "Serve_setup node_platform demo_config 50 0 = Inr (d, s)" and
    run1: "gw_run node_platform demo_config d (block_bytes go_text) (\<lambda>ev. []) (\<lambda>w n. n + nat w) (\<lambda>r. None) (\<lambda>r. Reply 404 PNone) s s1" and
    run2: "gw_run node_platform demo_config d (block_bytes go_text) (\<lambda>ev. []) (\<lambda>w n. n + nat w) (\<lambda>r. None) (\<lambda>r. Reply 404 PNone) s s2"
    and mid: "ix_chain (gt_Index (gw_gate s1)) = []" "poll_view (gw_poll s1) (gt_Index (gw_gate s1)) = [tip_block]"
    and tip: "ix_chain (gt_Index (gw_gate s2)) = [tip_block]" "\<not> poll_running (gw_poll s2)" by blast
  from consumer_rebuilds_index [OF sv node_json run1 node_counts] mid(2)
  obtain evs1 where 1: "decode_events go_text (log_history ''chain'' (gw_log s1)) = Some evs1" "replay 256 evs1 [] = Some [tip_block]" by metis
  from consumer_rebuilds_index [OF sv node_json run2 node_counts] tip
  obtain evs2 where 2: "decode_events go_text (log_history ''chain'' (gw_log s2)) = Some evs2" "replay 256 evs2 [] = Some [tip_block]" by auto
  from sv run1 run2 1 mid(1) 2 tip(1) show ?thesis by (intro exI conjI) assumption+
qed

text \<open>C7: the block API serves the index. Whenever an authorised client of the running gateway asks for blocks with a
  limit in range (20 if it names none), it is answered 200 with a JSON text that decodes to exactly the newest
  blocks of the index, newest first and at most that many.\<close>

theorem block_api_serves_index:
  assumes "Serve_setup P c rps n = Inr (d, s)" and "pf_json P = go_text"
    and "gw_run P c d marshal emarshal sleep mt none s s'"
    and "\<forall>b. served (gateway_source P c) b \<longrightarrow> bl_TxCount b \<le> maxInt64"
    and "map_of (key_table (gateway_env P) d) (pf_sha256 P (bytes_of (request_key r))) = Some client"
    and "mt r = Some ''GET /v1/blocks''" and "hi_method r \<noteq> ''OPTIONS''" and "asked_limit r = Some k"
  shows "\<exists>body. reply_bytes go_text num (fst (server_recoverer (gateway_env P) d mt none r (gw_gate s', gw_world s'))) = (200, body) \<and>
    decode_blocks go_text body = Some (take (nat k) (rev (ix_chain (gt_Index (gw_gate s')))))"
proof -
  let ?chain = "ix_chain (gt_Index (gw_gate s'))"
  obtain evs more where evs: "replay 256 evs [] = Some ?chain" "\<forall>(t, b) \<in> set (evs @ more). served (gateway_source P c) b"
    by (rule run_events [OF assms(1,3)])
  have new: "\<forall>b. (''block.new'', b) \<in> set evs \<longrightarrow> served (gateway_source P c) b" using evs(2) by (auto simp: split_beta Ball_def)
  have "\<forall>b \<in> set ?chain. served (gateway_source P c) b"
    by (rule conjunct2 [OF replay_blocks [OF evs(1) new]]) simp
  then have "\<forall>b \<in> set ?chain. block_ok b"
    using text_source.served_ok [OF gateway_text_source [OF assms(2)]] assms(4) by blast
  then have "\<forall>b \<in> set (take (nat k) (rev ?chain)). block_ok b" using set_take_subset [of "nat k" "rev ?chain"] by fastforce
  note body = decode_blocks_body [OF this]
  have "en_sha256 (gateway_env P) = pf_sha256 P" by (simp add: gateway_env_def)
  with assms(5) have "map_of (key_table (gateway_env P) d) (en_sha256 (gateway_env P) (bytes_of (request_key r))) = Some client" by simp
  from blocks_request [where mt = mt and r = r, OF this assms(6,7)] assms(8)
  have "fst (server_recoverer (gateway_env P) d mt none r (gw_gate s', gw_world s')) = Reply 200 (PBlocks (take (nat k) (rev ?chain)))"
    by simp
  then show ?thesis by (simp add: reply_bytes_def body)
qed

theorem block_api_serves_index_witness:
  "\<exists>d s s' body. Serve_setup node_platform demo_config 50 0 = Inr (d, s) \<and>
    gw_run node_platform demo_config d (block_bytes go_text) (\<lambda>ev. []) (\<lambda>w n. n + nat w) (\<lambda>r. Some ''GET /v1/blocks'') (\<lambda>r. Reply 404 PNone) s s' \<and>
    reply_bytes go_text (\<lambda>x. ''0'') (fst (server_recoverer (gateway_env node_platform) d (\<lambda>r. Some ''GET /v1/blocks'') (\<lambda>r. Reply 404 PNone)
      (demo_in\<lparr>hi_header := (\<lambda>n. ''correct-horse'')\<rparr>) (gw_gate s', gw_world s'))) = (200, body) \<and>
    decode_blocks go_text body = Some [tip_block]"
proof -
  let ?r = "demo_in\<lparr>hi_header := (\<lambda>n. ''correct-horse'')\<rparr>" and ?mt = "\<lambda>r :: HttpIn. Some ''GET /v1/blocks''"
  from node_run obtain d s s' where sv: "Serve_setup node_platform demo_config 50 0 = Inr (d, s)" and
    run: "gw_run node_platform demo_config d (block_bytes go_text) (\<lambda>ev. []) (\<lambda>w n. n + nat w) ?mt (\<lambda>r. Reply 404 PNone) s s'"
    and tip: "ix_chain (gt_Index (gw_gate s')) = [tip_block]" by blast
  from sv have d: "dp_APIKeys d = [(''correct-horse'', ''web'')]"
    by (auto simp: Serve_setup_def dialEngine_def demo_config_def gateway_deps_def)
  have "map_of (key_table (gateway_env node_platform) d) (pf_sha256 node_platform (bytes_of (request_key ?r))) = Some ''web''"
    by (simp add: key_table_def d gateway_env_def node_platform_def demo_platform_def request_key_def)
  from block_api_serves_index [where mt = ?mt and r = ?r and k = 20, OF sv node_json run node_counts this, of "\<lambda>x. ''0''"] tip
  obtain body where "reply_bytes go_text (\<lambda>x. ''0'') (fst (server_recoverer (gateway_env node_platform) d ?mt (\<lambda>r. Reply 404 PNone)
      ?r (gw_gate s', gw_world s'))) = (200, body)" "decode_blocks go_text body = Some [tip_block]"
    by (auto simp: demo_in_def asked_limit_def)
  with sv run show ?thesis by blast
qed

text \<open>C3: no access without a key. Whatever the configuration that \<^verbatim>\<open>LoadConfig\<close> accepts: a request to any
  route but the three public ones that presents no configured key, in particular none at all or
  one of fewer than eight characters, is answered 401 (as long as the digest of its key does not
  collide with a configured one's). Nothing else happens: the pools and the network, so the nodes,
  the engine, the signer and the relays, are untouched, and of the server's state only the
  request counters change.\<close>

theorem unauthenticated_denied:
  assumes "LoadConfig Ps getenv = Inr c" and "Serve_setup P c rps n = Inr (d, s0)"
    and "request_key r \<notin> fst ` set (cf_APIKeys c) \<or> length (request_key r) < 8"
    and "inj_on (\<lambda>k. pf_sha256 P (bytes_of k)) (insert (request_key r) (fst ` set (cf_APIKeys c)))"
    and "mt r = Some pat" and "pat \<notin> set public_patterns" and "hi_method r \<noteq> ''OPTIONS''"
  shows "\<exists>m. server_recoverer (gateway_env P) d mt none r (g, w) = (Reply 401 (PError ''invalid api key''), g\<lparr>gt_Metrics := m\<rparr>, w)"
proof -
  from assms(2) obtain eng where "d = gateway_deps P c eng" by (auto simp: Serve_setup_def early_return)
  then have d: "dp_APIKeys d = cf_APIKeys c" by (simp add: gateway_deps_def)
  have long: "8 \<le> length k" if "k \<in> fst ` set (cf_APIKeys c)" for k
    using that loaded_keys [OF assms(1)] by (auto simp: keys_ok_def)
  have key: "request_key r \<notin> fst ` set (cf_APIKeys c)" using assms(3) long [of "request_key r"] by linarith
  show ?thesis
    by (rule exI, rule unauthenticated_reply [where mt = mt and r = r, OF _ _ assms(5-7)]) (use assms(4) key in \<open>simp_all add: d gateway_env_def\<close>)
qed

theorem unauthenticated_denied_witness:
  "\<exists>d s m. Serve_setup demo_platform demo_config 50 0 = Inr (d, s) \<and>
    server_recoverer (gateway_env demo_platform) d (\<lambda>r. Some ''POST /v1/sign'') (\<lambda>r. Reply 404 PNone) (demo_in\<lparr>hi_header := (\<lambda>n. ''guess'')\<rparr>)
      (gw_gate s, gw_world s) = (Reply 401 (PError ''invalid api key''), (gw_gate s)\<lparr>gt_Metrics := m\<rparr>, gw_world s)"
proof -
  let ?r = "demo_in\<lparr>hi_header := (\<lambda>n. ''guess'')\<rparr>" and ?mt = "\<lambda>r. Some ''POST /v1/sign''"
  from demo_setup [of 0] obtain d s where sv: "Serve_setup demo_platform demo_config 50 0 = Inr (d, s)" by blast
  have key: "request_key ?r = ''guess''" by (simp add: request_key_def)
  have "\<exists>m. server_recoverer (gateway_env demo_platform) d ?mt (\<lambda>r. Reply 404 PNone) ?r (gw_gate s, gw_world s) =
      (Reply 401 (PError ''invalid api key''), (gw_gate s)\<lparr>gt_Metrics := m\<rparr>, gw_world s)"
    by (rule unauthenticated_denied [OF demo_config sv])
       (simp_all add: key, simp_all add: demo_platform_def demo_config_def demo_in_def public_patterns_def bytes_of_def)
  with sv show ?thesis by blast
qed

text \<open>The simulated node's process. With any environment that \<^verbatim>\<open>SimMain\<close> accepts, whose block interval fits a
  duration (it is below 292 years), and for any number of ticks, the loop never panics, forced
  reorganisations included: after \<open>k\<close> ticks the node is in a reachable state of its chain id with \<open>k + 1\<close> blocks, each
  tick having made the chain one block longer.\<close>

theorem SimMain_grows:
  assumes "SimMain_config getenv = Inr c" and "sm_ms c \<le> 9223372036854"
  shows "\<exists>node. SimMain getenv k = Inr (Some node) \<and> node_reach node \<and> length (nd_blocks node) = Suc k \<and>
    nd_chainID node = sm_id c"
proof -
  have "1 \<le> sm_ms c" using assms(1) by (auto simp: SimMain_config_def early_return)
  then have "wrap64 (sm_ms c * 1000000) = sm_ms c * 1000000" using assms(2) by (simp add: wrap64_def)
  with \<open>1 \<le> sm_ms c\<close> have "SimMain getenv k = Inr (sim_loop (sm_every c) k 1 (Node_New (sm_id c)))"
    using assms(1) by (simp add: SimMain_def)
  with loop_reach [OF node_new, of "sm_every c" k 1 "sm_id c"] show ?thesis by (auto simp: Node_New_def node_mine_def Let_def)
qed

theorem SimMain_grows_witness:
  "\<exists>node. SimMain (\<lambda>v. if v = ''SIM_REORG_EVERY'' then ''3'' else ''9'') 5 = Inr (Some node) \<and> length (nd_blocks node) = 6"
proof -
  let ?env = "\<lambda>v. if v = ''SIM_REORG_EVERY'' then ''3'' else ''9''"
  have "dec_value 0 ''9'' = Some 9" "Atoi ''9'' = Inr 9" "Atoi ''3'' = Inr 3" by code_simp+
  moreover from this have "ParseUint10 ''9'' = Inr 9" by (simp add: ParseUint10_def)
  ultimately have "SimMain_config ?env = Inr \<lparr>sm_id = 9, sm_ms = 9, sm_every = 3\<rparr>" by (simp add: SimMain_config_def go_or_def)
  from SimMain_grows [OF this, of 5] obtain node where "SimMain ?env 5 = Inr (Some node)" "length (nd_blocks node) = Suc 5" by auto
  then show ?thesis by (intro exI [of _ node]) simp
qed

text \<open>A block interval of more than 292 years passes the validation and panics.\<close>

lemma SimMain_panics_on_overflow:
  assumes "SimMain_config getenv = Inr c" and "sm_ms c = 9223372036855"
  shows "SimMain getenv k = Inr None"
  using assms by (simp add: SimMain_def wrap64_def)

end
