(* ===== verification/Proxysteps.thy ===== *)
theory Proxysteps
  imports Server
begin

text \<open>
  Concurrent requests through the proxy of \<^verbatim>\<open>internal/server/server.go\<close>. \<open>Server\<close> runs \<^verbatim>\<open>proxy\<close> from its first
  instruction to its return; here any number of requests are in it at once. A request advances by one
  access to shared state at a time: the limiter, the cache lookup, the answer of the node, the store
  into the cache. Each access holds the lock of its component and is atomic; between them everybody
  else may run.
\<close>

section \<open>Requests in flight\<close>

text \<open>\<open>XAnswered\<close>: the answer \<open>resp\<close> of the node is decoded and is to be stored.\<close>

datatype proxy_state =
    XLimit Request string
  | XLookup Request
  | XForward Request
  | XAnswered Request Response
  | XDone Request Response string

text \<open>\<open>ps_trace\<close> keeps the bodies the node was sent and the answers it gave.\<close>

record PState =
  ps_limiter :: Limiter
  ps_cache :: Cache
  ps_trace :: "(bytes \<times> bytes) list"
  ps_reqs :: "proxy_state list"

datatype proxy_act = XBegin Request string | XStep nat time | XReply nat "gerror + bytes"

definition proxy_limit :: "'e Env \<Rightarrow> nat \<Rightarrow> time \<Rightarrow> Request \<Rightarrow> string \<Rightarrow> PState \<Rightarrow> PState" where
  "proxy_limit V k t q client s = (case Limiter_Allow (fm_rnd (en_fmt V)) t client (ps_limiter s) of
     ((ok, wait), lm) \<Rightarrow> s\<lparr>ps_limiter := lm, ps_reqs := (ps_reqs s)[k :=
       if \<not> ok then XDone q (Fail (rq_ID q) CodeRateLimited (ms_text wait)) ''ratelimited''
       else if cacheable (rq_Method q) then XLookup q else XForward q]\<rparr>)"

definition proxy_lookup :: "'e Env \<Rightarrow> nat \<Rightarrow> time \<Rightarrow> Request \<Rightarrow> PState \<Rightarrow> PState" where
  "proxy_lookup V k t q s = (case Cache_Get t (cache_key q) (ps_cache s) of
     (hit, c) \<Rightarrow> s\<lparr>ps_cache := c, ps_reqs := (ps_reqs s)[k := (case hit of
       None \<Rightarrow> XForward q
     | Some v \<Rightarrow> XDone q \<lparr>rp_JSONRPC = ''2.0'', rp_Result = text_result (en_json V) v, rp_Error = None, rp_ID = idOrNull (rq_ID q)\<rparr> ''cached'')]\<rparr>)"

text \<open>What becomes of a request when the node has answered it with \<open>raw\<close>.\<close>

definition answer_state :: "'e Env \<Rightarrow> Request \<Rightarrow> bytes \<Rightarrow> proxy_state" where
  "answer_state V q raw =
     (case (case js_parse (en_json V) raw of None \<Rightarrow> Inl type_err | Some j \<Rightarrow> dec_response j) of
        Inl err \<Rightarrow> XDone q (Fail (rq_ID q) CodeUpstream ''malformed upstream response'') ''upstream_error''
      | Inr p \<Rightarrow>
          let resp = p\<lparr>rp_ID := idOrNull (rq_ID q)\<rparr> in
          if rp_Error resp \<noteq> None then XDone q resp ''error''
          else if cacheable (rq_Method q) \<and> rp_Result resp \<noteq> Some JNull then XAnswered q resp
          else XDone q resp ''ok'')"

definition proxy_reply :: "'e Env \<Rightarrow> nat \<Rightarrow> Request \<Rightarrow> gerror + bytes \<Rightarrow> PState \<Rightarrow> PState" where
  "proxy_reply V k q r s = (case r of
     Inl err \<Rightarrow> s\<lparr>ps_reqs := (ps_reqs s)[k := XDone q (Fail (rq_ID q) CodeUpstream ''upstream unavailable'') ''upstream_error'']\<rparr>
   | Inr raw \<Rightarrow> s\<lparr>ps_trace := ps_trace s @ [(js_print (en_json V) (json_request q), raw)], ps_reqs := (ps_reqs s)[k := answer_state V q raw]\<rparr>)"

definition proxy_store :: "'e Env \<Rightarrow> nat \<Rightarrow> time \<Rightarrow> Request \<Rightarrow> Response \<Rightarrow> PState \<Rightarrow> PState" where
  "proxy_store V k t q resp s = s\<lparr>ps_cache := Cache_Set t (cache_key q) (result_text (en_json V) (rp_Result resp)) (ps_cache s),
     ps_reqs := (ps_reqs s)[k := XDone q resp ''ok'']\<rparr>"

text \<open>An action that does not fit the state of its request does nothing.\<close>

fun proxy_exec :: "'e Env \<Rightarrow> proxy_act \<Rightarrow> PState \<Rightarrow> PState" where
  "proxy_exec V (XBegin q client) s = s\<lparr>ps_reqs := ps_reqs s @ [XLimit q client]\<rparr>"
| "proxy_exec V (XStep k t) s = (if k < length (ps_reqs s) then (case ps_reqs s ! k of
       XLimit q client \<Rightarrow> proxy_limit V k t q client s
     | XLookup q \<Rightarrow> proxy_lookup V k t q s
     | XAnswered q resp \<Rightarrow> proxy_store V k t q resp s
     | _ \<Rightarrow> s) else s)"
| "proxy_exec V (XReply k r) s = (if k < length (ps_reqs s) then (case ps_reqs s ! k of
       XForward q \<Rightarrow> proxy_reply V k q r s
     | _ \<Rightarrow> s) else s)"

definition proxy_steps :: "'e Env \<Rightarrow> proxy_act list \<Rightarrow> PState \<Rightarrow> PState" where
  "proxy_steps V acts s = fold (proxy_exec V) acts s"

lemma proxy_steps_simps [simp]: "proxy_steps V [] s = s" "proxy_steps V (a # acts) s = proxy_steps V acts (proxy_exec V a s)"
  by (simp_all add: proxy_steps_def)

definition proxy_start :: "Limiter \<Rightarrow> Cache \<Rightarrow> PState" where
  "proxy_start lm c = \<lparr>ps_limiter = lm, ps_cache = c, ps_trace = [], ps_reqs = []\<rparr>"

section \<open>Where cached results come from\<close>

text \<open>A decoded answer that waits to be stored is the node's, and so is what was served from the cache.\<close>

fun req_ok :: "'e Env \<Rightarrow> (bytes \<times> bytes) list \<Rightarrow> proxy_state \<Rightarrow> bool" where
  "req_ok V tr (XLookup q) = cacheable (rq_Method q)"
| "req_ok V tr (XAnswered q resp) = (cacheable (rq_Method q) \<and> answered (en_json V) tr (rq_Method q) (rq_ParamsText q) (rp_Result resp))"
| "req_ok V tr (XDone q resp outcome) = (outcome = ''cached'' \<longrightarrow> cacheable (rq_Method q) \<and> rp_Error resp = None \<and>
     rp_ID resp = normID (rq_ID q) \<and> answered (en_json V) tr (rq_Method q) (rq_ParamsText q) (rp_Result resp))"
| "req_ok V tr _ = True"

definition proxy_inv :: "'e Env \<Rightarrow> PState \<Rightarrow> bool" where
  "proxy_inv V s \<longleftrightarrow> cache_provenance (en_json V) (ps_trace s) (ps_cache s) \<and> (\<forall>x \<in> set (ps_reqs s). req_ok V (ps_trace s) x)"

lemma req_ok_mono: "req_ok V tr x \<Longrightarrow> set tr \<subseteq> set tr' \<Longrightarrow> req_ok V tr' x"
  using answered_mono by (cases x) auto

lemma in_update: "x \<in> set (xs[k := y]) \<Longrightarrow> x = y \<or> x \<in> set xs"
  using set_update_subset_insert [of xs k y] by blast

lemma stored_key:
  assumes "json_text (en_json V) valid" and "stored_ok (en_json V) tr (cache_key q) v" and "cacheable (rq_Method q)"
  shows "answered (en_json V) tr (rq_Method q) (rq_ParamsText q) (text_result (en_json V) v)"
proof -
  from assms(2) obtain m ps res where st: "cacheable m" "cache_key q = m @ string_of ps"
    "v = result_text (en_json V) res" "answered (en_json V) tr m ps res" by (auto simp: stored_ok_def)
  have "m = rq_Method q \<and> ps = rq_ParamsText q"
    using cache_key_inj [of "q\<lparr>rq_Method := m, rq_ParamsText := ps\<rparr>" q] st(1,2) assms(3) by (simp add: cache_key_def)
  with st json_text.result_text_back [OF assms(1) st(4)] show ?thesis by simp
qed

lemma inv_limit: "proxy_inv V s \<Longrightarrow> proxy_inv V (proxy_limit V k t q client s)"
  by (auto simp: proxy_inv_def proxy_limit_def split: prod.split dest!: in_update)

lemma inv_lookup:
  assumes "json_text (en_json V) valid" and "proxy_inv V s" and "cacheable (rq_Method q)"
  shows "proxy_inv V (proxy_lookup V k t q s)"
proof -
  obtain hit c where get: "Cache_Get t (cache_key q) (ps_cache s) = (hit, c)" by fastforce
  have prov: "cache_provenance (en_json V) (ps_trace s) (ps_cache s)" using assms(2) by (simp add: proxy_inv_def)
  have "cache_provenance (en_json V) (ps_trace s) c" using provenance_Get [OF prov, of t "cache_key q"] by (simp add: get)
  moreover have "answered (en_json V) (ps_trace s) (rq_Method q) (rq_ParamsText q) (text_result (en_json V) v)" if "hit = Some v" for v
    by (rule stored_key [OF assms(1) provenance_hit [OF prov, where t = t] assms(3)]) (simp add: get that)
  ultimately show ?thesis
    using assms(2,3) by (auto simp: proxy_inv_def proxy_lookup_def get idOrNull_normID split: option.split dest!: in_update)
qed

lemma inv_reply:
  assumes "proxy_inv V s"
  shows "proxy_inv V (proxy_reply V k q r s)"
proof (cases r)
  case (Inl err)
  with assms show ?thesis by (auto simp: proxy_inv_def proxy_reply_def dest!: in_update)
next
  case (Inr raw)
  let ?tr = "ps_trace s @ [(js_print (en_json V) (json_request q), raw)]"
  have "answered (en_json V) ?tr (rq_Method q) (rq_ParamsText q) (rp_Result p)"
    if "js_parse (en_json V) raw = Some j" "dec_response j = Inr p" "rp_Error p = None" for j p
    unfolding answered_def using that by (intro exI [of _ q] exI [of _ raw] exI [of _ j] exI [of _ p]) simp
  then have "req_ok V ?tr (answer_state V q raw)"
    by (auto simp: answer_state_def Let_def split: option.split sum.split)
  moreover have "cache_provenance (en_json V) ?tr (ps_cache s)" "\<forall>x \<in> set (ps_reqs s). req_ok V ?tr x"
    using assms provenance_mono [of "en_json V" "ps_trace s" "ps_cache s" ?tr] req_ok_mono [of V "ps_trace s" _ ?tr]
    by (auto simp: proxy_inv_def)
  ultimately show ?thesis using Inr by (auto simp: proxy_inv_def proxy_reply_def dest!: in_update)
qed

lemma inv_store:
  assumes "proxy_inv V s" and "req_ok V (ps_trace s) (XAnswered q resp)"
  shows "proxy_inv V (proxy_store V k t q resp s)"
proof -
  have "stored_ok (en_json V) (ps_trace s) (cache_key q) (result_text (en_json V) (rp_Result resp))"
    unfolding stored_ok_def cache_key_def using assms(2) by auto
  with assms(1) show ?thesis by (auto simp: proxy_inv_def proxy_store_def intro!: provenance_Set dest!: in_update)
qed

lemma inv_exec:
  assumes "json_text (en_json V) valid" and "proxy_inv V s"
  shows "proxy_inv V (proxy_exec V a s)"
proof -
  have ok: "req_ok V (ps_trace s) (ps_reqs s ! k)" if "k < length (ps_reqs s)" for k
    using assms(2) that by (simp add: proxy_inv_def)
  show ?thesis
  proof (cases a)
    case (XBegin q client)
    with assms(2) show ?thesis by (auto simp: proxy_inv_def)
  next
    case (XStep k t)
    with assms ok [of k] show ?thesis by (auto split: proxy_state.split intro: inv_limit inv_lookup inv_store)
  next
    case (XReply k r)
    with assms show ?thesis by (auto split: proxy_state.split intro: inv_reply)
  qed
qed

lemma inv_steps: "json_text (en_json V) valid \<Longrightarrow> proxy_inv V s \<Longrightarrow> proxy_inv V (proxy_steps V acts s)"
  by (induction acts arbitrary: s) (simp_all add: inv_exec)

section \<open>A request on its own\<close>

definition proxy_view :: "Gate \<Rightarrow> (bytes \<times> bytes) list \<Rightarrow> proxy_state list \<Rightarrow> PState" where
  "proxy_view g tr reqs = \<lparr>ps_limiter = gt_Limiter g, ps_cache = gt_Cache g, ps_trace = tr, ps_reqs = reqs\<rparr>"

lemma forward_is_steps:
  assumes "dp_Caller d = recording_caller c" and "server_forward V d q (g, (tr, e)) = ((resp, outcome), g', (tr', e'))"
  shows "\<exists>acts. proxy_steps V acts (proxy_view g tr (reqs @ [XForward q])) = proxy_view g' tr' (reqs @ [XDone q resp outcome])"
proof -
  let ?body = "js_print (en_json V) (json_request q)" and ?k = "length reqs"
  obtain x e1 where c: "c ?body e = (x, e1)" by fastforce
  show ?thesis
  proof (cases x)
    case (Inl err)
    with assms c show ?thesis
      by (intro exI [of _ "[XReply ?k x]"]) (auto simp: server_forward_def recording_caller_def proxy_view_def proxy_reply_def)
  next
    case (Inr raw)
    with assms(1) c have call: "dp_Caller d ?body (tr, e) = (Inr raw, tr @ [(?body, raw)], e1)" by (simp add: recording_caller_def)
    show ?thesis
    proof (cases "case js_parse (en_json V) raw of None \<Rightarrow> Inl type_err | Some j \<Rightarrow> dec_response j")
      case fail: (Inl err)
      with assms(2) call Inr show ?thesis
        by (intro exI [of _ "[XReply ?k x]"]) (auto simp: server_forward_def proxy_view_def proxy_reply_def answer_state_def)
    next
      case p: (Inr p)
      show ?thesis
      proof (cases "rp_Error p = None \<and> cacheable (rq_Method q) \<and> rp_Result p \<noteq> Some JNull")
        case True
        with assms(2) call Inr p show ?thesis
          by (intro exI [of _ "[XReply ?k x, XStep ?k (en_now V (tr', e'))]"])
             (auto simp: server_forward_def proxy_view_def proxy_reply_def answer_state_def proxy_store_def Let_def)
      next
        case False
        with assms(2) call Inr p show ?thesis
          by (intro exI [of _ "[XReply ?k x]"])
             (auto simp: server_forward_def proxy_view_def proxy_reply_def answer_state_def Let_def split: if_splits)
      qed
    qed
  qed
qed

lemma proxy_steps_append: "proxy_steps V (xs @ ys) s = proxy_steps V ys (proxy_steps V xs s)"
  by (simp add: proxy_steps_def)

lemma proxy_is_steps:
  assumes "dp_Caller d = recording_caller c" and "server_proxy V d q client (g, (tr, e)) = ((resp, outcome), g', (tr', e'))"
  shows "\<exists>acts. proxy_steps V acts (proxy_view g tr (reqs @ [XLimit q client])) = proxy_view g' tr' (reqs @ [XDone q resp outcome])"
proof -
  let ?k = "length reqs" and ?t = "en_now V (tr, e)"
  obtain ok wait lm where lim: "Limiter_Allow (fm_rnd (en_fmt V)) ?t client (gt_Limiter g) = ((ok, wait), lm)" by (metis surj_pair)
  obtain hit ca where get: "Cache_Get ?t (cache_key q) (gt_Cache g) = (hit, ca)" by fastforce
  let ?g = "g\<lparr>gt_Limiter := lm\<rparr>"
  consider "\<not> ok" | v where "ok" "cacheable (rq_Method q)" "hit = Some v"
    | "ok" "cacheable (rq_Method q)" "hit = None" | "ok" "\<not> cacheable (rq_Method q)" by (cases hit) auto
  then show ?thesis
  proof cases
    case 1
    with assms(2) lim show ?thesis
      by (intro exI [of _ "[XStep ?k ?t]"]) (auto simp: server_proxy_def proxy_view_def proxy_limit_def)
  next
    case 2
    with assms(2) lim get show ?thesis
      by (intro exI [of _ "[XStep ?k ?t, XStep ?k ?t]"])
         (auto simp: server_proxy_def proxy_view_def proxy_limit_def proxy_lookup_def Let_def)
  next
    case 3
    with assms(2) lim get have "server_forward V d q (?g\<lparr>gt_Cache := ca\<rparr>, (tr, e)) = ((resp, outcome), g', (tr', e'))"
      by (simp add: server_proxy_def Let_def)
    from forward_is_steps [OF assms(1) this, of reqs] obtain acts where
      "proxy_steps V acts (proxy_view (?g\<lparr>gt_Cache := ca\<rparr>) tr (reqs @ [XForward q])) = proxy_view g' tr' (reqs @ [XDone q resp outcome])" ..
    with 3 lim get show ?thesis
      by (intro exI [of _ "XStep ?k ?t # XStep ?k ?t # acts"]) (simp add: proxy_view_def proxy_limit_def proxy_lookup_def)
  next
    case 4
    with assms(2) lim have "server_forward V d q (?g, (tr, e)) = ((resp, outcome), g', (tr', e'))" by (simp add: server_proxy_def Let_def)
    from forward_is_steps [OF assms(1) this, of reqs] obtain acts where
      "proxy_steps V acts (proxy_view ?g tr (reqs @ [XForward q])) = proxy_view g' tr' (reqs @ [XDone q resp outcome])" ..
    with 4 lim show ?thesis by (intro exI [of _ "XStep ?k ?t # acts"]) (simp add: proxy_view_def proxy_limit_def)
  qed
qed

section \<open>Properties\<close>

text \<open>The sequential proxy is one schedule of the concurrent one: what it does to the limiter and the cache, what it sends and
  what it answers is what its own steps do when nobody else moves in between.\<close>

theorem proxy_is_schedule:
  assumes "dp_Caller d = recording_caller c" and "server_proxy V d q client (g, (tr, e)) = ((resp, outcome), g', (tr', e'))"
  shows "\<exists>acts. proxy_steps V (XBegin q client # acts) (proxy_view g tr reqs) = proxy_view g' tr' (reqs @ [XDone q resp outcome])"
  using proxy_is_steps [OF assms, of reqs] by (simp add: proxy_view_def)

text \<open>C24: cached answers stay faithful under concurrency. However the steps of any number of requests interleave, from an empty
  cache on, a request that was answered from the cache is for one of the two cacheable methods and got exactly the result
  with which the node has answered a request with the same method and the same parameters, under its own
  id and without an error.\<close>

theorem concurrent_cache_faithful:
  assumes "json_text (en_json V) valid" and "s = proxy_steps V acts (proxy_start lm (Cache_New cap ttl))"
    and "XDone q resp ''cached'' \<in> set (ps_reqs s)"
  shows "cacheable (rq_Method q) \<and> rp_Error resp = None \<and> rp_ID resp = normID (rq_ID q) \<and>
    answered (en_json V) (ps_trace s) (rq_Method q) (rq_ParamsText q) (rp_Result resp)"
proof -
  have "proxy_inv V (proxy_start lm (Cache_New cap ttl))" by (simp add: proxy_inv_def proxy_start_def provenance_New)
  from inv_steps [OF assms(1) this, of acts] assms(2) have "proxy_inv V s" by simp
  with assms(3) have "req_ok V (ps_trace s) (XDone q resp ''cached'')" unfolding proxy_inv_def by blast
  then show ?thesis by simp
qed

definition race_env :: "unit Env" where
  "race_env = \<lparr>en_json = go_text, en_fmt = \<lparr>fm_quote = id, fm_g = (\<lambda>x. []), fm_rnd = id\<rparr>, en_net = en_net demo_env, en_sha256 = id, en_now = (\<lambda>e. 0)\<rparr>"

text \<open>Two requests for the same thing: the second passes the limiter while the first waits for the node, and looks into the cache right
  after the first has stored its answer.\<close>

definition race :: "proxy_act list" where
  "race = [XBegin demo_query ''a'', XBegin demo_query ''a'', XStep 0 0, XStep 0 0, XStep 1 0, XReply 0 (Inr (js_print go_text demo_answer)), XStep 0 0, XStep 1 0]"

lemma race_hit:
  "XDone demo_query \<lparr>rp_JSONRPC = ''2.0'', rp_Result = Some (JStr ''0x1''), rp_Error = None, rp_ID = JNum ''1''\<rparr> ''cached'' \<in>
     set (ps_reqs (proxy_steps race_env race (proxy_start (Limiter_New id 5 10) (Cache_New 8 100))))"
proof -
  have parse: "text_result go_text (js_print go_text (JStr ''0x1'')) = Some (JStr ''0x1'')" by (simp add: text_result_def)
  show ?thesis
    by (simp add: race_def race_env_def proxy_start_def proxy_limit_def proxy_lookup_def proxy_reply_def answer_state_def proxy_store_def
      Limiter_Allow_def Limiter_New_def refill_def Seconds_def go_quot_def Cache_Get_def Cache_Set_def Cache_New_def Let_def
      demo_query_def cacheable_def cache_key_def demo_answer_decodes idOrNull_def result_text_def string_of_def parse)
qed

theorem concurrent_cache_faithful_witness:
  "answered go_text (ps_trace (proxy_steps race_env race (proxy_start (Limiter_New id 5 10) (Cache_New 8 100)))) ''eth_chainId'' [] (Some (JStr ''0x1''))"
proof -
  have "json_text (en_json race_env) (valid_json max_depth)" by (simp add: race_env_def go_json.json_text_axioms)
  from concurrent_cache_faithful [OF this refl race_hit] show ?thesis by (simp add: race_env_def demo_query_def)
qed

end
