(* ===== verification/Spec2Isabelle.thy ===== *)
theory Spec2Isabelle
  imports Gateway Proxysteps
begin

text \<open>
  A verification development for the ChainForge gateway, the Go program under
  \<^verbatim>\<open>src/services/gateway\<close>. The gateway stands between clients and blockchain nodes: it proxies JSON-RPC
  with caching, rate limiting and failover, indexes the chain through reorganisations, publishes the
  changes to an event log with streams and webhooks, simulates transactions on an engine, has them
  signed by a custodial signer, and submits raw transactions to private relays.

  \<^bold>\<open>How the program is put together.\<close> \<^verbatim>\<open>app.Serve\<close> builds a pool of nodes (\<^verbatim>\<open>upstream\<close>, one \<^verbatim>\<open>breaker\<close> per
  endpoint), an \<^verbatim>\<open>eventlog\<close>, an \<^verbatim>\<open>indexer\<close> over a node source (Ethereum or \<^verbatim>\<open>solana\<close>), an \<^verbatim>\<open>intent\<close> service over
  the pool and the engine (\<^verbatim>\<open>engineclient\<close> on \<^verbatim>\<open>pbwire\<close> and \<^verbatim>\<open>grpcx\<close>), relays (\<^verbatim>\<open>relay\<close>), the signer's client
  (\<^verbatim>\<open>signerclient\<close>), a \<^verbatim>\<open>ratelimit\<close>, a \<^verbatim>\<open>cache\<close>, \<^verbatim>\<open>webhook\<close>s and \<^verbatim>\<open>metrics\<close>, and hands them to \<^verbatim>\<open>server.New\<close>. Then
  the indexer polls, the webhook runner delivers, and the server answers requests.

  \<^bold>\<open>Theories and sources\<close> (paths below \<^verbatim>\<open>internal/\<close>).

  \<^item> \<open>Prelude\<close>: bytes, words, times, the errors that cross packages, early returns (\<open>ebind\<close>, \<open>rbind\<close>), and
    shared lemmas. \<open>Http\<close>: requests, responses, bounded body reads.
  \<^item> \<open>Breaker\<close> (\<^verbatim>\<open>breaker/breaker.go\<close>): the three-state machine as a record with one transformer per
    method, all interleavings of callers as a step relation.
  \<^item> \<open>Upstream\<close> (\<^verbatim>\<open>upstream/upstream.go\<close>): \<open>Pool_Call\<close> with its 64-bit counter and signed remainder; \<open>Poolsteps\<close>: any
    number of calls at once, one access to the counter or a breaker at a time.
  \<^item> \<open>Eventlog\<close> (\<^verbatim>\<open>eventlog/eventlog.go\<close>): partitions, offsets, commits, and a store of channels; \<open>Subscriber\<close>: what a
    loop that receives from the log gets under any schedule.
  \<^item> \<open>Indexer\<close> (\<^verbatim>\<open>indexer/indexer.go\<close>): \<open>Indexer_Sync\<close> over an arbitrary \<open>Source\<close>; \<open>Syncsteps\<close>: the same poll, one access to
    the node, the log or the index at a time; \<open>Rpcsource\<close>: the sources of
    \<^verbatim>\<open>indexer.go\<close> and \<^verbatim>\<open>solana/solana.go\<close>; \<open>Encodings\<close>: blocks and events as JSON, and what a consumer decodes.
  \<^item> \<open>Cache\<close> (\<^verbatim>\<open>cache/cache.go\<close>): the linked list, its element store and the index map.
  \<^item> \<open>Pbwire\<close>, \<open>Engineclient\<close>, \<open>Grpcx\<close> (\<^verbatim>\<open>pbwire\<close>, \<^verbatim>\<open>engineclient\<close>, \<^verbatim>\<open>grpcx\<close>): the protobuf codec, the engine's
    messages, framing and status of a unary call.
  \<^item> \<open>Hexcode\<close>, \<open>Keccak\<close> (\<^verbatim>\<open>keccak/keccak.go\<close>): hexadecimal texts; the permutation, the sponge, checksums.
  \<^item> \<open>Json\<close>, \<open>Gojson\<close>: JSON values and decoding by struct tags; the printer and the parser of
    \<^verbatim>\<open>encoding/json\<close>, with the round trip that \<open>Json\<close> asks for.
  \<^item> \<open>Jsonrpc\<close>, \<open>Rpcx\<close> (\<^verbatim>\<open>jsonrpc\<close>, \<^verbatim>\<open>rpcx\<close>): serving and calling JSON-RPC. \<open>Intent\<close> (\<^verbatim>\<open>intent/intent.go\<close>):
    validation, pre-state, simulation and pricing. \<open>Relay\<close> (\<^verbatim>\<open>relay/relay.go\<close>).
  \<^item> \<open>Ratelimit\<close>, \<open>Metrics\<close>, \<open>Signerclient\<close>, \<open>Webhook\<close>: the packages of these names.
  \<^item> \<open>Server\<close>, \<open>Routes\<close> (\<^verbatim>\<open>server/server.go\<close>, \<^verbatim>\<open>server/intents.go\<close>): the handlers, the middleware, the root handler;
    \<open>Replies\<close>: the bytes of every reply; \<open>Proxysteps\<close>: any number of requests in the proxy at once.
  \<^item> \<open>Chainsim\<close> (\<^verbatim>\<open>chainsim/chainsim.go\<close>): the simulated node.
  \<^item> \<open>Appconfig\<close>, \<open>Gateway\<close> (\<^verbatim>\<open>app/app.go\<close>): configuration; the wiring of \<^verbatim>\<open>Serve\<close>, the running gateway, the
    simulated node's process, and the exit status of both commands (\<^verbatim>\<open>cmd/\<close>).

  A Go struct is a record, a method a function that takes the receiver last and returns it, a
  \<^verbatim>\<open>(T, error)\<close> result a value of \<open>gerror + 't\<close>, a call to the outside a function on a world \<open>'e\<close>. A run-time panic is the outcome \<open>Panics\<close>, or
  the value \<open>RuntimeError\<close> where errors are propagated.

  \<^bold>\<open>What is shown.\<close>

  \<^item> Breakers and pools: the invariant of every interleaving, one probe at a time, closed exactly below the threshold
    of failures since the last success; the pool refines trying the endpoints in rotation, and answers if one endpoint can. In every
    interleaving of concurrent calls they take the endpoints round robin, a tripped endpoint gets one
    probe, and a call that gets its turns returns.
  \<^item> Log and streams: durable offsets, exact reads, order per key, commits; streams and webhook deliveries without gaps,
    and a subscriber that falls behind is cut off for good.
  \<^item> Index: replaying the published events gives the window, which stays bounded and linked, and without gaps where the source
    numbers its blocks as asked;
    \<^verbatim>\<open>Sync\<close> terminates and converges; end to end over JSON texts it follows the simulated node through
    forks; the Solana source finds heights among skipped slots. A consumer that decodes the published JSON
    rebuilds the index, also in the middle of a poll, when the log is ahead of it, and so does a client of the block API.
  \<^item> Cache and proxy: the list and the map refine a recency list; hits are the node's own answers, also
    when requests interleave; a batch is answered request by request.
  \<^item> Codecs: protobuf, engine messages and gRPC frames are read back as written, and no input makes the reader panic; Keccak-f is the
    standard's; addresses are accepted exactly in their three spellings; JSON round trips.
  \<^item> Intents: what is signed is, field by field, what was prepared and simulated with success, with the key asked for; the exact
    gas limit; the signer plays no part otherwise.
  \<^item> Limits and access: the rate bound in floating-point arithmetic with relative errors; webhooks stay within their rules; a loaded
    configuration is sound; without a configured key nothing happens behind a protected route; the
    secrets of webhooks do not show in any reply.
  \<^item> The whole: every state of the running gateway keeps the components' invariants, and the index is what a prefix of the
    published events gives, all of them when no poll runs.

  \<^bold>\<open>Interfaces.\<close> The contracts between components are locales, interpreted on the model: the gate that a
  pool asks of a breaker, the sink that the indexer asks of the log, a source whose blocks carry the requested number, JSON texts
  that are read back as printed, a source whose blocks survive
  their JSON text, and dependencies of the server that keep a property of the world (\<open>keeping_deps\<close>).

  \<^bold>\<open>Loops and fuel.\<close> The catch-up loop of \<^verbatim>\<open>Sync\<close> can run forever, so it is a partial function into \<open>option\<close> and
  its termination a theorem. The JSON parser takes fuel; \<open>Gojson\<close> proves that its fuel, twice the length of
  the text, is always enough. \<^verbatim>\<open>Run\<close>, the stream, the webhook runner and \<^verbatim>\<open>SimMain\<close> run until they are cancelled; they are
  functions of the number of turns, or of a schedule, and the theorems hold for every number. All
  other loops terminate by structure or by a measure.

  \<^bold>\<open>Parameters.\<close> The network and the clock (\<open>HttpClient\<close>), SHA-256 and HMAC, URL and IP parsing (\<open>Net\<close>), the
  \<^verbatim>\<open>fmt\<close> verbs \<^verbatim>\<open>%q\<close> and \<^verbatim>\<open>%g\<close> and the rounding of floating-point numbers (\<open>Fmt\<close>), parsing of floats and
  durations, certificate files, the text of an error, the pattern matching of \<^verbatim>\<open>http.ServeMux\<close>, and the JSON
  texts where a theorem holds for any encoding.

  \<^bold>\<open>Concurrency.\<close> A component's method holds the component's lock, so it is one atomic transformer. Where a
  function makes several such calls and others may run in between, the sequential model is accompanied by
  one that takes them apart: \<open>Poolsteps\<close> for \<^verbatim>\<open>Pool.Call\<close>, \<open>Proxysteps\<close> for \<^verbatim>\<open>proxy\<close>, \<open>Syncsteps\<close> for \<^verbatim>\<open>Sync\<close>, schedules for streams and
  webhooks; the sequential call is shown to be one of the schedules. The running gateway of \<open>Gateway\<close> interleaves the steps of \<open>Syncsteps\<close> and of
  streams with requests and deliveries, each of which is one step there.

  \<^bold>\<open>Not modelled.\<close> What \<^verbatim>\<open>net/http\<close> does with sockets while it serves and shuts down, signals, log lines and the texts
  of errors in them; request ids; rates that are not finite; interleavings inside the intent routes, whose calls
  touch no state of the gateway but the metrics. The engine, the signer and
  their shared crate (Rust), the web front end (TypeScript), and deployment files are other programs.
\<close>

end
